(* ===== verification/Stdb_Prelude.thy ===== *)
theory Stdb_Prelude
  imports Main "HOL-Library.Word" "HOL-Library.Multiset"
begin

text \<open>
  Vocabulary shared by the components: the machine integers of the Rust sources as words, the
  conversions between integers and little-endian bytes, the bit-counting intrinsics of
  \<^verbatim>\<open>u64\<close>, and the generic facts about lists, options and words the component
  proofs use.  A Rust panic (failed assertion, slice index out of range, \<^verbatim>\<open>expect\<close>
  on \<^verbatim>\<open>None\<close>) is the value \<^const>\<open>None\<close> of an operation whose
  result has type \<open>_ option\<close>; a returned \<^verbatim>\<open>Result\<close> is a sum, with
  \<^const>\<open>Inl\<close> for \<^verbatim>\<open>Err\<close>.
\<close>

unbundle bit_operations_syntax

named_theorems word_mask_simps
named_theorems slot_simps

subsection \<open>Machine integers\<close>

type_synonym u8 = "8 word"
type_synonym u16 = "16 word"
type_synonym u32 = "32 word"
type_synonym u64 = "64 word"

type_synonym byte = u8

lemma unat_eq_iff [simp]: "unat v = unat w \<longleftrightarrow> v = w" for v w :: "'a::len word"
  by (simp add: word_unat_eq_iff)

text \<open>\<^verbatim>\<open>usize\<close> of a 64-bit target, where it is computed with rather than
  only compared.\<close>

definition usize_wrap :: "nat \<Rightarrow> nat" where
  "usize_wrap n = n mod 2 ^ 64"

lemma usize_wrap_less [simp]: "n < 2 ^ 64 \<Longrightarrow> usize_wrap n = n"
  by (simp add: usize_wrap_def)

subsection \<open>Rounding division\<close>

definition div_ceil :: "nat \<Rightarrow> nat \<Rightarrow> nat" where
  "div_ceil a b = (a + b - 1) div b"

lemma div_ceil_mult_ge: "0 < b \<Longrightarrow> a \<le> div_ceil a b * b"
  using dividend_less_times_div [of b "a + b - 1"] by (simp add: div_ceil_def mult.commute)

lemma div_ceil_mult_less: "0 < b \<Longrightarrow> div_ceil a b * b < a + b"
  by (metis div_ceil_def One_nat_def Suc_pred add_gr_0 div_times_less_eq_dividend le_imp_less_Suc)

lemma less_div_ceil: "0 < b \<Longrightarrow> (i < div_ceil a b) = (i * b < a)"
proof
  assume b: "0 < b" and "i < div_ceil a b"
  then have "Suc i * b \<le> div_ceil a b * b" by (intro mult_le_mono1) simp
  with div_ceil_mult_less [OF b, of a] show "i * b < a" by simp
next
  assume b: "0 < b" and "i * b < a"
  with div_ceil_mult_ge [OF b, of a] have "i * b < div_ceil a b * b" by linarith
  then show "i < div_ceil a b" by (simp only: mult_less_cancel2)
qed

subsection \<open>Little-endian bytes\<close>

text \<open>\<^verbatim>\<open>to_le_bytes\<close> and \<^verbatim>\<open>from_le_bytes\<close> of the unsigned
  integers, least significant byte first; the byte count is the first argument.\<close>

fun to_le_bytes :: "nat \<Rightarrow> 'a::len word \<Rightarrow> byte list" where
  "to_le_bytes 0 w = []"
| "to_le_bytes (Suc n) w = ucast w # to_le_bytes n (drop_bit 8 w)"

fun from_le_bytes :: "byte list \<Rightarrow> 'a::len word" where
  "from_le_bytes [] = 0"
| "from_le_bytes (b # bs) = ucast b OR push_bit 8 (from_le_bytes bs)"

lemma length_to_le_bytes [simp]: "length (to_le_bytes n w) = n"
  by (induction n arbitrary: w) auto

lemma from_le_bytes_to_le_bytes_take:
  "from_le_bytes (to_le_bytes n w) = (take_bit (8 * n) w :: 'a::len word)"
proof (induction n arbitrary: w)
  case (Suc n)
  have "from_le_bytes (to_le_bytes (Suc n) w)
      = ucast (ucast w :: byte) OR push_bit 8 (take_bit (8 * n) (drop_bit 8 w))"
    using Suc.IH by simp
  also have "\<dots> = (take_bit (8 * Suc n) w :: 'a word)"
    by (rule bit_eqI) (auto simp: bit_simps)
  finally show ?case .
qed simp

lemma from_le_bytes_to_le_bytes:
  "LENGTH('a) = 8 * n \<Longrightarrow> from_le_bytes (to_le_bytes n w) = (w :: 'a::len word)"
  by (simp add: from_le_bytes_to_le_bytes_take take_bit_word_eq_self)

lemma to_le_bytes_from_le_bytes:
  "length bs = n \<Longrightarrow> LENGTH('a) = 8 * n \<Longrightarrow> to_le_bytes n (from_le_bytes bs :: 'a::len word) = bs"
proof -
  have gen: "8 * length bs \<le> LENGTH('a) \<Longrightarrow>
      to_le_bytes (length bs) (from_le_bytes bs :: 'a word) = bs" for bs
  proof (induction bs)
    case (Cons b bs)
    let ?r = "from_le_bytes bs :: 'a word"
    have lo: "(ucast (ucast b OR push_bit 8 ?r) :: byte) = b"
      using Cons.prems by (intro bit_eqI) (auto simp: bit_simps)
    have small: "\<not> bit ?r i" if "8 * length bs \<le> i" for i
      using Cons.IH Cons.prems that
      by (metis bit_take_bit_iff from_le_bytes_to_le_bytes_take add_leD2 length_Cons mult_Suc_right
          linorder_not_less)
    have hi: "drop_bit 8 (ucast b OR push_bit 8 ?r) = ?r"
    proof (rule bit_word_eqI)
      fix i assume "i < LENGTH('a)"
      show "bit (drop_bit 8 (ucast b OR push_bit 8 ?r)) i = bit ?r i"
        using Cons.prems small [of i] by (auto simp: bit_simps dest: bit_imp_le_length)
    qed
    have "to_le_bytes (length bs) ?r = bs" using Cons.IH Cons.prems by simp
    then show ?case by (simp only: length_Cons from_le_bytes.simps to_le_bytes.simps lo hi)
  qed simp
  assume "length bs = n" and "LENGTH('a) = 8 * n"
  then show ?thesis using gen [of bs] by simp
qed

lemma to_le_bytes_inject:
  "LENGTH('a) = 8 * n \<Longrightarrow> (to_le_bytes n v = to_le_bytes n w) = (v = (w :: 'a::len word))"
  by (metis from_le_bytes_to_le_bytes)

subsection \<open>Bit counting\<close>

text \<open>The intrinsics \<^verbatim>\<open>trailing_zeros\<close>, \<^verbatim>\<open>leading_zeros\<close> and
  \<^verbatim>\<open>count_ones\<close> of the unsigned integers.\<close>

definition set_bits_of :: "'a::len word \<Rightarrow> nat list" where
  "set_bits_of w = filter (bit w) [0..<LENGTH('a)]"

definition trailing_zeros :: "'a::len word \<Rightarrow> nat" where
  "trailing_zeros w = length (takeWhile (\<lambda>i. \<not> bit w i) [0..<LENGTH('a)])"

definition leading_zeros :: "'a::len word \<Rightarrow> nat" where
  "leading_zeros w = length (takeWhile (\<lambda>i. \<not> bit w i) (rev [0..<LENGTH('a)]))"

definition count_ones :: "'a::len word \<Rightarrow> nat" where
  "count_ones w = length (set_bits_of w)"

lemma set_set_bits_of [simp]: "set (set_bits_of w) = {i. bit w i}"
  by (auto simp: set_bits_of_def dest: bit_imp_le_length)

lemma sorted_set_bits_of: "sorted_wrt (<) (set_bits_of w)"
  by (simp add: set_bits_of_def sorted_wrt_filter)

lemma set_bits_of_Nil_iff [simp]: "set_bits_of w = [] \<longleftrightarrow> w = 0"
proof
  assume "set_bits_of w = []"
  then have "{i. bit w i} = {}" by (metis set_set_bits_of empty_set)
  then show "w = 0" by (auto intro!: bit_word_eqI)
qed (simp add: set_bits_of_def)

text \<open>Two strictly ascending lists with the same elements are equal: how every enumeration of a
  bit set below is identified.\<close>

lemma sorted_less_unique:
  fixes xs ys :: "'a::linorder list"
  assumes "sorted_wrt (<) xs" and "sorted_wrt (<) ys" and "set xs = set ys"
  shows "xs = ys"
  using assms by (simp add: strict_sorted_equal)

lemma takeWhile_not_upt:
  assumes "P n" and "\<forall>i<n. \<not> P i" and "n < m"
  shows "takeWhile (\<lambda>i. \<not> P i) [0..<m] = [0..<n]"
proof -
  have "[0..<m] = [0..<n] @ n # [Suc n..<m]"
    using assms(3) by (metis less_imp_add_positive upt_add_eq_append upt_conv_Cons le0 add.commute
        less_add_same_cancel1 zero_le)
  moreover have "takeWhile (\<lambda>i. \<not> P i) ([0..<n] @ n # [Suc n..<m])
      = [0..<n] @ takeWhile (\<lambda>i. \<not> P i) (n # [Suc n..<m])"
    using assms(2) by (intro takeWhile_append2) simp
  ultimately show ?thesis using assms(1) by simp
qed

lemma trailing_zeros_eqI:
  "bit w n \<Longrightarrow> \<forall>i<n. \<not> bit w i \<Longrightarrow> trailing_zeros w = n"
  for w :: "'a::len word"
  by (frule bit_imp_le_length) (simp add: trailing_zeros_def takeWhile_not_upt)

lemma trailing_zeros_0 [simp]: "trailing_zeros (0 :: 'a::len word) = LENGTH('a)"
  by (simp add: trailing_zeros_def takeWhile_eq_all_conv [THEN iffD2])

lemma trailing_zeros_props:
  assumes "w \<noteq> (0 :: 'a::len word)"
  shows "bit w (trailing_zeros w)" and "\<forall>i<trailing_zeros w. \<not> bit w i"
    and "trailing_zeros w < LENGTH('a)"
proof -
  from assms obtain n where n: "bit w n" "\<forall>i<n. \<not> bit w i"
    by (metis bit_word_eqI bit_0_eq bot_apply bot_bool_def exists_least_iff)
  then have "trailing_zeros w = n" by (rule trailing_zeros_eqI)
  with n show "bit w (trailing_zeros w)" and "\<forall>i<trailing_zeros w. \<not> bit w i"
    and "trailing_zeros w < LENGTH('a)"
    by (auto dest: bit_imp_le_length)
qed

lemma trailing_zeros_less_iff [simp]:
  "trailing_zeros (w :: 'a::len word) < LENGTH('a) \<longleftrightarrow> w \<noteq> 0"
  using trailing_zeros_props(3) by (cases "w = 0") auto

text \<open>The idiom \<^verbatim>\<open>w & (w - 1)\<close> of the iterators clears exactly the lowest set bit.\<close>

lemma bit_clear_lowest:
  assumes "w \<noteq> (0 :: 'a::len word)"
  shows "bit (w AND (w - 1)) i \<longleftrightarrow> bit w i \<and> i \<noteq> trailing_zeros w"
proof -
  define n where "n = trailing_zeros w"
  define h where "h = w AND NOT (mask (Suc n))"
  note tz = trailing_zeros_props [OF assms, folded n_def]
  have h: "bit h i \<longleftrightarrow> bit w i \<and> n < i" for i
    by (auto simp: h_def bit_simps dest: bit_imp_le_length)
  have "w = push_bit n 1 OR h"
    using tz by (intro bit_word_eqI) (auto simp: bit_simps h not_less_iff_gr_or_eq)
  also have "\<dots> = push_bit n 1 + h"
    by (rule disjunctive_add [symmetric]) (auto simp: bit_simps h)
  finally have "w - 1 = mask n + h"
    by (simp add: mask_eq_exp_minus_1 push_bit_eq_mult)
  also have "\<dots> = mask n OR h"
    by (rule disjunctive_add) (auto simp: bit_simps h)
  finally have w1: "w - 1 = mask n OR h" .
  show ?thesis
    unfolding w1 n_def [symmetric] using tz
    by (auto simp: bit_simps h not_less_iff_gr_or_eq dest: bit_imp_le_length)
qed

lemma set_bits_of_step:
  assumes "w \<noteq> 0"
  shows "set_bits_of w = trailing_zeros w # set_bits_of (w AND (w - 1))"
proof (rule sorted_less_unique)
  note tz = trailing_zeros_props [OF assms]
  show "sorted_wrt (<) (trailing_zeros w # set_bits_of (w AND (w - 1)))"
    using tz by (auto simp: sorted_set_bits_of bit_clear_lowest [OF assms])
      (metis linorder_neqE_nat)
  show "set (set_bits_of w) = set (trailing_zeros w # set_bits_of (w AND (w - 1)))"
    using tz by (auto simp: bit_clear_lowest [OF assms])
qed (rule sorted_set_bits_of)

lemma count_ones_step: "w \<noteq> 0 \<Longrightarrow> count_ones w = Suc (count_ones (w AND (w - 1)))"
  by (simp add: count_ones_def set_bits_of_step)

lemma count_ones_0 [simp]: "count_ones 0 = 0"
  by (simp add: count_ones_def)

subsection \<open>Bit fields\<close>

text \<open>Reading and overwriting the \<open>n\<close>-bit field of a word that starts at bit \<open>off\<close>: the form
  to which the packed structures of the sources (row pointers, granule headers) reduce.\<close>

definition field_get :: "nat \<Rightarrow> nat \<Rightarrow> 'a::len word \<Rightarrow> 'a word" where
  "field_get off n w = drop_bit off w AND mask n"

definition field_put :: "nat \<Rightarrow> nat \<Rightarrow> 'a::len word \<Rightarrow> 'a word \<Rightarrow> 'a word" where
  "field_put off n w v = (w AND NOT (push_bit off (mask n))) OR push_bit off (v AND mask n)"

lemma bit_field_put:
  "bit (field_put off n w v) i \<longleftrightarrow> i < LENGTH('a) \<and>
     (if off \<le> i \<and> i < off + n then bit v (i - off) else bit w i)"
  for w :: "'a::len word"
  by (auto simp: field_put_def bit_simps dest: bit_imp_le_length)

lemma bit_field_get:
  "bit (field_get off n w) i \<longleftrightarrow> i < n \<and> bit w (off + i)" for w :: "'a::len word"
  by (auto simp: field_get_def bit_simps dest: bit_imp_le_length)

lemma field_get_put_same [slot_simps]:
  "off + n \<le> LENGTH('a) \<Longrightarrow> field_get off n (field_put off n w v) = v AND mask n"
  for w :: "'a::len word"
  by (rule bit_word_eqI) (auto simp: bit_field_get bit_field_put bit_simps)

lemma field_get_put_other [slot_simps]:
  "off + n \<le> off' \<or> off' + n' \<le> off \<Longrightarrow> field_get off n (field_put off' n' w v) = field_get off n w"
  for w :: "'a::len word"
  by (rule bit_word_eqI) (auto simp: bit_field_get bit_field_put dest: bit_imp_le_length)

lemma field_put_get [slot_simps]: "field_put off n w (field_get off n w) = w"
  for w :: "'a::len word"
  by (rule bit_word_eqI) (auto simp: bit_field_get bit_field_put)

lemma and_mask_eq_self [simp]: "unat w < 2 ^ n \<Longrightarrow> w AND mask n = w" for w :: "'a::len word"
  unfolding word_unat_eq_iff
  by (simp only: take_bit_eq_mask [symmetric] unsigned_take_bit_eq take_bit_nat_eq_self)

subsection \<open>Vectors\<close>

text \<open>\<^verbatim>\<open>Iterator::position\<close> and \<^verbatim>\<open>Vec::swap_remove\<close>; the latter is only
  called with an index in range.\<close>

fun list_position :: "('a \<Rightarrow> bool) \<Rightarrow> 'a list \<Rightarrow> nat option" where
  "list_position P [] = None"
| "list_position P (x # xs) = (if P x then Some 0 else map_option Suc (list_position P xs))"

definition swap_remove :: "'a list \<Rightarrow> nat \<Rightarrow> 'a list" where
  "swap_remove xs i = butlast (xs[i := last xs])"

lemma list_position_None_iff: "list_position P xs = None \<longleftrightarrow> (\<forall>x\<in>set xs. \<not> P x)"
  by (induction xs) auto

lemma list_position_Some: "list_position P xs = Some i \<Longrightarrow> i < length xs \<and> P (xs ! i)"
  by (induction xs arbitrary: i) (auto split: if_splits)

lemma length_swap_remove [simp]: "length (swap_remove xs i) = length xs - 1"
  by (simp add: swap_remove_def)

lemma mset_swap_remove:
  assumes "i < length xs"
  shows "mset (swap_remove xs i) = mset xs - {#xs ! i#}"
proof -
  have ne: "xs \<noteq> []" using assms by auto
  have "mset (xs[i := last xs]) = add_mset (last xs) (mset xs - {#xs ! i#})"
    using assms by (simp add: mset_update)
  moreover have "last (xs[i := last xs]) = last xs"
    using ne assms by (cases "i = length xs - 1") (auto simp: last_conv_nth)
  moreover have "mset (xs[i := last xs])
      = add_mset (last (xs[i := last xs])) (mset (butlast (xs[i := last xs])))"
    using ne by (metis append_butlast_last_id list_update_nonempty mset.simps(2) mset_append
        union_mset_add_mset_right mset.simps(1) add.right_neutral)
  ultimately show ?thesis by (simp add: swap_remove_def)
qed

lemma distinct_swap_remove:
  assumes "i < length xs" and "distinct xs"
  shows "distinct (swap_remove xs i)" and "set (swap_remove xs i) = set xs - {xs ! i}"
proof -
  note m = mset_swap_remove [OF assms(1)]
  have "mset (swap_remove xs i) = mset_set (set xs - {xs ! i})"
    using m assms by (simp add: mset_set_set mset_set_Diff)
  moreover from this show s: "set (swap_remove xs i) = set xs - {xs ! i}"
    by (metis List.finite_set finite_Diff finite_set_mset_mset_set set_mset_mset)
  ultimately show "distinct (swap_remove xs i)"
    by (simp add: distinct_count_atmost_1)
qed

lemma distinct_concat_keyed:
  assumes "\<And>k. k \<in> set ks \<Longrightarrow> distinct (f k) \<and> (\<forall>s\<in>set (f k). key s = k)" and "distinct ks"
  shows "distinct (concat (map f ks))"
  using assms
proof (induction ks)
  case (Cons a ks)
  have "key s \<noteq> a" if "k \<in> set ks" "s \<in> set (f k)" for k s
  proof -
    have "key s = k" using Cons.prems(1) [of k] that by simp
    then show ?thesis using Cons.prems(2) that(1) by auto
  qed
  moreover have "\<forall>s\<in>set (f a). key s = a" "distinct (f a)" using Cons.prems(1) [of a] by auto
  moreover have "distinct (concat (map f ks))" using Cons by simp
  ultimately show ?case by auto
qed simp

end
