(* ===== verification/Fixed_Bit_Set.thy ===== *)
theory Fixed_Bit_Set
  imports Stdb_Prelude
begin

text \<open>
  \<^verbatim>\<open>crates/table/src/fixed_bit_set.rs\<close>: the fixed-capacity bit set behind the
  presence bits of a page and behind the delete tables of a transaction.  The heap slice of
  \<^verbatim>\<open>u64\<close> blocks is a list; reading or writing a block out of range panics
  (\<^const>\<open>None\<close>).  The interface its clients use is the locale \<open>bit_array\<close>.
\<close>

unbundle bit_operations_syntax

subsection \<open>The set and its operations\<close>

datatype fixed_bit_set = FixedBitSet (storage: "u64 list")

definition BITS :: nat where
  "BITS = 64"

definition LEN_MAX :: nat where
  "LEN_MAX = 65535"

definition from_boxed_slice :: "u64 list \<Rightarrow> fixed_bit_set option" where
  "from_boxed_slice blks = (if length blks \<le> LEN_MAX then Some (FixedBitSet blks) else None)"

definition blocks :: "fixed_bit_set \<Rightarrow> nat" where
  "blocks s = length (storage s)"

definition blocks_for_bits :: "nat \<Rightarrow> nat" where
  "blocks_for_bits n = div_ceil n BITS"

definition new_for_blocks :: "nat \<Rightarrow> fixed_bit_set option" where
  "new_for_blocks nblocks = from_boxed_slice (replicate nblocks 0)"

definition bitset_new :: "nat \<Rightarrow> fixed_bit_set option" where
  "bitset_new n = new_for_blocks (blocks_for_bits n)"

definition idx_to_pos :: "nat \<Rightarrow> nat \<times> nat" where
  "idx_to_pos idx = (idx div BITS, idx mod BITS)"

definition bitset_get :: "fixed_bit_set \<Rightarrow> nat \<Rightarrow> bool option" where
  "bitset_get s idx =
     (let (block_idx, pos_in_block) = idx_to_pos idx
      in if block_idx < length (storage s)
         then Some (storage s ! block_idx AND push_bit pos_in_block 1 \<noteq> 0)
         else None)"

definition bitset_set :: "fixed_bit_set \<Rightarrow> nat \<Rightarrow> bool \<Rightarrow> fixed_bit_set option" where
  "bitset_set s idx val =
     (let (block_idx, pos_in_block) = idx_to_pos idx
      in if block_idx < length (storage s)
         then let block = storage s ! block_idx;
                  flag = push_bit pos_in_block 1
              in Some (FixedBitSet ((storage s)[block_idx :=
                         if val then block OR flag else block AND NOT flag]))
         else None)"

definition bitset_clear :: "fixed_bit_set \<Rightarrow> fixed_bit_set" where
  "bitset_clear s = FixedBitSet (map (\<lambda>_. 0) (storage s))"

definition bitset_reset_for :: "fixed_bit_set \<Rightarrow> nat \<Rightarrow> fixed_bit_set option" where
  "bitset_reset_for s n =
     (let nblocks = blocks_for_bits n
      in if nblocks = blocks s then Some (bitset_clear s) else new_for_blocks nblocks)"

definition bitset_bits :: "fixed_bit_set \<Rightarrow> nat" where
  "bitset_bits s = blocks s * BITS"

subsection \<open>The iterator\<close>

record iter_set =
  inner :: "u64 list"
  curr :: u64
  block_idx :: u16

text \<open>The \<^verbatim>\<open>loop\<close> of \<^verbatim>\<open>IterSet::next\<close>, on the three fields of the
  iterator; the yielded index is computed in \<^verbatim>\<open>u32\<close>.\<close>

fun iter_set_loop :: "u64 list \<Rightarrow> u64 \<Rightarrow> u16 \<Rightarrow> (nat \<times> iter_set) option" where
  "iter_set_loop inn cur bidx =
     (let tz = trailing_zeros cur
      in if tz < BITS
         then Some (unat (ucast bidx * of_nat BITS + of_nat tz :: u32),
                    \<lparr>inner = inn, curr = cur AND (cur - 1), block_idx = bidx\<rparr>)
         else (case inn of [] \<Rightarrow> None | c # inn' \<Rightarrow> iter_set_loop inn' c (bidx + 1)))"

declare iter_set_loop.simps [simp del]

definition iter_set_next :: "iter_set \<Rightarrow> (nat \<times> iter_set) option" where
  "iter_set_next it = iter_set_loop (inner it) (curr it) (block_idx it)"

definition bitset_iter_set :: "fixed_bit_set \<Rightarrow> iter_set" where
  "bitset_iter_set s =
     (case storage s of
        [] \<Rightarrow> \<lparr>inner = [], curr = 0, block_idx = 0\<rparr>
      | c # inn \<Rightarrow> \<lparr>inner = inn, curr = c, block_idx = 0\<rparr>)"

definition bitset_iter_set_from :: "fixed_bit_set \<Rightarrow> nat \<Rightarrow> iter_set option" where
  "bitset_iter_set_from s start_idx =
     (let (blk, pos_in_block) = idx_to_pos start_idx
      in if blk \<le> length (storage s)
         then let inn = drop blk (storage s);
                  cur = (case inn of [] \<Rightarrow> 0 | c # _ \<Rightarrow> c);
                  zero_preceding_mask = 0 - push_bit pos_in_block 1
              in Some \<lparr>inner = drop 1 inn, curr = cur AND zero_preceding_mask,
                       block_idx = of_nat blk\<rparr>
         else None)"

text \<open>What a \<^verbatim>\<open>for\<close> loop over the iterator sees.  Each call of
  \<^const>\<open>iter_set_next\<close> removes a set bit from the pending blocks, so the loop ends.\<close>

definition pending_bits :: "iter_set \<Rightarrow> nat" where
  "pending_bits it = count_ones (curr it) + sum_list (map count_ones (inner it))"

lemma iter_set_loop_nonzero:
  "cur \<noteq> 0 \<Longrightarrow> iter_set_loop inn cur bidx =
     Some (unat (ucast bidx * of_nat BITS + of_nat (trailing_zeros cur) :: u32),
           \<lparr>inner = inn, curr = cur AND (cur - 1), block_idx = bidx\<rparr>)"
  using trailing_zeros_props(3) [of cur]
  by (simp add: iter_set_loop.simps BITS_def Let_def)

lemma iter_set_loop_zero:
  "iter_set_loop inn 0 bidx =
     (case inn of [] \<Rightarrow> None | c # inn' \<Rightarrow> iter_set_loop inn' c (bidx + 1))"
  by (simp add: iter_set_loop.simps [of inn 0 bidx] BITS_def)

lemma iter_set_loop_pending:
  "iter_set_loop inn cur bidx = Some (i, it) \<Longrightarrow>
     pending_bits it < count_ones cur + sum_list (map count_ones inn)"
proof (induction inn arbitrary: cur bidx)
  case Nil
  then show ?case
    by (cases "cur = 0")
      (auto simp: iter_set_loop_zero iter_set_loop_nonzero pending_bits_def count_ones_step)
next
  case (Cons c inn)
  then show ?case
    by (cases "cur = 0")
      (auto simp: iter_set_loop_zero iter_set_loop_nonzero pending_bits_def count_ones_step)
qed

lemma iter_set_next_pending:
  "iter_set_next it = Some (i, it') \<Longrightarrow> pending_bits it' < pending_bits it"
  by (simp add: iter_set_next_def pending_bits_def [of it] iter_set_loop_pending)

function iter_set_collect :: "iter_set \<Rightarrow> nat list" where
  "iter_set_collect it =
     (case iter_set_next it of None \<Rightarrow> [] | Some (i, it') \<Rightarrow> i # iter_set_collect it')"
  by pat_completeness auto
termination
  by (relation "measure pending_bits") (auto dest: iter_set_next_pending)

declare iter_set_collect.simps [simp del]

subsection \<open>Reading and writing bits\<close>

lemma bitset_get_eq:
  "bitset_get s i =
     (if i < bitset_bits s then Some (bit (storage s ! (i div BITS)) (i mod BITS)) else None)"
  by (auto simp: bitset_get_def idx_to_pos_def bitset_bits_def blocks_def BITS_def
      and_exp_eq_0_iff_not_bit less_mult_imp_div_less)

definition bitset_members :: "fixed_bit_set \<Rightarrow> nat set" where
  "bitset_members s = {i. bitset_get s i = Some True}"

lemma bitset_set_storage:
  assumes "i < bitset_bits s"
  shows "\<exists>s'. bitset_set s i v = Some s' \<and> bitset_bits s' = bitset_bits s \<and>
    (\<forall>j. bitset_get s' j = (if j = i then Some v else bitset_get s j))"
proof -
  have b: "i div 64 < length (storage s)"
    using assms by (simp add: bitset_bits_def blocks_def BITS_def less_mult_imp_div_less)
  define s' where "s' = the (bitset_set s i v)"
  have s': "bitset_set s i v = Some s'" "blocks s' = blocks s"
    using b by (auto simp: s'_def bitset_set_def idx_to_pos_def blocks_def BITS_def Let_def)
  have "bitset_get s' j = (if j = i then Some v else bitset_get s j)" for j
  proof (cases "j div 64 = i div 64")
    case True
    have "j = i \<longleftrightarrow> j mod 64 = i mod 64" using True by (metis div_mult_mod_eq)
    with True b s' show ?thesis
      by (auto simp: bitset_get_eq bitset_bits_def blocks_def BITS_def bitset_set_def idx_to_pos_def
          Let_def bit_simps split: if_splits)
  next
    case False
    with b s' show ?thesis
      by (auto simp: bitset_get_eq bitset_bits_def blocks_def BITS_def bitset_set_def idx_to_pos_def
          Let_def)
  qed
  with s' show ?thesis by (auto simp: bitset_bits_def)
qed

subsection \<open>The interface of a bit array\<close>

text \<open>What the page header and the delete table rely on: a partial read, a partial write and a
  capacity.  The counting facts are what keep their cached row counts right.\<close>

locale bit_array =
  fixes get :: "'s \<Rightarrow> nat \<Rightarrow> bool option"
    and put :: "'s \<Rightarrow> nat \<Rightarrow> bool \<Rightarrow> 's option"
    and capacity :: "'s \<Rightarrow> nat"
    and members :: "'s \<Rightarrow> nat set"
  assumes get_None_iff: "get s i = None \<longleftrightarrow> capacity s \<le> i"
    and put_None_iff: "put s i v = None \<longleftrightarrow> capacity s \<le> i"
    and put_capacity: "put s i v = Some s' \<Longrightarrow> capacity s' = capacity s"
    and put_get: "put s i v = Some s' \<Longrightarrow> get s' j = (if j = i then Some v else get s j)"
    and members_def: "members s = {i. get s i = Some True}"
begin

lemma members_subset: "members s \<subseteq> {..<capacity s}"
proof
  fix i assume "i \<in> members s"
  then show "i \<in> {..<capacity s}" using get_None_iff [of s i] by (auto simp: members_def)
qed

lemma finite_members [simp]: "finite (members s)"
  using members_subset by (rule finite_subset) simp

lemma get_eq_members: "i < capacity s \<Longrightarrow> get s i = Some (i \<in> members s)"
  using get_None_iff [of s i] by (cases "get s i") (auto simp: members_def)

lemma members_put:
  "put s i v = Some s' \<Longrightarrow> members s' = (if v then insert i (members s) else members s - {i})"
  using put_get [of s i v s'] by (auto simp: members_def)

lemma card_members_put_True:
  "put s i True = Some s' \<Longrightarrow> i \<notin> members s \<Longrightarrow> card (members s') = Suc (card (members s))"
  by (drule members_put) simp

lemma card_members_put_False:
  "put s i False = Some s' \<Longrightarrow> i \<in> members s \<Longrightarrow> Suc (card (members s')) = card (members s)"
  by (drule members_put) (simp add: card_Suc_Diff1 del: card_Diff_insert)

lemma put_same: "put s i v = Some s' \<Longrightarrow> get s i = Some v \<Longrightarrow> members s' = members s"
  using put_get [of s i v s'] by (auto simp: members_def)

end

interpretation fbs: bit_array bitset_get bitset_set bitset_bits bitset_members
proof unfold_locales
  show "bitset_get s i = None \<longleftrightarrow> bitset_bits s \<le> i" for s i
    by (auto simp: bitset_get_eq)
  show none: "bitset_set s i v = None \<longleftrightarrow> bitset_bits s \<le> i" for s i v
  proof (cases "i < bitset_bits s")
    case True
    then show ?thesis using bitset_set_storage [of i s v] by auto
  next
    case False
    then have "\<not> i div BITS < blocks s"
      by (simp add: bitset_bits_def BITS_def blocks_def)
    then show ?thesis using False
      by (simp add: bitset_set_def idx_to_pos_def blocks_def)
  qed
  show "bitset_set s i v = Some s' \<Longrightarrow> bitset_bits s' = bitset_bits s" for s i v s'
    using bitset_set_storage [of i s v] none [of s i v] by (cases "i < bitset_bits s") auto
  show "bitset_set s i v = Some s' \<Longrightarrow> bitset_get s' j = (if j = i then Some v else bitset_get s j)"
    for s i v s' j
    using bitset_set_storage [of i s v] none [of s i v] by (cases "i < bitset_bits s") auto
qed (simp add: bitset_members_def)

lemma bitset_clear_members [simp]: "bitset_members (bitset_clear s) = {}"
  by (auto simp: bitset_members_def bitset_get_eq bitset_clear_def bitset_bits_def blocks_def BITS_def
      less_mult_imp_div_less)

lemma blocks_clear [simp]: "blocks (bitset_clear s) = blocks s"
  by (simp add: bitset_clear_def blocks_def)

lemma bitset_bits_clear [simp]: "bitset_bits (bitset_clear s) = bitset_bits s"
  by (simp add: bitset_bits_def)

lemma new_for_blocks_Some:
  "new_for_blocks n = Some s \<Longrightarrow> bitset_members s = {} \<and> bitset_bits s = n * BITS \<and> blocks s = n"
  by (auto simp: new_for_blocks_def from_boxed_slice_def bitset_members_def bitset_get_eq
      bitset_bits_def blocks_def BITS_def less_mult_imp_div_less split: if_splits)

lemma bitset_reset_for_Some:
  "bitset_reset_for s n = Some s' \<Longrightarrow>
     bitset_members s' = {} \<and> bitset_bits s' = blocks_for_bits n * BITS"
  by (auto simp: bitset_reset_for_def Let_def bitset_bits_def dest: new_for_blocks_Some
      split: if_splits)

subsection \<open>The iterator yields the members in ascending order\<close>

fun block_indices :: "nat \<Rightarrow> u64 list \<Rightarrow> nat list" where
  "block_indices b [] = []"
| "block_indices b (w # ws) = map ((+) (64 * b)) (set_bits_of w) @ block_indices (Suc b) ws"

lemma block_indices_ge: "i \<in> set (block_indices b ws) \<Longrightarrow> 64 * b \<le> i"
  by (induction ws arbitrary: b) force+

lemma set_block_indices:
  "set (block_indices b ws) = (+) (64 * b) ` {i. i < 64 * length ws \<and> bit (ws ! (i div 64)) (i mod 64)}"
proof (induction ws arbitrary: b)
  case (Cons w ws)
  let ?P = "\<lambda>us i. i < 64 * length us \<and> bit (us ! (i div 64)) (i mod 64)"
  have "?P (w # ws) i \<longleftrightarrow> bit w i \<or> i \<in> (+) 64 ` {j. ?P ws j}" for i
  proof (cases "i < 64")
    case False
    then obtain j where "i = 64 + j" by (metis le_add_diff_inverse linorder_not_less)
    moreover have "(64 + j) div 64 = Suc (j div 64)" by simp
    ultimately show ?thesis by (auto dest: bit_imp_le_length)
  qed auto
  then have "{i. ?P (w # ws) i} = {i. bit w i} \<union> (+) 64 ` {j. ?P ws j}" by blast
  then have "(+) (64 * b) ` {i. ?P (w # ws) i}
      = (+) (64 * b) ` {i. bit w i} \<union> (+) (64 * Suc b) ` {j. ?P ws j}"
    by (simp only: image_Un image_image) (simp add: add.assoc add.commute add.left_commute)
  with Cons.IH [of "Suc b"] show ?case by simp
qed simp

lemma sorted_block_indices: "sorted_wrt (<) (block_indices b ws)"
proof (induction ws arbitrary: b)
  case (Cons w ws)
  have "x < y" if "x \<in> (+) (64 * b) ` {i. bit w i}" "y \<in> set (block_indices (Suc b) ws)" for x y
    using that block_indices_ge [of y "Suc b" ws] by (force dest: bit_imp_le_length)
  with Cons.IH show ?case
    by (auto simp: sorted_wrt_append sorted_wrt_map sorted_set_bits_of)
qed simp

lemma iter_set_index_no_wrap:
  "tz < 64 \<Longrightarrow> unat (ucast (bidx :: u16) * 64 + of_nat tz :: u32) = 64 * unat bidx + tz"
proof -
  assume tz: "tz < 64"
  have b: "unat bidx < 65536" using unsigned_less [of bidx] by simp
  have u: "unat (ucast bidx :: u32) = unat bidx" using b by (simp add: unsigned_ucast_eq take_bit_nat_eq_self)
  have m: "unat (ucast bidx * 64 :: u32) = 64 * unat bidx"
    using b u by (simp add: unat_word_ariths)
  show ?thesis
    using b tz m by (simp add: unat_word_ariths(1) unat_of_nat)
qed

lemma iter_set_collect_nonzero:
  "cur \<noteq> 0 \<Longrightarrow> iter_set_collect \<lparr>inner = inn, curr = cur, block_idx = bidx\<rparr>
     = (64 * unat bidx + trailing_zeros cur)
       # iter_set_collect \<lparr>inner = inn, curr = cur AND (cur - 1), block_idx = bidx\<rparr>"
  using trailing_zeros_props(3) [of cur]
  by (subst iter_set_collect.simps)
    (simp add: iter_set_next_def iter_set_loop_nonzero BITS_def iter_set_index_no_wrap)

lemma iter_set_collect_zero:
  "iter_set_collect \<lparr>inner = inn, curr = 0, block_idx = bidx\<rparr>
     = (case inn of [] \<Rightarrow> []
        | c # inn' \<Rightarrow> iter_set_collect \<lparr>inner = inn', curr = c, block_idx = bidx + 1\<rparr>)"
proof (cases inn)
  case (Cons c inn')
  have "iter_set_next \<lparr>inner = c # inn', curr = 0, block_idx = bidx\<rparr>
      = iter_set_next \<lparr>inner = inn', curr = c, block_idx = bidx + 1\<rparr>"
    by (simp add: iter_set_next_def iter_set_loop_zero)
  then show ?thesis
    by (simp add: Cons iter_set_collect.simps [of "\<lparr>inner = c # inn', curr = 0, block_idx = bidx\<rparr>"]
        iter_set_collect.simps [of "\<lparr>inner = inn', curr = c, block_idx = bidx + 1\<rparr>"])
qed (simp add: iter_set_collect.simps [of "\<lparr>inner = [], curr = 0, block_idx = bidx\<rparr>"]
    iter_set_next_def iter_set_loop_zero)

lemma iter_set_collect_block:
  "iter_set_collect \<lparr>inner = inn, curr = cur, block_idx = bidx\<rparr>
     = map ((+) (64 * unat bidx)) (set_bits_of cur)
       @ iter_set_collect \<lparr>inner = inn, curr = 0, block_idx = bidx\<rparr>"
proof (induction "count_ones cur" arbitrary: cur rule: less_induct)
  case less
  show ?case
  proof (cases "cur = 0")
    case False
    with less [of "cur AND (cur - 1)"] show ?thesis
      by (simp add: iter_set_collect_nonzero set_bits_of_step [OF False] count_ones_step)
  qed (simp add: set_bits_of_Nil_iff [THEN iffD2])
qed

lemma iter_set_collect_block_indices:
  "unat bidx + length inn < 65536 \<Longrightarrow>
     iter_set_collect \<lparr>inner = inn, curr = cur, block_idx = bidx\<rparr>
     = block_indices (unat bidx) (cur # inn)"
proof (induction inn arbitrary: cur bidx)
  case Nil
  show ?case by (simp add: iter_set_collect_block [where cur = cur] iter_set_collect_zero)
next
  case (Cons c inn)
  have "unat (bidx + 1) = Suc (unat bidx)"
    using Cons.prems by (simp add: unat_plus_simple unat_word_ariths)
  with Cons.IH [of "bidx + 1" c] Cons.prems show ?case
    by (simp add: iter_set_collect_block [where cur = cur] iter_set_collect_zero)
qed

text \<open>Every set built by \<^const>\<open>from_boxed_slice\<close> has at most \<^const>\<open>LEN_MAX\<close>
  blocks, which is what keeps the \<^verbatim>\<open>u16\<close> block counter from wrapping.\<close>

definition bitset_wf :: "fixed_bit_set \<Rightarrow> bool" where
  "bitset_wf s \<longleftrightarrow> blocks s \<le> LEN_MAX"

lemma sorted_filter_upt: "sorted_wrt (<) (filter P [a..<b])" for a :: nat
  by (simp add: sorted_wrt_filter)

lemma bitset_members_bit:
  "bitset_members s = {i. i < 64 * length (storage s) \<and> bit (storage s ! (i div 64)) (i mod 64)}"
  by (auto simp: bitset_members_def bitset_get_eq bitset_bits_def blocks_def BITS_def)

lemma iter_set_collect_members:
  assumes "bitset_wf s"
  shows "iter_set_collect (bitset_iter_set s) = filter (\<lambda>i. i \<in> bitset_members s) [0..<bitset_bits s]"
proof -
  have "iter_set_collect (bitset_iter_set s) = block_indices 0 (storage s)"
  proof (cases "storage s")
    case (Cons c inn)
    then show ?thesis
      using assms iter_set_collect_block_indices [of 0 inn c]
      by (simp add: bitset_iter_set_def bitset_wf_def blocks_def LEN_MAX_def)
  qed (simp add: bitset_iter_set_def iter_set_collect_zero)
  also have "\<dots> = filter (\<lambda>i. i \<in> bitset_members s) [0..<bitset_bits s]"
    by (rule sorted_less_unique [OF sorted_block_indices sorted_filter_upt])
      (auto simp: set_block_indices bitset_members_bit bitset_bits_def blocks_def BITS_def)
  finally show ?thesis .
qed

lemma bit_zero_preceding_mask:
  "bit (0 - push_bit p 1 :: 'a::len word) i \<longleftrightarrow> p \<le> i \<and> i < LENGTH('a)"
proof -
  have "(0 - push_bit p 1 :: 'a word) = NOT (mask p)"
    by (simp add: mask_eq_exp_minus_1 minus_exp_eq_not_mask)
  then show ?thesis by (auto simp: bit_simps)
qed

lemma set_block_indices_drop:
  "set (block_indices (a + b) (drop b ws)) = {i \<in> set (block_indices a ws). 64 * (a + b) \<le> i}"
proof (induction b arbitrary: a ws)
  case 0
  then show ?case by (auto dest: block_indices_ge)
next
  case (Suc b)
  show ?case
  proof (cases ws)
    case (Cons w ws')
    have "\<not> 64 * (a + Suc b) \<le> 64 * a + i" if "bit w i" for i
      using bit_imp_le_length [OF that] by simp
    with Suc.IH [of "Suc a" ws'] Cons show ?thesis by auto
  qed simp
qed

lemma set_block_indices_mask:
  assumes "p < 64"
  shows "set (block_indices b ((c AND (0 - push_bit p 1)) # ws))
    = {i \<in> set (block_indices b (c # ws)). 64 * b + p \<le> i}"
proof -
  have "64 * b + p \<le> i" if "i \<in> set (block_indices (Suc b) ws)" for i
    using block_indices_ge [OF that] assms by simp
  moreover have "bit (c AND (0 - push_bit p 1)) i \<longleftrightarrow> bit c i \<and> p \<le> i" for i
    unfolding bit_and_iff bit_zero_preceding_mask by (auto dest: bit_imp_le_length)
  ultimately show ?thesis by auto
qed

lemma iter_set_from_collect_members:
  assumes "bitset_wf s" and "start \<le> bitset_bits s"
  shows "map_option iter_set_collect (bitset_iter_set_from s start)
    = Some (filter (\<lambda>i. start \<le> i \<and> i \<in> bitset_members s) [0..<bitset_bits s])"
proof -
  define b p where "b = start div 64" and "p = start mod 64"
  then have start: "start = 64 * b + p" "p < 64" by simp_all
  then have b: "b \<le> length (storage s)" "idx_to_pos start = (b, p)"
    using assms(2) by (auto simp: bitset_bits_def blocks_def BITS_def idx_to_pos_def)
  define ws where "ws = drop b (storage s)"
  define m :: u64 where "m = 0 - push_bit p 1"
  let ?masked = "case ws of [] \<Rightarrow> [] | c # inn \<Rightarrow> (c AND m) # inn"
  have b16: "unat (of_nat b :: u16) = b"
    using assms(1) b(1) by (simp add: unat_of_nat bitset_wf_def blocks_def LEN_MAX_def)
  have "map_option iter_set_collect (bitset_iter_set_from s start) = Some (block_indices b ?masked)"
  proof (cases ws)
    case (Cons c inn)
    have "b + length inn < 65536"
      using assms(1) b(1) arg_cong [OF Cons, of length]
      by (simp add: ws_def bitset_wf_def blocks_def LEN_MAX_def)
    moreover have "bitset_iter_set_from s start
        = Some \<lparr>inner = inn, curr = c AND m, block_idx = of_nat b\<rparr>"
      using b Cons by (simp add: bitset_iter_set_from_def ws_def m_def)
    ultimately show ?thesis
      using iter_set_collect_block_indices [of "of_nat b" inn "c AND m"] b16 Cons
      by (simp del: block_indices.simps)
  qed (use b in \<open>simp add: bitset_iter_set_from_def ws_def iter_set_collect_zero\<close>)
  also have "block_indices b ?masked
      = filter (\<lambda>i. start \<le> i \<and> i \<in> bitset_members s) [0..<bitset_bits s]"
  proof (rule sorted_less_unique [OF sorted_block_indices sorted_filter_upt])
    have "set (block_indices b ?masked) = {i \<in> set (block_indices b ws). start \<le> i}"
    proof (cases ws)
      case (Cons c inn)
      then show ?thesis
        using set_block_indices_mask [OF start(2), of b c inn, folded m_def start(1)]
        by (simp only: list.case)
    qed simp
    also have "\<dots> = {i \<in> set (block_indices 0 (storage s)). start \<le> i}"
    proof -
      have "64 * b \<le> i" if "start \<le> i" for i using that start(1) by linarith
      then show ?thesis
        unfolding ws_def set_block_indices_drop [of 0 b "storage s", unfolded add_0] by blast
    qed
    also have "\<dots> = set (filter (\<lambda>i. start \<le> i \<and> i \<in> bitset_members s) [0..<bitset_bits s])"
      by (auto simp: set_block_indices bitset_members_bit bitset_bits_def blocks_def BITS_def)
    finally show "set (block_indices b ?masked) = \<dots>" .
  qed
  finally show ?thesis .
qed

subsection \<open>Properties\<close>

fun bitset_set_all :: "fixed_bit_set \<Rightarrow> (nat \<times> bool) list \<Rightarrow> fixed_bit_set option" where
  "bitset_set_all s [] = Some s"
| "bitset_set_all s ((i, v) # ws) =
     (case bitset_set s i v of None \<Rightarrow> None | Some s' \<Rightarrow> bitset_set_all s' ws)"

lemma bitset_wf_set: "bitset_set s i v = Some s' \<Longrightarrow> bitset_wf s' = bitset_wf s"
  by (drule fbs.put_capacity) (simp add: bitset_bits_def BITS_def bitset_wf_def)

lemma bitset_set_all_members:
  "bitset_set_all s ws = Some s' \<Longrightarrow> bitset_wf s' = bitset_wf s \<and> bitset_bits s' = bitset_bits s \<and>
     bitset_members s' = {i. if i \<in> fst ` set ws then map_of (rev ws) i = Some True
                             else i \<in> bitset_members s}"
proof (induction ws arbitrary: s)
  case (Cons w ws)
  obtain i v where w: "w = (i, v)" by force
  with Cons.prems obtain t where t: "bitset_set s i v = Some t" "bitset_set_all t ws = Some s'"
    by (auto split: option.splits)
  note IH = Cons.IH [OF t(2)]
  have "x \<in> fst ` set ws \<longleftrightarrow> map_of (rev ws) x \<noteq> None" for x
    by (metis domIff dom_map_of_conv_image_fst set_rev)
  moreover have "map_of (rev (w # ws)) x
      = (case map_of (rev ws) x of None \<Rightarrow> if x = i then Some v else None | Some b \<Rightarrow> Some b)" for x
    by (simp add: w map_add_def split: option.splits)
  ultimately have "bitset_members s' = {x. if x \<in> fst ` set (w # ws)
      then map_of (rev (w # ws)) x = Some True else x \<in> bitset_members s}"
    using IH fbs.members_put [OF t(1)] w by (auto split: option.splits if_splits)
  with IH bitset_wf_set [OF t(1)] fbs.put_capacity [OF t(1)] show ?case by simp
qed simp

lemma bitset_new_wf: "bitset_new n = Some s \<Longrightarrow> bitset_wf s \<and> bitset_members s = {} \<and> n \<le> bitset_bits s"
  using new_for_blocks_Some [of "blocks_for_bits n" s] div_ceil_mult_ge [of BITS n]
  by (auto simp: bitset_new_def bitset_wf_def new_for_blocks_def from_boxed_slice_def BITS_def
      blocks_for_bits_def split: if_splits)

text \<open>Claim C37.  A bit set made by \<^const>\<open>bitset_new\<close> and written with any sequence of in-range
  writes is iterated from any start index within its capacity, in ascending order and without
  repetition, over exactly the indices at or after the start whose last write was
  \<^const>\<open>True\<close>; the iterator ends.\<close>

theorem iter_set_from_last_writes:
  assumes "bitset_new n = Some s0" and "bitset_set_all s0 ws = Some s" and "start \<le> bitset_bits s"
  shows "map_option iter_set_collect (bitset_iter_set_from s start)
    = Some (filter (\<lambda>i. start \<le> i \<and> map_of (rev ws) i = Some True) [0..<bitset_bits s])"
proof -
  note new = bitset_new_wf [OF assms(1)] and all = bitset_set_all_members [OF assms(2)]
  have "map_of (rev ws) i = Some True \<Longrightarrow> i \<in> fst ` set ws" for i
    by (metis domI dom_map_of_conv_image_fst set_rev)
  with new all have "i \<in> bitset_members s \<longleftrightarrow> map_of (rev ws) i = Some True" for i by auto
  with iter_set_from_collect_members [of s start] new all assms(3) show ?thesis by simp
qed

theorem iter_set_from_last_writes_witness:
  "map_option iter_set_collect (bitset_iter_set_from (FixedBitSet [0x8, 0x1]) 2)
    = Some (filter (\<lambda>i. 2 \<le> i \<and> map_of (rev [(3, True), (0, True), (64, True), (0, False)]) i
        = Some True) [0..<128])"
proof -
  have "bitset_new 70 = Some (FixedBitSet [0, 0])"
    by (simp add: bitset_new_def new_for_blocks_def from_boxed_slice_def blocks_for_bits_def
        div_ceil_def BITS_def LEN_MAX_def numeral_2_eq_2)
  moreover have "bitset_set_all (FixedBitSet [0, 0]) [(3, True), (0, True), (64, True), (0, False)]
      = Some (FixedBitSet [0x8, 0x1])"
    by (simp add: bitset_set_def idx_to_pos_def BITS_def Let_def)
  ultimately show ?thesis
    using iter_set_from_last_writes [of 70 "FixedBitSet [0, 0]"
        "[(3, True), (0, True), (64, True), (0, False)]" "FixedBitSet [0x8, 0x1]" 2]
    by (simp add: bitset_bits_def blocks_def BITS_def)
qed

end
