(* ===== verification/Row_Pointer.thy ===== *)
theory Row_Pointer
  imports Stdb_Prelude
begin

text \<open>
  \<^verbatim>\<open>crates/table/src/indexes.rs\<close>: sizes and offsets within a page, and the packed
  64-bit row pointer.  \<^verbatim>\<open>Size\<close>, \<^verbatim>\<open>PageOffset\<close>, \<^verbatim>\<open>PageIndex\<close>
  and \<^verbatim>\<open>SquashedOffset\<close> are newtypes of unsigned integers and are named as such; the
  row pointer is a type of its own with the order of its bits.
\<close>

unbundle bit_operations_syntax

subsection \<open>Sizes and offsets in a page\<close>

definition PAGE_SIZE :: nat where
  "PAGE_SIZE = 65535 + 1"

definition PAGE_HEADER_SIZE :: nat where
  "PAGE_HEADER_SIZE = 64"

definition PAGE_DATA_SIZE :: nat where
  "PAGE_DATA_SIZE = PAGE_SIZE - PAGE_HEADER_SIZE"

type_synonym size_u16 = u16
type_synonym page_offset = u16
type_synonym page_index = u64
type_synonym squashed_offset = u8
type_synonym row_hash = u64

definition size_mul :: "size_u16 \<Rightarrow> nat \<Rightarrow> size_u16" where
  "size_mul s rhs = of_nat (unat s * rhs)"

definition VAR_LEN_NULL :: page_offset where
  "VAR_LEN_NULL = 0"

definition is_var_len_null :: "page_offset \<Rightarrow> bool" where
  "is_var_len_null off \<longleftrightarrow> off = VAR_LEN_NULL"

definition PAGE_END :: page_offset where
  "PAGE_END = of_nat PAGE_DATA_SIZE"

definition is_at_end :: "page_offset \<Rightarrow> bool" where
  "is_at_end off \<longleftrightarrow> off = PAGE_END"

definition offset_range :: "page_offset \<Rightarrow> size_u16 \<Rightarrow> nat list" where
  "offset_range off s = [unat off ..< unat off + unat s]"

text \<open>Dividing by a zero size panics.\<close>

definition offset_div :: "page_offset \<Rightarrow> size_u16 \<Rightarrow> nat option" where
  "offset_div off s = (if s = 0 then None else Some (unat off div unat s))"

definition max_rows_in_page :: "size_u16 \<Rightarrow> nat option" where
  "max_rows_in_page s = (if s = 0 then None else Some (div_ceil (unat PAGE_END) (unat s)))"

definition TX_STATE :: squashed_offset where
  "TX_STATE = 0"

definition COMMITTED_STATE :: squashed_offset where
  "COMMITTED_STATE = 1"

definition is_tx_state :: "squashed_offset \<Rightarrow> bool" where
  "is_tx_state s \<longleftrightarrow> s = TX_STATE"

definition is_committed_state :: "squashed_offset \<Rightarrow> bool" where
  "is_committed_state s \<longleftrightarrow> s = COMMITTED_STATE"

lemma unat_PAGE_END [simp]: "unat PAGE_END = 65472"
  by (simp add: PAGE_END_def PAGE_DATA_SIZE_def PAGE_SIZE_def PAGE_HEADER_SIZE_def)

subsection \<open>Row pointers\<close>

datatype row_pointer = RowPointer (ptr_bits: u64)

instantiation row_pointer :: linorder
begin

definition less_eq_row_pointer :: "row_pointer \<Rightarrow> row_pointer \<Rightarrow> bool" where
  "less_eq_row_pointer p q \<longleftrightarrow> ptr_bits p \<le> ptr_bits q"

definition less_row_pointer :: "row_pointer \<Rightarrow> row_pointer \<Rightarrow> bool" where
  "less_row_pointer p q \<longleftrightarrow> ptr_bits p < ptr_bits q"

instance
  by standard (auto simp: less_eq_row_pointer_def less_row_pointer_def row_pointer.expand)

end

definition OFFSET_RB :: nat where "OFFSET_RB = 0"
definition BITS_RB :: nat where "BITS_RB = 1"
definition OFFSET_PI :: nat where "OFFSET_PI = OFFSET_RB + BITS_RB"
definition BITS_PI :: nat where "BITS_PI = 39"
definition OFFSET_PO :: nat where "OFFSET_PO = OFFSET_PI + BITS_PI"
definition BITS_PO :: nat where "BITS_PO = 16"
definition OFFSET_SQ :: nat where "OFFSET_SQ = OFFSET_PO + BITS_PO"
definition BITS_SQ :: nat where "BITS_SQ = 8"

definition MASK_RB :: u64 where "MASK_RB = push_bit BITS_RB 1 - 1"
definition MASK_PI :: u64 where "MASK_PI = push_bit BITS_PI 1 - 1"
definition MASK_PO :: u64 where "MASK_PO = push_bit BITS_PO 1 - 1"
definition MASK_SQ :: u64 where "MASK_SQ = push_bit BITS_SQ 1 - 1"

definition MASK_ZERO_RB :: u64 where "MASK_ZERO_RB = NOT (push_bit OFFSET_RB MASK_RB)"
definition MASK_ZERO_PI :: u64 where "MASK_ZERO_PI = NOT (push_bit OFFSET_PI MASK_PI)"
definition MASK_ZERO_PO :: u64 where "MASK_ZERO_PO = NOT (push_bit OFFSET_PO MASK_PO)"
definition MASK_ZERO_SQ :: u64 where "MASK_ZERO_SQ = NOT (push_bit OFFSET_SQ MASK_SQ)"

lemmas ptr_layout =
  OFFSET_RB_def BITS_RB_def OFFSET_PI_def BITS_PI_def OFFSET_PO_def BITS_PO_def OFFSET_SQ_def
  BITS_SQ_def

definition ptr_with :: "row_pointer \<Rightarrow> u64 \<Rightarrow> u64 \<Rightarrow> nat \<Rightarrow> u64 \<Rightarrow> row_pointer" where
  "ptr_with p v msk offset zero =
     (let vmoved = push_bit offset (v AND msk)
      in RowPointer ((ptr_bits p AND zero) OR vmoved))"

definition reserved_bit :: "row_pointer \<Rightarrow> bool" where
  "reserved_bit p \<longleftrightarrow> drop_bit OFFSET_RB (ptr_bits p) AND MASK_RB \<noteq> 0"

definition ptr_page_index :: "row_pointer \<Rightarrow> page_index" where
  "ptr_page_index p = drop_bit OFFSET_PI (ptr_bits p) AND MASK_PI"

definition ptr_page_offset :: "row_pointer \<Rightarrow> page_offset" where
  "ptr_page_offset p = ucast (drop_bit OFFSET_PO (ptr_bits p) AND MASK_PO)"

definition ptr_squashed_offset :: "row_pointer \<Rightarrow> squashed_offset" where
  "ptr_squashed_offset p = ucast (drop_bit OFFSET_SQ (ptr_bits p) AND MASK_SQ)"

definition with_reserved_bit :: "row_pointer \<Rightarrow> bool \<Rightarrow> row_pointer" where
  "with_reserved_bit p b = ptr_with p (of_bool b) MASK_RB OFFSET_RB MASK_ZERO_RB"

definition with_page_index :: "row_pointer \<Rightarrow> page_index \<Rightarrow> row_pointer" where
  "with_page_index p pi = ptr_with p pi MASK_PI OFFSET_PI MASK_ZERO_PI"

definition with_page_offset :: "row_pointer \<Rightarrow> page_offset \<Rightarrow> row_pointer" where
  "with_page_offset p po = ptr_with p (ucast po) MASK_PO OFFSET_PO MASK_ZERO_PO"

definition with_squashed_offset :: "row_pointer \<Rightarrow> squashed_offset \<Rightarrow> row_pointer" where
  "with_squashed_offset p sq = ptr_with p (ucast sq) MASK_SQ OFFSET_SQ MASK_ZERO_SQ"

definition row_pointer_new :: "bool \<Rightarrow> page_index \<Rightarrow> page_offset \<Rightarrow> squashed_offset \<Rightarrow> row_pointer" where
  "row_pointer_new b pi po sq =
     with_page_offset (with_page_index (with_squashed_offset (with_reserved_bit (RowPointer 0) b) sq) pi) po"

subsection \<open>The four fields are independent and determine the pointer\<close>

lemma MASK_mask:
  "MASK_RB = mask BITS_RB" "MASK_PI = mask BITS_PI" "MASK_PO = mask BITS_PO" "MASK_SQ = mask BITS_SQ"
  by (simp_all add: MASK_RB_def MASK_PI_def MASK_PO_def MASK_SQ_def mask_eq_exp_minus_1)

lemma ptr_with_field_put:
  "ptr_bits (with_reserved_bit p b) = field_put OFFSET_RB BITS_RB (ptr_bits p) (of_bool b)"
  "ptr_bits (with_page_index p pi) = field_put OFFSET_PI BITS_PI (ptr_bits p) pi"
  "ptr_bits (with_page_offset p po) = field_put OFFSET_PO BITS_PO (ptr_bits p) (ucast po)"
  "ptr_bits (with_squashed_offset p sq) = field_put OFFSET_SQ BITS_SQ (ptr_bits p) (ucast sq)"
  by (simp_all only: with_reserved_bit_def with_page_index_def with_page_offset_def
      with_squashed_offset_def ptr_with_def Let_def MASK_mask MASK_ZERO_RB_def MASK_ZERO_PI_def
      MASK_ZERO_PO_def MASK_ZERO_SQ_def field_put_def row_pointer.sel)

lemma ptr_field_get:
  "reserved_bit p \<longleftrightarrow> field_get OFFSET_RB BITS_RB (ptr_bits p) \<noteq> 0"
  "ptr_page_index p = field_get OFFSET_PI BITS_PI (ptr_bits p)"
  "ptr_page_offset p = ucast (field_get OFFSET_PO BITS_PO (ptr_bits p))"
  "ptr_squashed_offset p = ucast (field_get OFFSET_SQ BITS_SQ (ptr_bits p))"
  by (simp_all only: reserved_bit_def ptr_page_index_def ptr_page_offset_def ptr_squashed_offset_def
      MASK_mask field_get_def)

lemma ptr_field_trunc:
  "(of_bool b :: u64) AND mask BITS_RB = of_bool b"
  "(ucast (ucast (po :: u16) AND mask BITS_PO :: u64) :: u16) = po"
  "(ucast (ucast (sq :: u8) AND mask BITS_SQ :: u64) :: u8) = sq"
  by (auto intro!: bit_word_eqI simp: BITS_RB_def BITS_PO_def BITS_SQ_def bit_simps)

lemma reserved_bit_with [simp]:
  "reserved_bit (with_reserved_bit p b) = b"
  "reserved_bit (with_page_index p pi) = reserved_bit p"
  "reserved_bit (with_page_offset p po) = reserved_bit p"
  "reserved_bit (with_squashed_offset p sq) = reserved_bit p"
  by (simp_all only: ptr_field_get ptr_with_field_put)
    (simp_all add: slot_simps ptr_layout ptr_field_trunc [unfolded ptr_layout])

lemma page_index_with [simp]:
  "ptr_page_index (with_reserved_bit p b) = ptr_page_index p"
  "ptr_page_index (with_page_index p pi) = pi AND MASK_PI"
  "ptr_page_index (with_page_offset p po) = ptr_page_index p"
  "ptr_page_index (with_squashed_offset p sq) = ptr_page_index p"
  by (simp_all only: ptr_field_get ptr_with_field_put MASK_mask)
    (simp_all add: slot_simps ptr_layout)

lemma page_offset_with [simp]:
  "ptr_page_offset (with_reserved_bit p b) = ptr_page_offset p"
  "ptr_page_offset (with_page_index p pi) = ptr_page_offset p"
  "ptr_page_offset (with_page_offset p po) = po"
  "ptr_page_offset (with_squashed_offset p sq) = ptr_page_offset p"
  by (simp_all only: ptr_field_get ptr_with_field_put)
    (simp_all add: slot_simps ptr_layout ptr_field_trunc [unfolded ptr_layout])

lemma squashed_offset_with [simp]:
  "ptr_squashed_offset (with_reserved_bit p b) = ptr_squashed_offset p"
  "ptr_squashed_offset (with_page_index p pi) = ptr_squashed_offset p"
  "ptr_squashed_offset (with_page_offset p po) = ptr_squashed_offset p"
  "ptr_squashed_offset (with_squashed_offset p sq) = sq"
  by (simp_all only: ptr_field_get ptr_with_field_put)
    (simp_all add: slot_simps ptr_layout ptr_field_trunc [unfolded ptr_layout])

lemma ptr_field_bits:
  "bit (of_bool (reserved_bit p) :: u64) i \<longleftrightarrow> i = 0 \<and> bit (ptr_bits p) 0"
  "bit (ptr_page_index p) i \<longleftrightarrow> i < 39 \<and> bit (ptr_bits p) (1 + i)"
  "bit (ucast (ptr_page_offset p) :: u64) i \<longleftrightarrow> i < 16 \<and> bit (ptr_bits p) (40 + i)"
  "bit (ucast (ptr_squashed_offset p) :: u64) i \<longleftrightarrow> i < 8 \<and> bit (ptr_bits p) (56 + i)"
proof -
  have "field_get 0 1 (ptr_bits p) \<noteq> 0 \<longleftrightarrow> bit (ptr_bits p) 0"
  proof
    assume nz: "field_get 0 1 (ptr_bits p) \<noteq> 0"
    show "bit (ptr_bits p) 0"
    proof (rule ccontr)
      assume "\<not> bit (ptr_bits p) 0"
      then have "field_get 0 1 (ptr_bits p) = 0"
        by (intro bit_word_eqI) (simp only: bit_field_get bit_0_eq bot_apply, auto)
      with nz show False ..
    qed
  next
    assume "bit (ptr_bits p) 0"
    then have "bit (field_get 0 1 (ptr_bits p)) 0" by (simp add: bit_field_get)
    then show "field_get 0 1 (ptr_bits p) \<noteq> 0" by auto
  qed
  then show "bit (of_bool (reserved_bit p) :: u64) i \<longleftrightarrow> i = 0 \<and> bit (ptr_bits p) 0"
    by (simp add: ptr_field_get ptr_layout bit_simps)
qed (auto simp: ptr_field_get ptr_layout bit_field_get bit_simps dest: bit_imp_le_length)

lemma row_pointer_new_fields [simp]:
  "reserved_bit (row_pointer_new b pi po sq) = b"
  "ptr_page_index (row_pointer_new b pi po sq) = pi AND MASK_PI"
  "ptr_page_offset (row_pointer_new b pi po sq) = po"
  "ptr_squashed_offset (row_pointer_new b pi po sq) = sq"
  by (simp_all add: row_pointer_new_def)

lemma row_pointer_new_collapse:
  "row_pointer_new (reserved_bit p) (ptr_page_index p) (ptr_page_offset p) (ptr_squashed_offset p) = p"
proof (rule row_pointer.expand, rule bit_word_eqI)
  fix i assume "i < LENGTH(64)"
  then consider "i < 1" | "1 \<le> i" "i < 40" | "40 \<le> i" "i < 56" | "56 \<le> i" "i < 64"
    by fastforce
  then show "bit (ptr_bits (row_pointer_new (reserved_bit p) (ptr_page_index p) (ptr_page_offset p)
      (ptr_squashed_offset p))) i = bit (ptr_bits p) i"
    by cases (auto simp: row_pointer_new_def ptr_with_field_put bit_field_put ptr_layout
        ptr_field_bits)
qed

lemma row_pointer_eqI:
  assumes "reserved_bit p = reserved_bit q" and "ptr_page_index p = ptr_page_index q"
    and "ptr_page_offset p = ptr_page_offset q" and "ptr_squashed_offset p = ptr_squashed_offset q"
  shows "p = q"
proof -
  have "row_pointer_new (reserved_bit p) (ptr_page_index p) (ptr_page_offset p) (ptr_squashed_offset p)
      = row_pointer_new (reserved_bit q) (ptr_page_index q) (ptr_page_offset q) (ptr_squashed_offset q)"
    by (simp only: assms)
  then show ?thesis by (simp only: row_pointer_new_collapse)
qed

lemma MASK_PI_trunc: "unat pi < 2 ^ 39 \<Longrightarrow> pi AND MASK_PI = pi"
  by (simp only: MASK_mask BITS_PI_def and_mask_eq_self)

lemma page_index_less: "unat (ptr_page_index p) < 2 ^ 39"
proof -
  have "ptr_page_index p = take_bit 39 (drop_bit 1 (ptr_bits p))"
    by (simp only: ptr_field_get field_get_def ptr_layout take_bit_eq_mask add_0)
  then show ?thesis by (simp only: unsigned_take_bit_eq take_bit_nat_less_exp)
qed

text \<open>Claim C34.  Packing and unpacking a row pointer are inverse to each other: the four accessors
  recover what \<^const>\<open>row_pointer_new\<close> was given whenever the page index fits its 39 bits,
  and every 64-bit pattern is the pointer built from its own four fields.  In particular two
  different (flag, page, offset, state) tuples never share a pointer.\<close>

theorem row_pointer_pack_unpack:
  "unat pi < 2 ^ 39 \<Longrightarrow>
     (let p = row_pointer_new b pi po sq
      in (reserved_bit p, ptr_page_index p, ptr_page_offset p, ptr_squashed_offset p) = (b, pi, po, sq))
     \<and> row_pointer_new (reserved_bit q) (ptr_page_index q) (ptr_page_offset q) (ptr_squashed_offset q) = q"
  by (simp add: Let_def MASK_PI_trunc row_pointer_new_collapse)

theorem row_pointer_pack_unpack_witness:
  "(let p = row_pointer_new True 7 0x1234 1
      in (reserved_bit p, ptr_page_index p, ptr_page_offset p, ptr_squashed_offset p)
         = (True, 7, 0x1234, 1))
     \<and> row_pointer_new (reserved_bit (RowPointer 0xFEDCBA9876543210))
          (ptr_page_index (RowPointer 0xFEDCBA9876543210))
          (ptr_page_offset (RowPointer 0xFEDCBA9876543210))
          (ptr_squashed_offset (RowPointer 0xFEDCBA9876543210)) = RowPointer 0xFEDCBA9876543210"
  by (rule row_pointer_pack_unpack) simp

end
