(* ===== verification/Index_Interface.thy ===== *)
theory Index_Interface
  imports Stdb_Prelude
begin

text \<open>
  The contract every index structure of the table crate offers its callers: it holds a finite set
  of (key, row pointer) entries, grows by an admissible insertion, shrinks by a deletion, and
  knows its size.  The pointer map, the ordered multi-map and unique map and the direct indices
  each interpret the locale; the facts about whole runs of operations are proved here once.
\<close>

datatype ('k, 'p) index_op = Ins 'k 'p | Del 'k 'p

text \<open>A run of operations on an implementation, and what it means for the set of entries.  An
  operation is admissible when it inserts a new admitted entry, removes a present entry, or removes
  under a key that has no entry.\<close>

fun run_index ::
  "('s \<Rightarrow> 'k \<Rightarrow> 'p \<Rightarrow> 's option) \<Rightarrow> ('s \<Rightarrow> 'k \<Rightarrow> 'p \<Rightarrow> (bool \<times> 's) option) \<Rightarrow>
   's \<Rightarrow> ('k, 'p) index_op list \<Rightarrow> 's option" where
  "run_index ins del s [] = Some s"
| "run_index ins del s (Ins k p # ops) =
     (case ins s k p of None \<Rightarrow> None | Some s' \<Rightarrow> run_index ins del s' ops)"
| "run_index ins del s (Del k p # ops) =
     (case del s k p of None \<Rightarrow> None | Some (_, s') \<Rightarrow> run_index ins del s' ops)"

fun run_entries :: "('k \<times> 'p) set \<Rightarrow> ('k, 'p) index_op list \<Rightarrow> ('k \<times> 'p) set" where
  "run_entries E [] = E"
| "run_entries E (Ins k p # ops) = run_entries (insert (k, p) E) ops"
| "run_entries E (Del k p # ops) = run_entries (E - {(k, p)}) ops"

fun run_admissible ::
  "(('k \<times> 'p) set \<Rightarrow> 'k \<Rightarrow> 'p \<Rightarrow> bool) \<Rightarrow> ('k \<times> 'p) set \<Rightarrow> ('k, 'p) index_op list \<Rightarrow> bool" where
  "run_admissible adm E [] \<longleftrightarrow> True"
| "run_admissible adm E (Ins k p # ops) \<longleftrightarrow>
     (k, p) \<notin> E \<and> adm E k p \<and> run_admissible adm (insert (k, p) E) ops"
| "run_admissible adm E (Del k p # ops) \<longleftrightarrow>
     ((k, p) \<in> E \<or> k \<notin> fst ` E) \<and> run_admissible adm (E - {(k, p)}) ops"

locale ptr_index =
  fixes inv :: "'s \<Rightarrow> bool"
    and entries :: "'s \<Rightarrow> ('k \<times> 'p) set"
    and admits :: "('k \<times> 'p) set \<Rightarrow> 'k \<Rightarrow> 'p \<Rightarrow> bool"
    and ins :: "'s \<Rightarrow> 'k \<Rightarrow> 'p \<Rightarrow> 's option"
    and del :: "'s \<Rightarrow> 'k \<Rightarrow> 'p \<Rightarrow> (bool \<times> 's) option"
    and count :: "'s \<Rightarrow> nat"
  assumes ins_law: "inv s \<Longrightarrow> admits (entries s) k p \<Longrightarrow> (k, p) \<notin> entries s \<Longrightarrow>
      \<exists>s'. ins s k p = Some s' \<and> inv s' \<and> entries s' = insert (k, p) (entries s)"
    and del_law: "inv s \<Longrightarrow> (k, p) \<in> entries s \<Longrightarrow>
      \<exists>s'. del s k p = Some (True, s') \<and> inv s' \<and> entries s' = entries s - {(k, p)}"
    and del_absent_law: "inv s \<Longrightarrow> k \<notin> fst ` entries s \<Longrightarrow>
      \<exists>s'. del s k p = Some (False, s') \<and> inv s' \<and> entries s' = entries s"
    and count_law: "inv s \<Longrightarrow> finite (entries s) \<and> count s = card (entries s)"
begin

lemma run_refines:
  "inv s \<Longrightarrow> run_admissible admits (entries s) ops \<Longrightarrow>
     \<exists>s'. run_index ins del s ops = Some s' \<and> inv s' \<and> entries s' = run_entries (entries s) ops \<and>
          count s' = card (run_entries (entries s) ops)"
proof (induction ops arbitrary: s)
  case Nil
  then show ?case using count_law [of s] by simp
next
  case (Cons op ops)
  show ?case
  proof (cases op)
    case (Ins k p)
    then obtain s' where "ins s k p = Some s'" "inv s'" "entries s' = insert (k, p) (entries s)"
      using Cons.prems ins_law [of s k p] by auto
    with Cons.IH [of s'] Cons.prems Ins show ?thesis by auto
  next
    case (Del k p)
    then obtain b s' where "del s k p = Some (b, s')" "inv s'" "entries s' = entries s - {(k, p)}"
    proof (cases "(k, p) \<in> entries s")
      case False
      then have "k \<notin> fst ` entries s" using Cons.prems Del by simp
      from del_absent_law [OF Cons.prems(1) this, of p] False that show ?thesis by auto
    qed (use del_law [OF Cons.prems(1), of k p] that in auto)
    with Cons.IH [of s'] Cons.prems Del show ?thesis by auto
  qed
qed

lemma ins_then_del:
  assumes "inv s" and "admits (entries s) k p" and "(k, p) \<notin> entries s"
  shows "\<exists>s' s''. ins s k p = Some s' \<and> del s' k p = Some (True, s'') \<and> inv s'' \<and>
    entries s'' = entries s \<and> count s'' = count s"
proof -
  obtain s' where s': "ins s k p = Some s'" "inv s'" "entries s' = insert (k, p) (entries s)"
    using ins_law assms by blast
  obtain s'' where s'': "del s' k p = Some (True, s'')" "inv s''" "entries s'' = entries s' - {(k, p)}"
    using del_law [OF s'(2), of k p] s'(3) by auto
  then have "entries s'' = entries s" using s'(3) assms(3) by auto
  with s' s'' count_law [OF s''(2)] count_law [OF assms(1)] show ?thesis by auto
qed

end

end
