(* ===== verification/Pointer_Map.thy ===== *)
theory Pointer_Map
  imports Row_Pointer Index_Interface "HOL-Library.Mapping"
begin

text \<open>
  \<^verbatim>\<open>crates/table/src/pointer_map.rs\<close>: the association of row hashes with the pointers
  of the rows that have the hash.  One pointer is stored inline in the hash map; a collision moves
  the pointers to a collider slot whose index is packed, under the reserved bit, into a row
  pointer.  \<^verbatim>\<open>IntMap\<close> is a \<open>mapping\<close>, \<^verbatim>\<open>Vec\<close> a list whose end is pushed
  and popped.
\<close>

unbundle bit_operations_syntax

subsection \<open>Slots\<close>

type_synonym collider_slot_index = u32

definition collider_slot_index_new :: "nat \<Rightarrow> collider_slot_index" where
  "collider_slot_index_new idx = of_nat idx"

datatype ptr_or_collider = PtrOrCollider row_pointer

datatype map_slot = Pointer row_pointer | Collider collider_slot_index

definition ensure_ptr :: "row_pointer \<Rightarrow> row_pointer" where
  "ensure_ptr rp = with_reserved_bit rp False"

definition poc_ptr :: "row_pointer \<Rightarrow> ptr_or_collider" where
  "poc_ptr rp = PtrOrCollider (ensure_ptr rp)"

definition poc_collider :: "collider_slot_index \<Rightarrow> ptr_or_collider" where
  "poc_collider c = PtrOrCollider (row_pointer_new True (ucast c) VAR_LEN_NULL COMMITTED_STATE)"

fun is_ptr :: "ptr_or_collider \<Rightarrow> bool" where
  "is_ptr (PtrOrCollider p) \<longleftrightarrow> \<not> reserved_bit p"

fun as_collider :: "ptr_or_collider \<Rightarrow> collider_slot_index" where
  "as_collider (PtrOrCollider p) = ucast (ptr_page_index p)"

fun poc_unpack :: "ptr_or_collider \<Rightarrow> map_slot" where
  "poc_unpack (PtrOrCollider p) =
     (if is_ptr (PtrOrCollider p) then Pointer p else Collider (as_collider (PtrOrCollider p)))"

subsection \<open>The map\<close>

record pointer_map =
  pm_map :: "(row_hash, ptr_or_collider) mapping"
  colliders :: "row_pointer list list"
  emptied_collider_slots :: "collider_slot_index list"

definition pointer_map_default :: pointer_map where
  "pointer_map_default = \<lparr>pm_map = Mapping.empty, colliders = [], emptied_collider_slots = []\<rparr>"

definition num_collisions :: "pointer_map \<Rightarrow> nat" where
  "num_collisions pm = sum_list (map length (colliders pm))"

definition num_non_collisions :: "pointer_map \<Rightarrow> nat" where
  "num_non_collisions pm =
     Mapping.size (pm_map pm) - (length (colliders pm) - length (emptied_collider_slots pm))"

definition pm_len :: "pointer_map \<Rightarrow> nat" where
  "pm_len pm = num_collisions pm + num_non_collisions pm"

definition pm_is_empty :: "pointer_map \<Rightarrow> bool" where
  "pm_is_empty pm \<longleftrightarrow> Mapping.is_empty (pm_map pm)"

definition pointers_for :: "pointer_map \<Rightarrow> row_hash \<Rightarrow> row_pointer list option" where
  "pointers_for pm hash =
     (case Mapping.lookup (pm_map pm) hash of
        None \<Rightarrow> Some []
      | Some poc \<Rightarrow>
         (case poc_unpack poc of
            Pointer ro \<Rightarrow> Some [ro]
          | Collider ci \<Rightarrow>
              if unat ci < length (colliders pm) then Some (colliders pm ! unat ci) else None))"

text \<open>The mutable slice of \<^verbatim>\<open>pointers_for_mut\<close> is what the caller's in-place update \<open>g\<close>
  of each element is applied to.\<close>

definition pointers_for_mut ::
  "pointer_map \<Rightarrow> row_hash \<Rightarrow> (row_pointer \<Rightarrow> row_pointer) \<Rightarrow> pointer_map option" where
  "pointers_for_mut pm hash g =
     (case Mapping.lookup (pm_map pm) hash of
        None \<Rightarrow> Some pm
      | Some poc \<Rightarrow>
         (case poc_unpack poc of
            Pointer ro \<Rightarrow> Some (pm\<lparr>pm_map := Mapping.update hash (PtrOrCollider (g ro)) (pm_map pm)\<rparr>)
          | Collider ci \<Rightarrow>
              if unat ci < length (colliders pm)
              then Some (pm\<lparr>colliders := (colliders pm)[unat ci := map g (colliders pm ! unat ci)]\<rparr>)
              else None))"

text \<open>The arms of \<^verbatim>\<open>insert\<close>: the first collision of a hash takes the last emptied slot or
  pushes a new one.\<close>

definition alloc_collider_slot ::
  "pointer_map \<Rightarrow> row_pointer list \<Rightarrow> (collider_slot_index \<times> pointer_map) option" where
  "alloc_collider_slot pm ptrs =
     (case rev (emptied_collider_slots pm) of
        [] \<Rightarrow> Some (collider_slot_index_new (length (colliders pm)),
                  pm\<lparr>colliders := colliders pm @ [ptrs]\<rparr>)
      | ci # rest \<Rightarrow>
          if unat ci < length (colliders pm)
          then Some (ci, pm\<lparr>emptied_collider_slots := rev rest,
                            colliders := (colliders pm)[unat ci := colliders pm ! unat ci @ ptrs]\<rparr>)
          else None)"

definition pm_insert :: "pointer_map \<Rightarrow> row_hash \<Rightarrow> row_pointer \<Rightarrow> (bool \<times> pointer_map) option" where
  "pm_insert pm hash ptr =
     (case Mapping.lookup (pm_map pm) hash of
        None \<Rightarrow> Some (False, pm\<lparr>pm_map := Mapping.update hash (poc_ptr ptr) (pm_map pm)\<rparr>)
      | Some v \<Rightarrow>
         (case poc_unpack v of
            Pointer existing \<Rightarrow>
              if existing = ptr then Some (True, pm)
              else (case alloc_collider_slot pm (map ensure_ptr [existing, ptr]) of
                      None \<Rightarrow> None
                    | Some (ci, pm') \<Rightarrow>
                        Some (False, pm'\<lparr>pm_map := Mapping.update hash (poc_collider ci) (pm_map pm')\<rparr>))
          | Collider ci \<Rightarrow>
              let ptr' = ensure_ptr ptr
              in if unat ci < length (colliders pm)
                 then if ptr' \<in> set (colliders pm ! unat ci) then Some (True, pm)
                      else Some (False, pm\<lparr>colliders :=
                             (colliders pm)[unat ci := colliders pm ! unat ci @ [ptr']]\<rparr>)
                 else None))"

text \<open>In \<^verbatim>\<open>remove\<close> a slot that becomes empty is undefined behaviour of the source
  (\<^verbatim>\<open>unreachable_unchecked\<close>): \<^const>\<open>None\<close>, like the panics.\<close>

definition pm_remove :: "pointer_map \<Rightarrow> row_hash \<Rightarrow> row_pointer \<Rightarrow> (bool \<times> pointer_map) option" where
  "pm_remove pm hash ptr =
     (case Mapping.lookup (pm_map pm) hash of
        None \<Rightarrow> Some (False, pm)
      | Some v \<Rightarrow>
         (case poc_unpack v of
            Pointer p \<Rightarrow>
              if p = ptr then Some (True, pm\<lparr>pm_map := Mapping.delete hash (pm_map pm)\<rparr>)
              else Some (False, pm)
          | Collider ci \<Rightarrow>
              if unat ci < length (colliders pm)
              then (case list_position (\<lambda>p. p = ptr) (colliders pm ! unat ci) of
                      None \<Rightarrow> Some (False, pm)
                    | Some idx \<Rightarrow>
                        let slot = swap_remove (colliders pm ! unat ci) idx
                        in (case slot of
                              [] \<Rightarrow> None
                            | [p] \<Rightarrow>
                                Some (True, pm\<lparr>pm_map := Mapping.update hash (poc_ptr p) (pm_map pm),
                                                colliders := (colliders pm)[unat ci := []],
                                                emptied_collider_slots := emptied_collider_slots pm @ [ci]\<rparr>)
                            | _ \<Rightarrow> Some (True, pm\<lparr>colliders := (colliders pm)[unat ci := slot]\<rparr>)))
              else None))"

fun pm_from_iter_loop :: "pointer_map \<Rightarrow> (row_hash \<times> row_pointer) list \<Rightarrow> pointer_map option" where
  "pm_from_iter_loop pm [] = Some pm"
| "pm_from_iter_loop pm ((h, p) # hps) =
     (case pm_insert pm h p of None \<Rightarrow> None | Some (_, pm') \<Rightarrow> pm_from_iter_loop pm' hps)"

definition pm_from_iter :: "(row_hash \<times> row_pointer) list \<Rightarrow> pointer_map option" where
  "pm_from_iter hps = pm_from_iter_loop pointer_map_default hps"

subsection \<open>The collider invariant\<close>

text \<open>The invariant and the entries are stated on three views of the map: the unpacked slot of each
  hash, the collider lists and the emptied slots.\<close>

definition slots_of :: "(row_hash, ptr_or_collider) mapping \<Rightarrow> row_hash \<Rightarrow> map_slot option" where
  "slots_of m h = map_option poc_unpack (Mapping.lookup m h)"

abbreviation pm_slots :: "pointer_map \<Rightarrow> row_hash \<Rightarrow> map_slot option" where
  "pm_slots pm \<equiv> slots_of (pm_map pm)"

definition collider_list_ok :: "row_pointer list \<Rightarrow> bool" where
  "collider_list_ok cs \<longleftrightarrow> distinct cs \<and> (\<forall>p\<in>set cs. \<not> reserved_bit p)"

definition colliders_wf ::
  "(row_hash \<Rightarrow> map_slot option) \<Rightarrow> row_pointer list list \<Rightarrow> collider_slot_index list \<Rightarrow> bool" where
  "colliders_wf S C E \<longleftrightarrow>
     (\<forall>h ci. S h = Some (Collider ci) \<longrightarrow> unat ci < length C \<and> 2 \<le> length (C ! unat ci)) \<and>
     list_all collider_list_ok C \<and>
     (\<forall>h p. S h = Some (Pointer p) \<longrightarrow> \<not> reserved_bit p) \<and>
     (\<forall>h h' ci. S h = Some (Collider ci) \<longrightarrow> S h' = Some (Collider ci) \<longrightarrow> h = h') \<and>
     distinct E \<and> (\<forall>ci\<in>set E. unat ci < length C \<and> C ! unat ci = []) \<and>
     (\<forall>i<length C. of_nat i \<in> set E \<or> (\<exists>h. S h = Some (Collider (of_nat i))))"

definition pm_wf :: "pointer_map \<Rightarrow> bool" where
  "pm_wf pm \<longleftrightarrow> finite (Mapping.keys (pm_map pm)) \<and> length (colliders pm) \<le> 2 ^ 32 \<and>
     colliders_wf (pm_slots pm) (colliders pm) (emptied_collider_slots pm)"

definition slot_entries ::
  "(row_hash \<Rightarrow> map_slot option) \<Rightarrow> row_pointer list list \<Rightarrow> (row_hash \<times> row_pointer) set" where
  "slot_entries S C = {(h, p). S h = Some (Pointer p) \<or>
     (\<exists>ci. S h = Some (Collider ci) \<and> p \<in> set (C ! unat ci))}"

definition pm_entries :: "pointer_map \<Rightarrow> (row_hash \<times> row_pointer) set" where
  "pm_entries pm = {(h, p). \<exists>ps. pointers_for pm h = Some ps \<and> p \<in> set ps}"

lemma poc_unpack_ptr [simp]: "poc_unpack (poc_ptr p) = Pointer (ensure_ptr p)"
  by (simp add: poc_ptr_def ensure_ptr_def)

lemma poc_unpack_collider [simp]: "poc_unpack (poc_collider ci) = Collider ci"
proof -
  have "unat (ucast ci :: u64) < 2 ^ 39"
    using unsigned_less [of ci, where 'a = nat] by (simp add: unsigned_ucast_eq take_bit_nat_eq_self)
  then have "(ucast (ucast ci AND MASK_PI :: u64) :: u32) = ci"
    by (simp add: MASK_PI_trunc) (rule bit_word_eqI, auto simp: bit_simps)
  then show ?thesis by (simp add: poc_collider_def)
qed

lemma ensure_ptr_id [simp]: "\<not> reserved_bit p \<Longrightarrow> ensure_ptr p = p"
  by (rule row_pointer_eqI) (simp_all add: ensure_ptr_def)

lemma reserved_bit_ensure_ptr [simp]: "\<not> reserved_bit (ensure_ptr p)"
  by (simp add: ensure_ptr_def)

lemma pm_slots_Pointer: "pm_slots pm h = Some (Pointer p) \<Longrightarrow> \<not> reserved_bit p"
  by (auto simp: slots_of_def elim!: poc_unpack.elims split: if_splits)

lemma finite_keys_update_iff [simp]:
  "finite (Mapping.keys (Mapping.update k v m)) = finite (Mapping.keys m)"
  "finite (Mapping.keys (Mapping.delete k m)) = finite (Mapping.keys m)"
  by (auto simp: keys_update)

lemma slots_of_update [simp]:
  "slots_of (Mapping.update h v m) = (slots_of m)(h \<mapsto> poc_unpack v)"
  "slots_of (Mapping.delete h m) = (slots_of m)(h := None)"
  by (auto simp: slots_of_def lookup_update' fun_eq_iff)

lemma dom_pm_slots: "dom (pm_slots pm) = Mapping.keys (pm_map pm)"
  by (auto simp: slots_of_def keys_dom_lookup)

lemma pm_entries_slots:
  assumes "pm_wf pm"
  shows "pm_entries pm = slot_entries (pm_slots pm) (colliders pm)"
proof -
  have "pm_slots pm h = Some (Collider ci) \<Longrightarrow> unat ci < length (colliders pm)" for h ci
    using assms by (auto simp: pm_wf_def colliders_wf_def)
  then show ?thesis
    by (fastforce simp: pm_entries_def slot_entries_def pointers_for_def slots_of_def
        split: option.splits map_slot.splits if_splits)
qed

lemma colliders_wf_slot:
  assumes wf: "colliders_wf S C E" and S: "S h = Some (Collider ci)"
  shows "unat ci < length C" "2 \<le> length (C ! unat ci)" "collider_list_ok (C ! unat ci)"
    "ci \<notin> set E" "\<And>h'. S h' = Some (Collider ci) \<Longrightarrow> h' = h"
proof -
  show ci: "unat ci < length C" "2 \<le> length (C ! unat ci)" "\<And>h'. S h' = Some (Collider ci) \<Longrightarrow> h' = h"
    using wf S by (auto simp: colliders_wf_def)
  then show "collider_list_ok (C ! unat ci)" using wf by (simp add: colliders_wf_def list_all_length)
  show "ci \<notin> set E" using wf ci(2) by (auto simp: colliders_wf_def)
qed

lemma colliders_wf_used:
  "colliders_wf S C E \<Longrightarrow> i < length C \<Longrightarrow> of_nat i \<in> set E \<or> (\<exists>h. S h = Some (Collider (of_nat i)))"
  by (simp add: colliders_wf_def)

lemma pointers_for_Some: "pm_wf pm \<Longrightarrow> \<exists>ps. pointers_for pm h = Some ps \<and> distinct ps"
  using colliders_wf_slot [of "pm_slots pm" "colliders pm" "emptied_collider_slots pm" h]
  by (fastforce simp: pm_wf_def pointers_for_def slots_of_def collider_list_ok_def
      split: option.splits map_slot.splits)

subsection \<open>Counting entries\<close>

definition collider_hashes :: "(row_hash \<Rightarrow> map_slot option) \<Rightarrow> row_hash set" where
  "collider_hashes S = {h. \<exists>ci. S h = Some (Collider ci)}"

definition pointer_hashes :: "(row_hash \<Rightarrow> map_slot option) \<Rightarrow> row_hash set" where
  "pointer_hashes S = {h. \<exists>p. S h = Some (Pointer p)}"

definition collider_idx :: "(row_hash \<Rightarrow> map_slot option) \<Rightarrow> row_hash \<Rightarrow> nat" where
  "collider_idx S h = (case S h of Some (Collider ci) \<Rightarrow> unat ci | _ \<Rightarrow> 0)"

lemma collider_idx_eq [simp]: "S h = Some (Collider ci) \<Longrightarrow> collider_idx S h = unat ci"
  by (simp add: collider_idx_def)

lemma dom_slots_split:
  "dom S = collider_hashes S \<union> pointer_hashes S" "collider_hashes S \<inter> pointer_hashes S = {}"
  by (auto simp: collider_hashes_def pointer_hashes_def) (metis map_slot.exhaust)

lemma collider_idx_bij:
  assumes wf: "colliders_wf S C E" and len: "length C \<le> 2 ^ 32"
  shows "bij_betw (collider_idx S) (collider_hashes S) ({..<length C} - unat ` set E)"
proof (rule bij_betw_imageI)
  show "inj_on (collider_idx S) (collider_hashes S)"
  proof (rule inj_onI)
    fix h h' assume "h \<in> collider_hashes S" "h' \<in> collider_hashes S"
      and eq: "collider_idx S h = collider_idx S h'"
    then obtain ci ci' where s: "S h = Some (Collider ci)" "S h' = Some (Collider ci')"
      by (auto simp: collider_hashes_def)
    with eq have "ci = ci'" by simp
    with s wf show "h = h'" by (simp add: colliders_wf_def)
  qed
  show "collider_idx S ` collider_hashes S = {..<length C} - unat ` set E"
  proof (intro equalityI subsetI)
    fix i assume "i \<in> collider_idx S ` collider_hashes S"
    then obtain h ci where "S h = Some (Collider ci)" "i = unat ci"
      by (auto simp: collider_hashes_def)
    with wf show "i \<in> {..<length C} - unat ` set E" by (fastforce simp: colliders_wf_def)
  next
    fix i assume i: "i \<in> {..<length C} - unat ` set E"
    then have un: "unat (of_nat i :: u32) = i" using len by (simp add: unat_of_nat)
    with i have "of_nat i \<notin> set E" by (metis DiffD2 imageI)
    then obtain h where "S h = Some (Collider (of_nat i))"
      using wf i by (auto simp: colliders_wf_def)
    then show "i \<in> collider_idx S ` collider_hashes S"
      using un by (auto simp: collider_hashes_def intro!: image_eqI [of _ _ h])
  qed
qed

lemma card_collider_hashes:
  assumes "colliders_wf S C E" and "length C \<le> 2 ^ 32"
  shows "card (collider_hashes S) = length C - length E"
proof -
  have "card (unat ` set E) = length E" "unat ` set E \<subseteq> {..<length C}"
    using assms(1) by (auto simp: colliders_wf_def card_image inj_on_def distinct_card)
  then show ?thesis
    using bij_betw_same_card [OF collider_idx_bij [OF assms]] by (simp add: card_Diff_subset)
qed

lemma sum_collider_lengths:
  assumes wf: "colliders_wf S C E" and len: "length C \<le> 2 ^ 32"
  shows "sum_list (map length C) = (\<Sum>h\<in>collider_hashes S. length (C ! collider_idx S h))"
proof -
  let ?L = "{..<length C} - unat ` set E"
  have "sum_list (map length C) = (\<Sum>i<length C. length (C ! i))"
    by (simp add: sum_list_sum_nth atLeast0LessThan)
  also have "\<dots> = (\<Sum>i\<in>?L. length (C ! i))"
    by (rule sum.mono_neutral_right) (use wf in \<open>auto simp: colliders_wf_def\<close>)
  finally show ?thesis
    using sum.reindex_bij_betw [OF collider_idx_bij [OF assms], of "\<lambda>i. length (C ! i)"] by simp
qed

lemma slot_entries_split:
  "slot_entries S C = {(h, p). S h = Some (Pointer p)}
     \<union> (SIGMA h:collider_hashes S. set (C ! collider_idx S h))"
  by (auto simp: slot_entries_def collider_hashes_def)

lemma card_pointer_entries:
  "finite (dom S) \<Longrightarrow> finite {(h, p). S h = Some (Pointer p)} \<and>
     card {(h, p). S h = Some (Pointer p)} = card (pointer_hashes S)"
proof -
  have "bij_betw fst {(h, p). S h = Some (Pointer p)} (pointer_hashes S)"
    by (auto simp: bij_betw_def inj_on_def pointer_hashes_def image_iff)
  moreover assume "finite (dom S)"
  then have "finite (pointer_hashes S)" using dom_slots_split(1) [of S] by simp
  ultimately show ?thesis using bij_betw_finite bij_betw_same_card by blast
qed

lemma slot_entries_card:
  assumes wf: "colliders_wf S C E" and fin: "finite (dom S)" and len: "length C \<le> 2 ^ 32"
  shows "finite (slot_entries S C)"
    and "card (slot_entries S C) = sum_list (map length C) + (card (dom S) - (length C - length E))"
    and "E = [] \<Longrightarrow> 2 * length C \<le> card (slot_entries S C)"
proof -
  let ?B = "SIGMA h:collider_hashes S. set (C ! collider_idx S h)"
  note split = dom_slots_split [of S] and ptrs = card_pointer_entries [OF fin]
  have finK: "finite (collider_hashes S)" "finite (pointer_hashes S)" using fin split(1) by auto
  have "length (C ! collider_idx S h) = card (set (C ! collider_idx S h))" if "h \<in> collider_hashes S" for h
    using that colliders_wf_slot(3) [OF wf]
    by (auto simp: collider_hashes_def collider_list_ok_def distinct_card)
  then have B: "card ?B = sum_list (map length C)"
    using finK sum_collider_lengths [OF wf len] by simp
  have tot: "card (slot_entries S C) = card (pointer_hashes S) + sum_list (map length C)"
    unfolding slot_entries_split using ptrs finK B
    by (subst card_Un_disjoint) (auto simp: collider_hashes_def)
  show "finite (slot_entries S C)" unfolding slot_entries_split using ptrs finK by simp
  have "card (dom S) = (length C - length E) + card (pointer_hashes S)"
    using split finK card_collider_hashes [OF wf len] by (simp add: card_Un_disjoint)
  with tot show "card (slot_entries S C) = sum_list (map length C) + (card (dom S) - (length C - length E))"
    by simp
  show "2 * length C \<le> card (slot_entries S C)" if "E = []"
  proof -
    have "(\<Sum>h\<in>collider_hashes S. 2) \<le> (\<Sum>h\<in>collider_hashes S. length (C ! collider_idx S h))"
      using wf by (intro sum_mono) (auto simp: collider_hashes_def colliders_wf_def)
    then show ?thesis
      using tot that card_collider_hashes [OF wf len] sum_collider_lengths [OF wf len] by simp
  qed
qed

subsection \<open>The transitions of the three views\<close>

lemma nth_update_unat [simp]:
  "unat ci < length C \<Longrightarrow> C[unat ci := cs] ! unat cj = (if cj = ci then cs else C ! unat cj)"
  for ci cj :: "'a::len word"
  by (simp add: nth_list_update)

lemma collider_lists_update:
  "list_all collider_list_ok C \<Longrightarrow> collider_list_ok cs \<Longrightarrow> list_all collider_list_ok (C[i := cs])"
  using set_update_subset_insert [of C i cs] by (auto simp: list_all_iff)

lemma wf_new_pointer:
  assumes "colliders_wf S C E" and "S h = None" and "\<not> reserved_bit p"
  shows "colliders_wf (S(h \<mapsto> Pointer p)) C E"
    and "slot_entries (S(h \<mapsto> Pointer p)) C = insert (h, p) (slot_entries S C)"
proof -
  show "colliders_wf (S(h \<mapsto> Pointer p)) C E"
    using assms unfolding colliders_wf_def by (simp) (metis option.distinct(1))
  show "slot_entries (S(h \<mapsto> Pointer p)) C = insert (h, p) (slot_entries S C)"
    using assms by (auto simp: slot_entries_def split: if_splits)
qed

lemma wf_drop_pointer:
  assumes "colliders_wf S C E" and "S h = Some (Pointer p)"
  shows "colliders_wf (S(h := None)) C E"
    and "slot_entries (S(h := None)) C = slot_entries S C - {(h, p)}"
proof -
  show "colliders_wf (S(h := None)) C E"
    using assms unfolding colliders_wf_def by simp (metis map_slot.distinct(1) option.inject)
  show "slot_entries (S(h := None)) C = slot_entries S C - {(h, p)}"
    using assms by (auto simp: slot_entries_def split: if_splits)
qed

text \<open>Giving the hash of an inline pointer an unused slot that holds both pointers.\<close>

lemma wf_first_collision:
  assumes wf: "colliders_wf S C (E @ [ci])" and S: "S h = Some (Pointer e)"
    and p: "p \<noteq> e" "\<not> reserved_bit p"
  shows "colliders_wf (S(h \<mapsto> Collider ci)) (C[unat ci := [e, p]]) E"
    and "slot_entries (S(h \<mapsto> Collider ci)) (C[unat ci := [e, p]]) = insert (h, p) (slot_entries S C)"
proof -
  have ci: "unat ci < length C" "ci \<notin> set E" "C ! unat ci = []" "distinct E"
    using wf by (auto simp: colliders_wf_def)
  have free: "S h' \<noteq> Some (Collider ci)" for h'
    using colliders_wf_slot(2) [OF wf, of h' ci] ci(3) by auto
  have ok: "collider_list_ok [e, p]" using wf S p by (auto simp: colliders_wf_def collider_list_ok_def)
  have used: "of_nat i \<in> set E \<or> (\<exists>h'. (S(h \<mapsto> Collider ci)) h' = Some (Collider (of_nat i)))"
    if "i < length C" for i
  proof -
    have "of_nat i \<in> set E \<or> of_nat i = ci \<or> (\<exists>h. S h = Some (Collider (of_nat i)))"
      using wf that by (auto simp: colliders_wf_def)
    moreover have "h' \<noteq> h" if "S h' = Some (Collider (of_nat i))" for h' using S that by auto
    ultimately show ?thesis by (metis fun_upd_same fun_upd_other)
  qed
  show "colliders_wf (S(h \<mapsto> Collider ci)) (C[unat ci := [e, p]]) E"
    using wf S ci free used collider_lists_update [OF _ ok, of C "unat ci"]
    unfolding colliders_wf_def by simp blast
  show "slot_entries (S(h \<mapsto> Collider ci)) (C[unat ci := [e, p]]) = insert (h, p) (slot_entries S C)"
  proof -
    have "S h' = Some (Collider cj) \<Longrightarrow> cj \<noteq> ci" for h' cj using free by auto
    then show ?thesis using S ci by (fastforce simp: slot_entries_def split: if_splits)
  qed
qed

lemma wf_push_slot:
  assumes wf: "colliders_wf S C []" and len: "length C < 2 ^ 32"
  shows "colliders_wf S (C @ [[]]) [of_nat (length C)]"
    and "slot_entries S (C @ [[]]) = slot_entries S C"
proof -
  have un: "unat (of_nat (length C) :: u32) = length C"
    using len by (simp add: unat_of_nat)
  have lt: "S h = Some (Collider ci) \<Longrightarrow> unat ci < length C" for h ci
    using wf by (auto simp: colliders_wf_def)
  show "colliders_wf S (C @ [[]]) [of_nat (length C)]"
    using wf un by (auto simp: colliders_wf_def nth_append less_Suc_eq collider_list_ok_def)
  show "slot_entries S (C @ [[]]) = slot_entries S C"
    using lt by (fastforce simp: slot_entries_def nth_append)
qed

lemma wf_update_slot:
  assumes wf: "colliders_wf S C E" and S: "S h = Some (Collider ci)"
    and cs: "2 \<le> length cs" "collider_list_ok cs"
  shows "colliders_wf S (C[unat ci := cs]) E"
    and "slot_entries S (C[unat ci := cs])
      = {(h', p) \<in> slot_entries S C. h' \<noteq> h} \<union> Pair h ` set cs"
proof -
  note ci = colliders_wf_slot [OF wf S]
  show "colliders_wf S (C[unat ci := cs]) E"
    using wf cs ci collider_lists_update [OF _ cs(2), of C "unat ci"]
    unfolding colliders_wf_def by simp
  have "(h', p) \<in> slot_entries S (C[unat ci := cs])
      \<longleftrightarrow> (h', p) \<in> {(h', p) \<in> slot_entries S C. h' \<noteq> h} \<union> Pair h ` set cs" for h' p
  proof (cases "h' = h")
    case False
    then have "S h' = Some (Collider cj) \<Longrightarrow> cj \<noteq> ci" for cj using ci(5) by auto
    with False ci(1) show ?thesis by (auto simp: slot_entries_def)
  qed (use S ci(1) in \<open>auto simp: slot_entries_def\<close>)
  then show "slot_entries S (C[unat ci := cs])
      = {(h', p) \<in> slot_entries S C. h' \<noteq> h} \<union> Pair h ` set cs" by auto
qed

lemma wf_collapse_slot:
  assumes wf: "colliders_wf S C E" and S: "S h = Some (Collider ci)" and q: "\<not> reserved_bit q"
  shows "colliders_wf (S(h \<mapsto> Pointer q)) (C[unat ci := []]) (E @ [ci])"
    and "slot_entries (S(h \<mapsto> Pointer q)) (C[unat ci := []])
      = insert (h, q) {(h', p) \<in> slot_entries S C. h' \<noteq> h}"
proof -
  note ci = colliders_wf_slot [OF wf S]
  have other: "unat cj < length C" "cj \<noteq> ci" "2 \<le> length (C ! unat cj)"
    if "h' \<noteq> h" "S h' = Some (Collider cj)" for h' cj
    using that colliders_wf_slot(1,2) [OF wf that(2)] ci(5) by blast+
  have used: "of_nat i \<in> set (E @ [ci]) \<or> (\<exists>h'. (S(h \<mapsto> Pointer q)) h' = Some (Collider (of_nat i)))"
    if i: "i < length C" for i
  proof (cases "of_nat i \<in> set (E @ [ci])")
    case False
    then obtain g where g: "S g = Some (Collider (of_nat i))"
      using colliders_wf_used [OF wf i] by auto
    with S False have "g \<noteq> h" by auto
    with g show ?thesis by (metis fun_upd_other)
  qed simp
  let ?S = "S(h \<mapsto> Pointer q)" and ?C = "C[unat ci := []]"
  have "list_all collider_list_ok ?C"
    using wf by (intro collider_lists_update) (auto simp: colliders_wf_def collider_list_ok_def)
  moreover have "\<forall>g cj. ?S g = Some (Collider cj) \<longrightarrow> unat cj < length ?C \<and> 2 \<le> length (?C ! unat cj)"
  proof (intro allI impI)
    fix g cj assume "?S g = Some (Collider cj)"
    then have "g \<noteq> h" "S g = Some (Collider cj)" by (auto split: if_splits)
    from other [OF this] ci(1) show "unat cj < length ?C \<and> 2 \<le> length (?C ! unat cj)" by simp
  qed
  moreover have "\<forall>g p. ?S g = Some (Pointer p) \<longrightarrow> \<not> reserved_bit p"
    using wf q by (simp add: colliders_wf_def)
  moreover have "\<forall>g h' cj. ?S g = Some (Collider cj) \<longrightarrow> ?S h' = Some (Collider cj) \<longrightarrow> g = h'"
    using wf by (simp add: colliders_wf_def)
  moreover have "distinct (E @ [ci])" using wf ci(4) by (simp add: colliders_wf_def)
  moreover have "\<forall>cj\<in>set (E @ [ci]). unat cj < length ?C \<and> ?C ! unat cj = []"
    using wf ci(1) by (simp add: colliders_wf_def)
  moreover have "\<forall>i<length ?C. of_nat i \<in> set (E @ [ci]) \<or> (\<exists>h'. ?S h' = Some (Collider (of_nat i)))"
    using used by (simp only: length_list_update) blast
  ultimately show "colliders_wf ?S ?C (E @ [ci])"
    unfolding colliders_wf_def by (intro conjI)
  have "(h', p) \<in> slot_entries (S(h \<mapsto> Pointer q)) (C[unat ci := []])
      \<longleftrightarrow> (h', p) \<in> insert (h, q) {(h', p) \<in> slot_entries S C. h' \<noteq> h}" for h' p
  proof (cases "h' = h")
    case False
    then have "S h' = Some (Collider cj) \<Longrightarrow> cj \<noteq> ci" for cj using ci(5) by auto
    with False ci(1) show ?thesis by (auto simp: slot_entries_def)
  qed (use S ci(1) in \<open>auto simp: slot_entries_def\<close>)
  then show "slot_entries (S(h \<mapsto> Pointer q)) (C[unat ci := []])
      = insert (h, q) {(h', p) \<in> slot_entries S C. h' \<noteq> h}" by auto
qed

subsection \<open>The operations implement a set of entries\<close>

lemma alloc_collider_slot_wf:
  assumes wf: "pm_wf pm" and S: "pm_slots pm h = Some (Pointer e)" and p: "p \<noteq> e" "\<not> reserved_bit p"
    and room: "card (pm_entries pm) < 2 ^ 32"
  shows "\<exists>ci pm'. alloc_collider_slot pm [e, p] = Some (ci, pm') \<and>
    pm_wf (pm'\<lparr>pm_map := Mapping.update h (poc_collider ci) (pm_map pm')\<rparr>) \<and>
    pm_entries (pm'\<lparr>pm_map := Mapping.update h (poc_collider ci) (pm_map pm')\<rparr>)
      = insert (h, p) (pm_entries pm)"
proof -
  let ?S = "pm_slots pm" and ?C = "colliders pm" and ?E = "emptied_collider_slots pm"
  have cwf: "colliders_wf ?S ?C ?E" and len: "length ?C \<le> 2 ^ 32" and fin: "finite (dom ?S)"
    using wf by (auto simp: pm_wf_def dom_pm_slots)
  show ?thesis
  proof (cases "?E = []")
    case True
    have "2 * length ?C \<le> card (slot_entries ?S ?C)"
      using slot_entries_card(3) [OF cwf fin len True] .
    then have lt: "length ?C < 2 ^ 32" using room by (simp add: pm_entries_slots [OF wf])
    let ?ci = "of_nat (length ?C) :: u32"
    have un: "unat ?ci = length ?C" using lt by (simp add: unat_of_nat)
    note push = wf_push_slot [OF cwf [unfolded True] lt]
    note first = wf_first_collision [where E = "[]", unfolded append_Nil, OF push(1) S p]
    let ?pm = "pm\<lparr>colliders := ?C @ [[e, p]], pm_map := Mapping.update h (poc_collider ?ci) (pm_map pm)\<rparr>"
    have wf': "pm_wf ?pm" and "slot_entries (pm_slots ?pm) (colliders ?pm) = insert (h, p) (slot_entries ?S ?C)"
      using first push(2) un wf lt True by (auto simp: pm_wf_def)
    then have "pm_entries ?pm = insert (h, p) (pm_entries pm)"
      by (simp add: pm_entries_slots wf)
    with wf' True show ?thesis
      by (simp add: alloc_collider_slot_def collider_slot_index_new_def)
  next
    case False
    then obtain E ci where E: "?E = E @ [ci]" by (metis rev_exhaust)
    have ci: "unat ci < length ?C" "?C ! unat ci = []" using cwf E by (auto simp: colliders_wf_def)
    note first = wf_first_collision [OF cwf [unfolded E] S p]
    let ?pm = "pm\<lparr>emptied_collider_slots := E, colliders := ?C[unat ci := [e, p]],
      pm_map := Mapping.update h (poc_collider ci) (pm_map pm)\<rparr>"
    have wf': "pm_wf ?pm" and "slot_entries (pm_slots ?pm) (colliders ?pm) = insert (h, p) (slot_entries ?S ?C)"
      using first wf by (auto simp: pm_wf_def)
    then have "pm_entries ?pm = insert (h, p) (pm_entries pm)"
      by (simp add: pm_entries_slots wf)
    with wf' E ci show ?thesis by (simp add: alloc_collider_slot_def)
  qed
qed

lemma pm_lookup_cases:
  obtains (None) "Mapping.lookup (pm_map pm) h = None" "pm_slots pm h = None"
  | (Pointer) v p where "Mapping.lookup (pm_map pm) h = Some v" "poc_unpack v = Pointer p"
      "pm_slots pm h = Some (Pointer p)"
  | (Collider) v ci where "Mapping.lookup (pm_map pm) h = Some v" "poc_unpack v = Collider ci"
      "pm_slots pm h = Some (Collider ci)"
  by (cases "Mapping.lookup (pm_map pm) h"; cases "poc_unpack (the (Mapping.lookup (pm_map pm) h))")
    (auto simp: slots_of_def)

lemma pm_wfD:
  assumes "pm_wf pm"
  shows "colliders_wf (pm_slots pm) (colliders pm) (emptied_collider_slots pm)"
    and "finite (Mapping.keys (pm_map pm))" and "length (colliders pm) \<le> 2 ^ 32"
  using assms by (simp_all add: pm_wf_def)

lemma slot_entries_at:
  "(h, p) \<in> slot_entries S C \<longleftrightarrow>
     (case S h of None \<Rightarrow> False | Some (Pointer q) \<Rightarrow> p = q | Some (Collider ci) \<Rightarrow> p \<in> set (C ! unat ci))"
  by (auto simp: slot_entries_def split: option.splits map_slot.splits)

lemma pm_insert_wf:
  assumes wf: "pm_wf pm" and p: "\<not> reserved_bit p" and room: "card (pm_entries pm) < 2 ^ 32"
  shows "\<exists>pm'. pm_insert pm h p = Some ((h, p) \<in> pm_entries pm, pm') \<and> pm_wf pm' \<and>
    pm_entries pm' = insert (h, p) (pm_entries pm)"
proof -
  note cwf = pm_wfD [OF wf] and ents = pm_entries_slots [OF wf]
  show ?thesis
  proof (cases rule: pm_lookup_cases [of pm h])
    case None
    let ?pm = "pm\<lparr>pm_map := Mapping.update h (poc_ptr p) (pm_map pm)\<rparr>"
    have "pm_wf ?pm" using wf_new_pointer(1) [OF cwf(1) None(2) p] cwf p by (simp add: pm_wf_def)
    with wf_new_pointer(2) [OF cwf(1) None(2) p] None ents p show ?thesis
      by (simp add: pm_insert_def pm_entries_slots slot_entries_at)
  next
    case (Pointer v e)
    then have e: "\<not> reserved_bit e" using cwf(1) by (auto simp: colliders_wf_def)
    show ?thesis
    proof (cases "p = e")
      case True
      then have "(h, p) \<in> pm_entries pm" using ents Pointer(3) by (simp add: slot_entries_at)
      with True Pointer(1,2) wf show ?thesis by (simp add: pm_insert_def insert_absorb)
    next
      case False
      with alloc_collider_slot_wf [OF wf Pointer(3) False p room] Pointer ents p e show ?thesis
        by (auto simp: pm_insert_def slot_entries_at)
    qed
  next
    case (Collider v ci)
    let ?cs = "colliders pm ! unat ci"
    note ci = colliders_wf_slot [OF cwf(1) Collider(3)]
    show ?thesis
    proof (cases "p \<in> set ?cs")
      case True
      then have "(h, p) \<in> pm_entries pm" using ents Collider(3) by (simp add: slot_entries_at)
      with True Collider(1,2) wf ci(1) p show ?thesis by (simp add: pm_insert_def insert_absorb)
    next
      case False
      let ?pm = "pm\<lparr>colliders := (colliders pm)[unat ci := ?cs @ [p]]\<rparr>"
      have "2 \<le> length (?cs @ [p])" "collider_list_ok (?cs @ [p])"
        using ci False p by (auto simp: collider_list_ok_def)
      note upd = wf_update_slot [OF cwf(1) Collider(3) this]
      have "pm_wf ?pm" using upd(1) cwf by (simp add: pm_wf_def)
      moreover have "{(h', q) \<in> slot_entries (pm_slots pm) (colliders pm). h' \<noteq> h} \<union> Pair h ` set (?cs @ [p])
          = insert (h, p) (slot_entries (pm_slots pm) (colliders pm))"
        using Collider(3) by (auto simp: slot_entries_at)
      ultimately have "pm_wf ?pm" "pm_entries ?pm = insert (h, p) (pm_entries pm)"
        using upd(2) ents by (simp_all add: pm_entries_slots)
      moreover have "(h, p) \<notin> pm_entries pm"
        using False Collider(3) ents by (simp add: slot_entries_at)
      ultimately show ?thesis using False Collider(1,2) ci(1) p by (simp add: pm_insert_def)
    qed
  qed
qed

lemma pm_remove_collider_wf:
  assumes wf: "pm_wf pm" and lk: "Mapping.lookup (pm_map pm) h = Some v" "poc_unpack v = Collider ci"
    and S: "pm_slots pm h = Some (Collider ci)"
  shows "\<exists>pm'. pm_remove pm h p = Some ((h, p) \<in> pm_entries pm, pm') \<and> pm_wf pm' \<and>
    pm_entries pm' = pm_entries pm - {(h, p)}"
proof -
  let ?cs = "colliders pm ! unat ci" and ?E = "slot_entries (pm_slots pm) (colliders pm)"
  note cwf = pm_wfD [OF wf] and ents = pm_entries_slots [OF wf]
  note ci = colliders_wf_slot [OF cwf(1) S]
  show ?thesis
  proof (cases "list_position (\<lambda>q. q = p) ?cs")
    case None
    then have "p \<notin> set ?cs" by (auto simp: list_position_None_iff)
    then have "(h, p) \<notin> ?E" using S by (simp add: slot_entries_at)
    with None lk wf ents ci(1) show ?thesis by (simp add: pm_remove_def)
  next
    case (Some i)
    then have i: "i < length ?cs" "?cs ! i = p" using list_position_Some [OF Some] by auto
    then have mem: "(h, p) \<in> ?E" using S by (auto simp: slot_entries_at)
    let ?slot = "swap_remove ?cs i"
    have slot: "set ?slot = set ?cs - {p}" "collider_list_ok ?slot"
      using distinct_swap_remove [OF i(1)] ci(3) i(2) by (auto simp: collider_list_ok_def)
    have E: "{(h', q) \<in> ?E. h' \<noteq> h} \<union> Pair h ` set ?slot = ?E - {(h, p)}"
    proof -
      have "(h, q) \<in> ?E \<longleftrightarrow> q \<in> set ?cs" for q using S by (simp add: slot_entries_at)
      then show ?thesis unfolding slot(1) by blast
    qed
    consider q where "?slot = [q]" | a b cs where "?slot = a # b # cs"
      using ci(2) length_swap_remove [of ?cs i] by (cases ?slot rule: remdups_adj.cases) auto
    then show ?thesis
    proof cases
      case (1 q)
      let ?pm = "pm\<lparr>pm_map := Mapping.update h (poc_ptr q) (pm_map pm),
        colliders := (colliders pm)[unat ci := []],
        emptied_collider_slots := emptied_collider_slots pm @ [ci]\<rparr>"
      have qr: "\<not> reserved_bit q" using slot(2) 1 by (simp add: collider_list_ok_def)
      note coll = wf_collapse_slot [OF cwf(1) S qr]
      have wf': "pm_wf ?pm" using coll(1) cwf qr by (simp add: pm_wf_def)
      have "pm_entries ?pm = pm_entries pm - {(h, p)}"
        using coll(2) E 1 qr by (simp add: pm_entries_slots [OF wf'] ents)
      with wf' Some 1 lk ents ci(1) mem show ?thesis by (simp add: pm_remove_def)
    next
      case (2 a b cs)
      then have two: "2 \<le> length ?slot" by simp
      note upd = wf_update_slot [OF cwf(1) S two slot(2)]
      let ?pm = "pm\<lparr>colliders := (colliders pm)[unat ci := ?slot]\<rparr>"
      have wf': "pm_wf ?pm" using upd(1) cwf by (simp add: pm_wf_def)
      have "pm_entries ?pm = pm_entries pm - {(h, p)}"
        using upd(2) E by (simp add: pm_entries_slots [OF wf'] ents)
      with wf' Some 2 lk ents ci(1) mem show ?thesis by (simp add: pm_remove_def)
    qed
  qed
qed

lemma pm_remove_wf:
  assumes wf: "pm_wf pm"
  shows "\<exists>pm'. pm_remove pm h p = Some ((h, p) \<in> pm_entries pm, pm') \<and> pm_wf pm' \<and>
    pm_entries pm' = pm_entries pm - {(h, p)}"
proof -
  note cwf = pm_wfD [OF wf] and ents = pm_entries_slots [OF wf]
  show ?thesis
  proof (cases rule: pm_lookup_cases [of pm h])
    case None
    then have "(h, p) \<notin> pm_entries pm" using ents by (simp add: slot_entries_at)
    with None(1) wf show ?thesis by (simp add: pm_remove_def)
  next
    case (Pointer v e)
    show ?thesis
    proof (cases "e = p")
      case True
      let ?pm = "pm\<lparr>pm_map := Mapping.delete h (pm_map pm)\<rparr>"
      note drop = wf_drop_pointer [OF cwf(1) Pointer(3)]
      have "pm_wf ?pm" using drop(1) cwf by (simp add: pm_wf_def)
      moreover from this have "pm_entries ?pm = pm_entries pm - {(h, p)}"
        using drop(2) True ents by (simp add: pm_entries_slots)
      moreover have "(h, p) \<in> pm_entries pm" using True Pointer(3) ents by (simp add: slot_entries_at)
      ultimately show ?thesis using True Pointer(1,2) by (simp add: pm_remove_def)
    next
      case False
      then have "(h, p) \<notin> pm_entries pm" using Pointer(3) ents by (simp add: slot_entries_at)
      with False Pointer(1,2) wf show ?thesis by (simp add: pm_remove_def)
    qed
  next
    case (Collider v ci)
    then show ?thesis by (rule pm_remove_collider_wf [OF wf])
  qed
qed

definition pm_admits :: "(row_hash \<times> row_pointer) set \<Rightarrow> row_hash \<Rightarrow> row_pointer \<Rightarrow> bool" where
  "pm_admits E h p \<longleftrightarrow> \<not> reserved_bit p \<and> card E < 2 ^ 32"

definition pm_insert_state :: "pointer_map \<Rightarrow> row_hash \<Rightarrow> row_pointer \<Rightarrow> pointer_map option" where
  "pm_insert_state pm h p = map_option snd (pm_insert pm h p)"

lemma pm_len_card: "pm_wf pm \<Longrightarrow> finite (pm_entries pm) \<and> pm_len pm = card (pm_entries pm)"
  using slot_entries_card(1,2) [OF pm_wfD(1), of pm] pm_wfD(2,3) [of pm]
  by (simp add: pm_entries_slots dom_pm_slots pm_len_def num_collisions_def num_non_collisions_def
      Mapping.size_def)

interpretation pm: ptr_index pm_wf pm_entries pm_admits pm_insert_state pm_remove pm_len
proof unfold_locales
  fix pm h p assume wf: "pm_wf pm"
  show "\<exists>pm'. pm_insert_state pm h p = Some pm' \<and> pm_wf pm' \<and> pm_entries pm' = insert (h, p) (pm_entries pm)"
    if "pm_admits (pm_entries pm) h p" "(h, p) \<notin> pm_entries pm"
    using pm_insert_wf [OF wf, of p h] that by (auto simp: pm_insert_state_def pm_admits_def)
  show "\<exists>pm'. pm_remove pm h p = Some (True, pm') \<and> pm_wf pm' \<and> pm_entries pm' = pm_entries pm - {(h, p)}"
    if "(h, p) \<in> pm_entries pm"
    using pm_remove_wf [OF wf, of h p] that by simp
  show "\<exists>pm'. pm_remove pm h p = Some (False, pm') \<and> pm_wf pm' \<and> pm_entries pm' = pm_entries pm"
    if "h \<notin> fst ` pm_entries pm"
    using pm_remove_wf [OF wf, of h p] that by (force simp: image_iff)
  show "finite (pm_entries pm) \<and> pm_len pm = card (pm_entries pm)"
    using wf by (rule pm_len_card)
qed

lemma pm_wf_default: "pm_wf pointer_map_default" "pm_entries pointer_map_default = {}"
  by (auto simp: pm_wf_def pointer_map_default_def colliders_wf_def slots_of_def pm_entries_def
      pointers_for_def)

subsection \<open>Properties\<close>

text \<open>Claim C4.  On a map that satisfies its collider invariant, inserting a row pointer (reserved bit
  clear, fewer than 2^32 entries) and removing any pointer never panic and never reach the
  unreachable branch; each returns whether the pair was already present, adds or removes exactly
  that pair, keeps the invariant, and the slice returned for the hash afterwards lists the
  remaining pointers without repetition.\<close>

theorem pm_insert_remove_correct:
  assumes "pm_wf pm" and "\<not> reserved_bit p" and "card (pm_entries pm) < 2 ^ 32"
  shows "(\<exists>pm' ps. pm_insert pm h p = Some ((h, p) \<in> pm_entries pm, pm') \<and> pm_wf pm' \<and>
      pm_entries pm' = insert (h, p) (pm_entries pm) \<and>
      pointers_for pm' h = Some ps \<and> distinct ps \<and> p \<in> set ps) \<and>
    (\<exists>pm' ps. pm_remove pm h p = Some ((h, p) \<in> pm_entries pm, pm') \<and> pm_wf pm' \<and>
      pm_entries pm' = pm_entries pm - {(h, p)} \<and>
      pointers_for pm' h = Some ps \<and> distinct ps \<and> p \<notin> set ps)"
proof -
  obtain pm1 where pm1: "pm_insert pm h p = Some ((h, p) \<in> pm_entries pm, pm1)" "pm_wf pm1"
    "pm_entries pm1 = insert (h, p) (pm_entries pm)" using pm_insert_wf assms by blast
  obtain pm2 where pm2: "pm_remove pm h p = Some ((h, p) \<in> pm_entries pm, pm2)" "pm_wf pm2"
    "pm_entries pm2 = pm_entries pm - {(h, p)}" using pm_remove_wf assms by blast
  obtain ps1 ps2 where ps: "pointers_for pm1 h = Some ps1" "distinct ps1"
    "pointers_for pm2 h = Some ps2" "distinct ps2" using pointers_for_Some pm1(2) pm2(2) by metis
  have "(h, p) \<in> pm_entries pm1" "(h, p) \<notin> pm_entries pm2" using pm1(3) pm2(3) by auto
  with ps have "p \<in> set ps1" "p \<notin> set ps2" by (auto simp: pm_entries_def)
  with pm1 pm2 ps show ?thesis by blast
qed

theorem pm_insert_remove_correct_witness:
  "(\<exists>pm' ps. pm_insert pointer_map_default 9 (RowPointer 4)
        = Some ((9, RowPointer 4) \<in> pm_entries pointer_map_default, pm') \<and> pm_wf pm' \<and>
      pm_entries pm' = insert (9, RowPointer 4) (pm_entries pointer_map_default) \<and>
      pointers_for pm' 9 = Some ps \<and> distinct ps \<and> RowPointer 4 \<in> set ps) \<and>
    (\<exists>pm' ps. pm_remove pointer_map_default 9 (RowPointer 4)
        = Some ((9, RowPointer 4) \<in> pm_entries pointer_map_default, pm') \<and> pm_wf pm' \<and>
      pm_entries pm' = pm_entries pointer_map_default - {(9, RowPointer 4)} \<and>
      pointers_for pm' 9 = Some ps \<and> distinct ps \<and> RowPointer 4 \<notin> set ps)"
  by (rule pm_insert_remove_correct)
    (simp_all add: pm_wf_default reserved_bit_def MASK_RB_def OFFSET_RB_def BITS_RB_def)

text \<open>Claim C10.  Starting from the empty pointer map, every sequence of admissible insertions and
  removals runs to completion and leaves exactly the pairs that were inserted and not removed since;
  the cached count \<^const>\<open>pm_len\<close>, computed from the collider lists and the number of hashes,
  is the number of those pairs.\<close>

theorem pm_run_refines_set:
  "run_admissible pm_admits {} ops \<Longrightarrow>
     \<exists>pm. run_index pm_insert_state pm_remove pointer_map_default ops = Some pm \<and>
       pm_entries pm = run_entries {} ops \<and> pm_len pm = card (run_entries {} ops)"
  using pm.run_refines [OF pm_wf_default(1), unfolded pm_wf_default(2), of ops] by blast

theorem pm_run_refines_set_witness:
  "\<exists>pm. run_index pm_insert_state pm_remove pointer_map_default
         [Ins 9 (RowPointer 4), Ins 9 (RowPointer 8), Ins 3 (RowPointer 4), Del 9 (RowPointer 4), Del 7 (RowPointer 2)]
         = Some pm \<and>
       pm_entries pm = {(9, RowPointer 8), (3, RowPointer 4)} \<and> pm_len pm = 2"
proof -
  let ?ops = "[Ins 9 (RowPointer 4), Ins 9 (RowPointer 8), Ins 3 (RowPointer 4),
    Del 9 (RowPointer 4), Del 7 (RowPointer 2)] :: (row_hash, row_pointer) index_op list"
  have e: "run_entries {} ?ops = {(9, RowPointer 8), (3, RowPointer 4)}" by auto
  have "run_admissible pm_admits {} ?ops"
    by (auto simp: pm_admits_def reserved_bit_def MASK_RB_def OFFSET_RB_def BITS_RB_def)
  moreover have "card {(9 :: row_hash, RowPointer 8), (3, RowPointer 4)} = 2" by simp
  ultimately show ?thesis using pm_run_refines_set [of ?ops] unfolding e by (simp only: simp_thms)
qed

end
