(* ===== verification/Std_Collections.thy ===== *)
theory Std_Collections
  imports Stdb_Prelude
begin

text \<open>
  The parts of the Rust standard library the index structures are built on: \<^verbatim>\<open>BTreeMap\<close> as an
  association list kept strictly ascending in its keys, and \<^verbatim>\<open>RangeBounds\<close>.  The map offers
  its clients the laws of the locale \<open>ordered_map\<close>.
\<close>

subsection \<open>Range bounds\<close>

datatype 'k bound = Included 'k | Excluded 'k | Unbounded

fun above :: "'k::linorder bound \<Rightarrow> 'k \<Rightarrow> bool" where
  "above (Included s) k \<longleftrightarrow> s \<le> k"
| "above (Excluded s) k \<longleftrightarrow> s < k"
| "above Unbounded k \<longleftrightarrow> True"

fun below :: "'k::linorder bound \<Rightarrow> 'k \<Rightarrow> bool" where
  "below (Included e) k \<longleftrightarrow> k \<le> e"
| "below (Excluded e) k \<longleftrightarrow> k < e"
| "below Unbounded k \<longleftrightarrow> True"

definition in_range :: "'k::linorder bound \<times> 'k bound \<Rightarrow> 'k \<Rightarrow> bool" where
  "in_range r k \<longleftrightarrow> above (fst r) k \<and> below (snd r) k"

text \<open>\<^verbatim>\<open>BTreeMap::range\<close> panics on a range whose start lies after its end, and on an
  empty range that excludes both of its equal ends.\<close>

fun range_panics :: "'k::linorder bound \<times> 'k bound \<Rightarrow> bool" where
  "range_panics (Included s, Included e) \<longleftrightarrow> e < s"
| "range_panics (Included s, Excluded e) \<longleftrightarrow> e < s"
| "range_panics (Excluded s, Included e) \<longleftrightarrow> e < s"
| "range_panics (Excluded s, Excluded e) \<longleftrightarrow> e \<le> s"
| "range_panics _ \<longleftrightarrow> False"

subsection \<open>Ordered maps\<close>

type_synonym ('k, 'v) btree = "('k \<times> 'v) list"

definition bt_get :: "('k, 'v) btree \<Rightarrow> 'k \<Rightarrow> 'v option" where
  "bt_get m k = map_of m k"

fun bt_insert :: "'k::linorder \<Rightarrow> 'v \<Rightarrow> ('k, 'v) btree \<Rightarrow> ('k, 'v) btree" where
  "bt_insert k v [] = [(k, v)]"
| "bt_insert k v ((k', v') # m) =
     (if k < k' then (k, v) # (k', v') # m
      else if k = k' then (k, v) # m
      else (k', v') # bt_insert k v m)"

definition bt_remove :: "'k \<Rightarrow> ('k, 'v) btree \<Rightarrow> ('k, 'v) btree" where
  "bt_remove k m = filter (\<lambda>(k', _). k' \<noteq> k) m"

definition bt_range :: "'k::linorder bound \<times> 'k bound \<Rightarrow> ('k, 'v) btree \<Rightarrow> ('k, 'v) btree option" where
  "bt_range r m = (if range_panics r then None else Some (filter (\<lambda>(k, _). in_range r k) m))"

definition bt_wf :: "('k::linorder, 'v) btree \<Rightarrow> bool" where
  "bt_wf m \<longleftrightarrow> sorted_wrt (<) (map fst m)"

definition bt_pairs :: "('k, 'v) btree \<Rightarrow> ('k \<times> 'v) set" where
  "bt_pairs m = set m"

lemma bt_wf_Nil [simp]: "bt_wf []"
  by (simp add: bt_wf_def)

lemma bt_wf_Cons: "bt_wf ((k, v) # m) \<longleftrightarrow> (\<forall>(k', _)\<in>set m. k < k') \<and> bt_wf m"
  by (auto simp: bt_wf_def)

lemma bt_wf_distinct: "bt_wf m \<Longrightarrow> distinct (map fst m)"
  using strict_sorted_iff by (auto simp: bt_wf_def)

lemma bt_get_iff: "bt_wf m \<Longrightarrow> bt_get m k = Some v \<longleftrightarrow> (k, v) \<in> set m"
  by (simp add: bt_get_def bt_wf_distinct map_of_eq_Some_iff)

lemma fst_bt_insert: "fst ` set (bt_insert k v m) = insert k (fst ` set m)"
  by (induction k v m rule: bt_insert.induct) (simp_all add: insert_commute)

lemma bt_wf_insert: "bt_wf m \<Longrightarrow> bt_wf (bt_insert k v m)"
proof (induction m)
  case (Cons a m)
  obtain k' v' where a: "a = (k', v')" by force
  have "k' < fst x" if "x \<in> set (bt_insert k v m)" "k' < k" for x
    using Cons.prems that fst_bt_insert [of k v m] by (force simp: a bt_wf_Cons)
  then show ?case using Cons by (auto simp: a bt_wf_Cons split: if_splits)
qed (simp add: bt_wf_def)

lemma bt_get_insert: "bt_wf m \<Longrightarrow> bt_get (bt_insert k v m) = (bt_get m)(k \<mapsto> v)"
proof (induction m)
  case (Cons a m)
  obtain k' v' where a: "a = (k', v')" by force
  with Cons show ?case
    by (auto simp: bt_get_def bt_wf_Cons fun_eq_iff)
qed (simp add: bt_get_def fun_eq_iff)

lemma bt_wf_filter: "bt_wf m \<Longrightarrow> bt_wf (filter P m)"
  by (induction m) (auto simp: bt_wf_def)

lemma bt_wf_remove: "bt_wf m \<Longrightarrow> bt_wf (bt_remove k m)"
  unfolding bt_remove_def by (rule bt_wf_filter)

lemma bt_get_remove: "bt_get (bt_remove k m) = (bt_get m)(k := None)"
proof
  show "bt_get (bt_remove k m) j = ((bt_get m)(k := None)) j" for j
    by (induction m) (auto simp: bt_get_def bt_remove_def)
qed

lemma bt_wf_range: "bt_wf m \<Longrightarrow> bt_range r m = Some m' \<Longrightarrow> bt_wf m'"
  by (auto simp: bt_range_def bt_wf_filter split: if_splits)

lemma dom_bt_get: "dom (bt_get m) = set (map fst m)"
proof -
  have "bt_get m = map_of m" by (simp add: fun_eq_iff bt_get_def)
  then show ?thesis by (simp add: dom_map_of_conv_image_fst)
qed

lemma length_bt: "bt_wf m \<Longrightarrow> length m = card (dom (bt_get m))"
  using distinct_card [OF bt_wf_distinct, of m] by (simp only: dom_bt_get length_map)

locale ordered_map =
  fixes wf :: "'m \<Rightarrow> bool"
    and get :: "'m \<Rightarrow> 'k::linorder \<Rightarrow> 'v option"
    and ins :: "'k \<Rightarrow> 'v \<Rightarrow> 'm \<Rightarrow> 'm"
    and rem :: "'k \<Rightarrow> 'm \<Rightarrow> 'm"
    and size_of :: "'m \<Rightarrow> nat"
  assumes wf_ins: "wf m \<Longrightarrow> wf (ins k v m)"
    and wf_rem: "wf m \<Longrightarrow> wf (rem k m)"
    and get_ins: "wf m \<Longrightarrow> get (ins k v m) = (get m)(k \<mapsto> v)"
    and get_rem: "wf m \<Longrightarrow> get (rem k m) = (get m)(k := None)"
    and size_get: "wf m \<Longrightarrow> size_of m = card (dom (get m))"
    and finite_get: "wf m \<Longrightarrow> finite (dom (get m))"
begin

lemma size_ins_new: "wf m \<Longrightarrow> get m k = None \<Longrightarrow> size_of (ins k v m) = Suc (size_of m)"
  using finite_get [of m] by (simp add: size_get wf_ins get_ins domIff)

lemma size_ins_old: "wf m \<Longrightarrow> get m k = Some w \<Longrightarrow> size_of (ins k v m) = size_of m"
  by (simp add: size_get wf_ins get_ins insert_absorb domI)

lemma size_rem: "wf m \<Longrightarrow> get m k = Some w \<Longrightarrow> Suc (size_of (rem k m)) = size_of m"
  using finite_get [of m] card_Suc_Diff1 [of "dom (get m)" k]
  by (simp add: size_get wf_rem get_rem domI)

end

interpretation bt: ordered_map bt_wf bt_get bt_insert bt_remove length
proof unfold_locales
  show "bt_wf m \<Longrightarrow> finite (dom (bt_get m))" for m :: "('a::linorder, 'b) btree"
    by (simp only: dom_bt_get List.finite_set)
qed (simp_all add: bt_wf_insert bt_wf_remove bt_get_insert bt_get_remove length_bt)

end
