(* ===== verification/Index_Maps.thy ===== *)
theory Index_Maps
  imports Std_Collections Index_Interface
begin

text \<open>
  \<^verbatim>\<open>crates/table/src/table_index/multimap.rs\<close> and \<^verbatim>\<open>uniquemap.rs\<close>: the ordered
  index structures.  A multi-map keeps a vector of values per key and leaves the empty vector behind
  when its last value is deleted; a unique map refuses a second value.
\<close>

subsection \<open>MultiMap\<close>

record ('k, 'v) multi_map =
  mm_map :: "('k, 'v list) btree"

definition mm_default :: "('k, 'v) multi_map" where
  "mm_default = \<lparr>mm_map = []\<rparr>"

definition mm_insert :: "('k::linorder, 'v) multi_map \<Rightarrow> 'k \<Rightarrow> 'v \<Rightarrow> ('k, 'v) multi_map" where
  "mm_insert mm key val =
     (let vs = (case bt_get (mm_map mm) key of None \<Rightarrow> [] | Some vs \<Rightarrow> vs)
      in mm\<lparr>mm_map := bt_insert key (vs @ [val]) (mm_map mm)\<rparr>)"

definition mm_delete :: "('k::linorder, 'v) multi_map \<Rightarrow> 'k \<Rightarrow> 'v \<Rightarrow> bool \<times> ('k, 'v) multi_map" where
  "mm_delete mm key val =
     (case bt_get (mm_map mm) key of
        None \<Rightarrow> (False, mm)
      | Some vset \<Rightarrow>
         (case list_position (\<lambda>v. v = val) vset of
            None \<Rightarrow> (False, mm)
          | Some idx \<Rightarrow> (True, mm\<lparr>mm_map := bt_insert key (swap_remove vset idx) (mm_map mm)\<rparr>)))"

record 'v multi_map_range_iter =
  mri_outer :: "'v list list"
  mri_inner :: "'v list option"

definition mm_values_in_range ::
  "('k::linorder, 'v) multi_map \<Rightarrow> 'k bound \<times> 'k bound \<Rightarrow> 'v multi_map_range_iter option" where
  "mm_values_in_range mm r =
     map_option (\<lambda>m. \<lparr>mri_outer = map snd m, mri_inner = None\<rparr>) (bt_range r (mm_map mm))"

definition mm_values_in_point :: "('k, 'v) multi_map \<Rightarrow> 'k \<Rightarrow> 'v list" where
  "mm_values_in_point mm key = (case bt_get (mm_map mm) key of None \<Rightarrow> [] | Some vs \<Rightarrow> vs)"

definition mm_num_keys :: "('k, 'v) multi_map \<Rightarrow> nat" where
  "mm_num_keys mm = length (mm_map mm)"

definition mm_len :: "('k, 'v) multi_map \<Rightarrow> nat" where
  "mm_len mm = sum_list (map (\<lambda>(_, ptrs). length ptrs) (mm_map mm))"

definition mm_is_empty :: "('k, 'v) multi_map \<Rightarrow> bool" where
  "mm_is_empty mm \<longleftrightarrow> mm_len mm = 0"

definition mm_clear :: "('k, 'v) multi_map \<Rightarrow> ('k, 'v) multi_map" where
  "mm_clear mm = mm\<lparr>mm_map := []\<rparr>"

text \<open>The \<^verbatim>\<open>loop\<close> of the range iterator on its two fields, and the whole iteration.\<close>

fun mri_loop :: "'v list option \<Rightarrow> 'v list list \<Rightarrow> ('v \<times> 'v multi_map_range_iter) option" where
  "mri_loop (Some (v # vs)) outer = Some (v, \<lparr>mri_outer = outer, mri_inner = Some vs\<rparr>)"
| "mri_loop _ [] = None"
| "mri_loop _ (vs # outer) = mri_loop (Some vs) outer"

definition mri_next :: "'v multi_map_range_iter \<Rightarrow> ('v \<times> 'v multi_map_range_iter) option" where
  "mri_next it = mri_loop (mri_inner it) (mri_outer it)"

definition mri_pending :: "'v multi_map_range_iter \<Rightarrow> 'v list" where
  "mri_pending it = (case mri_inner it of None \<Rightarrow> [] | Some vs \<Rightarrow> vs) @ concat (mri_outer it)"

lemma mri_loop_pending:
  "(case mri_loop i outer of None \<Rightarrow> [] | Some (v, it) \<Rightarrow> v # mri_pending it)
     = (case i of None \<Rightarrow> [] | Some vs \<Rightarrow> vs) @ concat outer"
  by (induction i outer rule: mri_loop.induct) (auto simp: mri_pending_def)

lemma mri_next_pending:
  "mri_pending it = (case mri_next it of None \<Rightarrow> [] | Some (v, it') \<Rightarrow> v # mri_pending it')"
  using mri_loop_pending [of "mri_inner it" "mri_outer it"] by (simp add: mri_next_def mri_pending_def)

function mri_collect :: "'v multi_map_range_iter \<Rightarrow> 'v list" where
  "mri_collect it = (case mri_next it of None \<Rightarrow> [] | Some (v, it') \<Rightarrow> v # mri_collect it')"
  by pat_completeness auto
termination
proof (relation "measure (\<lambda>it. length (mri_pending it))", simp)
  fix it :: "'v multi_map_range_iter" and p v it'
  assume "mri_next it = Some p" "(v, it') = p"
  then show "(it', it) \<in> measure (\<lambda>it. length (mri_pending it))"
    using mri_next_pending [of it] by auto
qed

declare mri_collect.simps [simp del]

lemma mri_collect_pending: "mri_collect it = mri_pending it"
proof (induction it rule: mri_collect.induct)
  case (1 it)
  show ?case
    using 1 mri_next_pending [of it] mri_collect.simps [of it] by (auto split: option.splits)
qed

subsection \<open>UniqueMap\<close>

record ('k, 'v) unique_map =
  um_map :: "('k, 'v) btree"

definition um_default :: "('k, 'v) unique_map" where
  "um_default = \<lparr>um_map = []\<rparr>"

definition um_insert ::
  "('k::linorder, 'v) unique_map \<Rightarrow> 'k \<Rightarrow> 'v \<Rightarrow> ('v + unit) \<times> ('k, 'v) unique_map" where
  "um_insert um key val =
     (case bt_get (um_map um) key of
        None \<Rightarrow> (Inr (), um\<lparr>um_map := bt_insert key val (um_map um)\<rparr>)
      | Some e \<Rightarrow> (Inl e, um))"

definition um_delete :: "('k, 'v) unique_map \<Rightarrow> 'k \<Rightarrow> bool \<times> ('k, 'v) unique_map" where
  "um_delete um key = (bt_get (um_map um) key \<noteq> None, um\<lparr>um_map := bt_remove key (um_map um)\<rparr>)"

definition um_values_in_range ::
  "('k::linorder, 'v) unique_map \<Rightarrow> 'k bound \<times> 'k bound \<Rightarrow> 'v list option" where
  "um_values_in_range um r = map_option (map snd) (bt_range r (um_map um))"

definition um_values_in_point :: "('k, 'v) unique_map \<Rightarrow> 'k \<Rightarrow> 'v list" where
  "um_values_in_point um key = (case bt_get (um_map um) key of None \<Rightarrow> [] | Some v \<Rightarrow> [v])"

definition um_len :: "('k, 'v) unique_map \<Rightarrow> nat" where
  "um_len um = length (um_map um)"

definition um_num_keys :: "('k, 'v) unique_map \<Rightarrow> nat" where
  "um_num_keys um = um_len um"

definition um_is_empty :: "('k, 'v) unique_map \<Rightarrow> bool" where
  "um_is_empty um \<longleftrightarrow> um_len um = 0"

definition um_clear :: "('k, 'v) unique_map \<Rightarrow> ('k, 'v) unique_map" where
  "um_clear um = um\<lparr>um_map := []\<rparr>"

fun find_map :: "('a \<Rightarrow> 'b option) \<Rightarrow> 'a list \<Rightarrow> 'b option" where
  "find_map f [] = None"
| "find_map f (x # xs) = (case f x of None \<Rightarrow> find_map f xs | Some y \<Rightarrow> Some y)"

definition um_can_merge ::
  "('k, 'v) unique_map \<Rightarrow> ('k, 'v) unique_map \<Rightarrow> ('v \<Rightarrow> bool) \<Rightarrow> 'v + unit" where
  "um_can_merge um other ignore =
     (case find_map (\<lambda>key. case bt_get (um_map um) key of
                             None \<Rightarrow> None
                           | Some val \<Rightarrow> if \<not> ignore val then Some val else None)
             (map fst (um_map other)) of
        None \<Rightarrow> Inr ()
      | Some found \<Rightarrow> Inl found)"

subsection \<open>Both are pointer indices\<close>

definition mm_wf :: "('k::linorder, 'v) multi_map \<Rightarrow> bool" where
  "mm_wf mm \<longleftrightarrow> bt_wf (mm_map mm) \<and> (\<forall>(k, vs)\<in>set (mm_map mm). distinct vs)"

definition mm_entries :: "('k, 'v) multi_map \<Rightarrow> ('k \<times> 'v) set" where
  "mm_entries mm = {(k, v). v \<in> set (mm_values_in_point mm k)}"

definition mm_insert_op :: "('k::linorder, 'v) multi_map \<Rightarrow> 'k \<Rightarrow> 'v \<Rightarrow> ('k, 'v) multi_map option" where
  "mm_insert_op mm k v = Some (mm_insert mm k v)"

definition mm_delete_op ::
  "('k::linorder, 'v) multi_map \<Rightarrow> 'k \<Rightarrow> 'v \<Rightarrow> (bool \<times> ('k, 'v) multi_map) option" where
  "mm_delete_op mm k v = Some (mm_delete mm k v)"

lemma mm_wf_distinct: "mm_wf mm \<Longrightarrow> bt_get (mm_map mm) k = Some vs \<Longrightarrow> distinct vs"
  by (auto simp: mm_wf_def bt_get_iff)

lemma mm_wf_insert_list:
  assumes "mm_wf mm" and "distinct vs"
  shows "mm_wf (mm\<lparr>mm_map := bt_insert k vs (mm_map mm)\<rparr>)"
proof -
  have wf: "bt_wf (bt_insert k vs (mm_map mm))" using assms by (simp add: mm_wf_def bt_wf_insert)
  have "distinct ws" if "(j, ws) \<in> set (bt_insert k vs (mm_map mm))" for j ws
  proof -
    have "((bt_get (mm_map mm))(k \<mapsto> vs)) j = Some ws"
      using that assms bt_get_iff [OF wf, of j ws] by (simp add: mm_wf_def bt_get_insert)
    then show ?thesis using assms mm_wf_distinct [of mm j ws] by (auto split: if_splits)
  qed
  with wf show ?thesis by (auto simp: mm_wf_def)
qed

lemma mm_values_in_point_update:
  "bt_wf (mm_map mm) \<Longrightarrow> mm_values_in_point (mm\<lparr>mm_map := bt_insert k vs (mm_map mm)\<rparr>) j
     = (if j = k then vs else mm_values_in_point mm j)"
  by (simp add: mm_values_in_point_def bt_get_insert)

lemma mm_insert_wf:
  assumes "mm_wf mm" and "(k, v) \<notin> mm_entries mm"
  shows "mm_wf (mm_insert mm k v)" and "mm_entries (mm_insert mm k v) = insert (k, v) (mm_entries mm)"
proof -
  let ?vs = "mm_values_in_point mm k"
  have ins: "mm_insert mm k v = mm\<lparr>mm_map := bt_insert k (?vs @ [v]) (mm_map mm)\<rparr>"
    by (simp add: mm_insert_def mm_values_in_point_def)
  have "distinct (?vs @ [v])"
    using assms mm_wf_distinct [of mm k]
    by (auto simp: mm_entries_def mm_values_in_point_def split: option.splits)
  then show "mm_wf (mm_insert mm k v)" unfolding ins by (rule mm_wf_insert_list [OF assms(1)])
  show "mm_entries (mm_insert mm k v) = insert (k, v) (mm_entries mm)"
    using assms(1) by (auto simp: ins mm_entries_def mm_values_in_point_update mm_wf_def split: if_splits)
qed

lemma mm_delete_wf:
  assumes wf: "mm_wf mm"
  shows "\<exists>mm'. mm_delete mm k v = ((k, v) \<in> mm_entries mm, mm') \<and> mm_wf mm' \<and>
    mm_entries mm' = mm_entries mm - {(k, v)}"
proof (cases "(k, v) \<in> mm_entries mm")
  case False
  have "list_position (\<lambda>w. w = v) vs = None" if "bt_get (mm_map mm) k = Some vs" for vs
  proof -
    have "v \<notin> set vs" using that False by (simp add: mm_entries_def mm_values_in_point_def)
    then show ?thesis unfolding list_position_None_iff by blast
  qed
  then have "mm_delete mm k v = (False, mm)"
    by (cases "bt_get (mm_map mm) k") (auto simp: mm_delete_def)
  with False wf show ?thesis by auto
next
  case True
  then obtain vs where vs: "bt_get (mm_map mm) k = Some vs" "v \<in> set vs"
    by (cases "bt_get (mm_map mm) k") (auto simp: mm_entries_def mm_values_in_point_def)
  then obtain i where i: "list_position (\<lambda>w. w = v) vs = Some i"
    by (cases "list_position (\<lambda>w. w = v) vs") (auto simp: list_position_None_iff)
  note pos = list_position_Some [OF i] and d = mm_wf_distinct [OF wf vs(1)]
  let ?mm = "mm\<lparr>mm_map := bt_insert k (swap_remove vs i) (mm_map mm)\<rparr>"
  have "mm_wf ?mm" using mm_wf_insert_list [OF wf] distinct_swap_remove(1) pos d by blast
  moreover have "mm_entries ?mm = mm_entries mm - {(k, v)}"
  proof -
    have "mm_values_in_point mm k = vs" using vs by (simp add: mm_values_in_point_def)
    moreover have "set (swap_remove vs i) = set vs - {v}" using pos d distinct_swap_remove(2) by blast
    moreover have "bt_wf (mm_map mm)" using wf by (simp add: mm_wf_def)
    ultimately have "(j, w) \<in> mm_entries ?mm \<longleftrightarrow> (j, w) \<in> mm_entries mm - {(k, v)}" for j w
      by (cases "j = k") (simp_all add: mm_entries_def mm_values_in_point_update)
    then show ?thesis by auto
  qed
  ultimately show ?thesis using True vs i by (simp add: mm_delete_def)
qed

lemma mm_entries_Sigma:
  assumes "mm_wf mm"
  shows "mm_entries mm = (SIGMA k:set (map fst (mm_map mm)). set (mm_values_in_point mm k))"
proof -
  have "k \<in> dom (bt_get (mm_map mm))" if "v \<in> set (mm_values_in_point mm k)" for k v
    using that by (cases "bt_get (mm_map mm) k") (auto simp: mm_values_in_point_def)
  then show ?thesis unfolding dom_bt_get by (auto simp: mm_entries_def)
qed

lemma mm_len_card:
  assumes wf: "mm_wf mm"
  shows "finite (mm_entries mm) \<and> mm_len mm = card (mm_entries mm)"
proof -
  have d: "distinct (map fst (mm_map mm))" using wf by (simp add: mm_wf_def bt_wf_distinct)
  have pt: "mm_values_in_point mm k = vs" if "(k, vs) \<in> set (mm_map mm)" for k vs
    using wf that bt_get_iff [of "mm_map mm" k vs] by (simp add: mm_wf_def mm_values_in_point_def)
  then have "map (\<lambda>(_, ptrs). length ptrs) (mm_map mm)
      = map (\<lambda>k. length (mm_values_in_point mm k)) (map fst (mm_map mm))" by auto
  then have "mm_len mm = (\<Sum>k\<in>set (map fst (mm_map mm)). length (mm_values_in_point mm k))"
    using d by (simp only: mm_len_def sum_list_distinct_conv_sum_set)
  also have "\<dots> = (\<Sum>k\<in>set (map fst (mm_map mm)). card (set (mm_values_in_point mm k)))"
    using wf pt by (intro sum.cong) (auto simp: mm_wf_def distinct_card [symmetric])
  finally show ?thesis unfolding mm_entries_Sigma [OF wf] by (simp add: card_SigmaI)
qed

definition mm_admits :: "('k \<times> 'v) set \<Rightarrow> 'k \<Rightarrow> 'v \<Rightarrow> bool" where
  "mm_admits E k v \<longleftrightarrow> True"

interpretation mm: ptr_index mm_wf mm_entries mm_admits mm_insert_op mm_delete_op mm_len
proof unfold_locales
  fix mm :: "('a::linorder, 'b) multi_map" and k v assume wf: "mm_wf mm"
  show "\<exists>mm'. mm_insert_op mm k v = Some mm' \<and> mm_wf mm' \<and> mm_entries mm' = insert (k, v) (mm_entries mm)"
    if "(k, v) \<notin> mm_entries mm"
    using mm_insert_wf [OF wf that] by (simp add: mm_insert_op_def)
  show "\<exists>mm'. mm_delete_op mm k v = Some (True, mm') \<and> mm_wf mm' \<and> mm_entries mm' = mm_entries mm - {(k, v)}"
    if "(k, v) \<in> mm_entries mm"
    using mm_delete_wf [OF wf, of k v] that by (auto simp: mm_delete_op_def)
  show "\<exists>mm'. mm_delete_op mm k v = Some (False, mm') \<and> mm_wf mm' \<and> mm_entries mm' = mm_entries mm"
    if "k \<notin> fst ` mm_entries mm"
    using mm_delete_wf [OF wf, of k v] that by (force simp: mm_delete_op_def image_iff)
  show "finite (mm_entries mm) \<and> mm_len mm = card (mm_entries mm)" using wf by (rule mm_len_card)
qed

definition um_wf :: "('k::linorder, 'v) unique_map \<Rightarrow> bool" where
  "um_wf um \<longleftrightarrow> bt_wf (um_map um)"

definition um_entries :: "('k, 'v) unique_map \<Rightarrow> ('k \<times> 'v) set" where
  "um_entries um = {(k, v). bt_get (um_map um) k = Some v}"

text \<open>The index layer only inserts under a key it has checked; the refused insertion is an error
  value, which stops a run.\<close>

definition um_admits :: "('k \<times> 'v) set \<Rightarrow> 'k \<Rightarrow> 'v \<Rightarrow> bool" where
  "um_admits E k v \<longleftrightarrow> k \<notin> fst ` E"

definition um_insert_op :: "('k::linorder, 'v) unique_map \<Rightarrow> 'k \<Rightarrow> 'v \<Rightarrow> ('k, 'v) unique_map option" where
  "um_insert_op um k v = (case um_insert um k v of (Inl _, _) \<Rightarrow> None | (Inr _, um') \<Rightarrow> Some um')"

definition um_delete_op :: "('k, 'v) unique_map \<Rightarrow> 'k \<Rightarrow> 'v \<Rightarrow> (bool \<times> ('k, 'v) unique_map) option" where
  "um_delete_op um k v = Some (um_delete um k)"

lemma um_key_None: "k \<notin> fst ` um_entries um \<longleftrightarrow> bt_get (um_map um) k = None"
  by (cases "bt_get (um_map um) k") (auto simp: um_entries_def image_iff)

lemma um_entries_set: "um_wf um \<Longrightarrow> um_entries um = set (um_map um)"
  by (auto simp: um_entries_def um_wf_def bt_get_iff)

interpretation um: ptr_index um_wf um_entries um_admits um_insert_op um_delete_op um_len
proof unfold_locales
  fix um :: "('a::linorder, 'b) unique_map" and k v assume wf: "um_wf um"
  show "\<exists>um'. um_insert_op um k v = Some um' \<and> um_wf um' \<and> um_entries um' = insert (k, v) (um_entries um)"
    if "um_admits (um_entries um) k v"
  proof -
    have "bt_get (um_map um) k = None" using that by (simp only: um_admits_def um_key_None)
    then show ?thesis using wf
      by (auto simp: um_insert_op_def um_insert_def um_wf_def um_entries_def bt_wf_insert bt_get_insert
          split: if_splits)
  qed
  show "\<exists>um'. um_delete_op um k v = Some (True, um') \<and> um_wf um' \<and> um_entries um' = um_entries um - {(k, v)}"
    if "(k, v) \<in> um_entries um"
    using that wf
    by (auto simp: um_delete_op_def um_delete_def um_wf_def um_entries_def bt_wf_remove bt_get_remove
        split: if_splits)
  show "\<exists>um'. um_delete_op um k v = Some (False, um') \<and> um_wf um' \<and> um_entries um' = um_entries um"
    if "k \<notin> fst ` um_entries um"
    using that wf unfolding um_key_None
    by (auto simp: um_delete_op_def um_delete_def um_wf_def um_entries_def bt_wf_remove bt_get_remove
        split: if_splits)
  show "finite (um_entries um) \<and> um_len um = card (um_entries um)"
  proof -
    have "distinct (um_map um)" using wf bt_wf_distinct by (auto simp: um_wf_def distinct_map)
    then show ?thesis using wf by (simp add: um_entries_set um_len_def distinct_card)
  qed
qed

subsection \<open>Range scans\<close>

lemma map_snd_values:
  assumes "mm_wf mm"
  shows "map snd (filter (\<lambda>(k, _). P k) (mm_map mm))
    = map (mm_values_in_point mm) (filter P (map fst (mm_map mm)))"
proof -
  have "snd kv = mm_values_in_point mm (fst kv)" if "kv \<in> set (mm_map mm)" for kv
    using assms that bt_get_iff [of "mm_map mm" "fst kv" "snd kv"]
    by (simp add: mm_wf_def mm_values_in_point_def)
  then show ?thesis by (auto simp: filter_map comp_def case_prod_unfold)
qed

lemma mm_default_wf [simp]: "mm_wf mm_default" "mm_entries mm_default = {}"
  by (auto simp: mm_wf_def mm_default_def mm_entries_def mm_values_in_point_def bt_get_def)

lemma um_default_wf [simp]: "um_wf um_default" "um_entries um_default = {}"
  by (auto simp: um_wf_def um_default_def um_entries_def bt_get_def)

lemma find_map_None_iff: "find_map f xs = None \<longleftrightarrow> (\<forall>x\<in>set xs. f x = None)"
  by (induction xs) (auto split: option.splits)

lemma find_map_Some: "find_map f xs = Some y \<Longrightarrow> \<exists>x\<in>set xs. f x = Some y"
  by (induction xs) (auto split: option.splits)

subsection \<open>Properties\<close>

text \<open>Claim C16.  A range scan of a multi-map ends, and yields the values of the keys in the range
  key by key in ascending key order, each key's values being exactly what a point lookup returns; the
  scan panics exactly on the ranges on which an ordered map panics.\<close>

theorem mm_range_scan:
  "mm_wf mm \<Longrightarrow> map_option mri_collect (mm_values_in_range mm r)
     = (if range_panics r then None
        else Some (concat (map (mm_values_in_point mm) (filter (in_range r) (map fst (mm_map mm))))))
     \<and> sorted_wrt (<) (map fst (mm_map mm))"
  using map_snd_values [of mm "in_range r"]
  by (simp add: mm_values_in_range_def bt_range_def mri_collect_pending mri_pending_def mm_wf_def bt_wf_def)

theorem mm_range_scan_witness:
  "map_option mri_collect (mm_values_in_range (mm_insert (mm_insert (mm_insert mm_default (5::nat) (1::nat)) 2 7) 5 3)
       (Included 2, Excluded 9)) = Some [7, 1, 3]"
proof -
  let ?mm = "mm_insert (mm_insert (mm_insert mm_default (5::nat) (1::nat)) 2 7) 5 3"
  have "mm_wf ?mm" by (simp add: mm_wf_def mm_insert_def mm_default_def bt_get_def bt_wf_def)
  from mm_range_scan [OF this, of "(Included 2, Excluded 9)"] show ?thesis
    by (simp add: mm_insert_def mm_default_def bt_get_def in_range_def mm_values_in_point_def)
qed



text \<open>Claim C23.  Inserting into a unique map succeeds exactly when the key is absent and otherwise
  reports the value in place and changes nothing; two unique maps can be merged exactly when every
  key they share has an ignored value in the first, and a refusal names such a value.\<close>

theorem um_insert_merge:
  assumes "um_wf um" and "um_wf other"
  shows "um_insert um k v =
      (case bt_get (um_map um) k of None \<Rightarrow> (Inr (), \<lparr>um_map = bt_insert k v (um_map um)\<rparr>) | Some e \<Rightarrow> (Inl e, um))
    \<and> (um_can_merge um other ig = Inr () \<longleftrightarrow>
        (\<forall>j e f. (j, e) \<in> um_entries um \<longrightarrow> (j, f) \<in> um_entries other \<longrightarrow> ig e))
    \<and> (\<forall>e. um_can_merge um other ig = Inl e \<longrightarrow>
        \<not> ig e \<and> (\<exists>j f. (j, e) \<in> um_entries um \<and> (j, f) \<in> um_entries other))"
proof -
  let ?f = "\<lambda>key. case bt_get (um_map um) key of None \<Rightarrow> None | Some val \<Rightarrow> if \<not> ig val then Some val else None"
  have keys: "j \<in> set (map fst (um_map other)) \<longleftrightarrow> (\<exists>f. (j, f) \<in> um_entries other)" for j
    using assms(2) by (force simp: um_entries_set)
  have f: "?f j = Some e \<longleftrightarrow> (j, e) \<in> um_entries um \<and> \<not> ig e" for j e
    by (auto simp: um_entries_def split: option.splits)
  have fN: "?f j = None \<longleftrightarrow> (\<forall>e. (j, e) \<in> um_entries um \<longrightarrow> ig e)" for j
    by (auto simp: um_entries_def split: option.splits)
  have "find_map ?f (map fst (um_map other)) = None \<longleftrightarrow>
      (\<forall>j e f. (j, e) \<in> um_entries um \<longrightarrow> (j, f) \<in> um_entries other \<longrightarrow> ig e)"
    unfolding find_map_None_iff keys fN [unfolded Ball_def] Ball_def by blast
  moreover have "\<not> ig e \<and> (\<exists>j f. (j, e) \<in> um_entries um \<and> (j, f) \<in> um_entries other)"
    if found: "find_map ?f (map fst (um_map other)) = Some e" for e
  proof -
    obtain j where "j \<in> set (map fst (um_map other))" "?f j = Some e" using find_map_Some [OF found] by blast
    then show ?thesis unfolding keys f by blast
  qed
  moreover have "um\<lparr>um_map := m\<rparr> = \<lparr>um_map = m\<rparr>" for m by simp
  ultimately show ?thesis
    by (auto simp: um_insert_def um_can_merge_def split: option.splits)
qed

theorem um_insert_merge_witness:
  "um_can_merge \<lparr>um_map = [(3::nat, 10::nat), (5, 20)]\<rparr> \<lparr>um_map = [(5, 1), (8, 2)]\<rparr> (\<lambda>e. e = 20) = Inr ()"
  using um_insert_merge [of "\<lparr>um_map = [(3::nat, 10::nat), (5, 20)]\<rparr>" "\<lparr>um_map = [(5, 1), (8, 2)]\<rparr>" 0 0
      "\<lambda>e. e = 20"]
  by (simp add: um_wf_def bt_wf_def um_entries_set)

text \<open>A key whose last value was deleted keeps its empty vector, so \<^const>\<open>mm_num_keys\<close> goes on
  counting it although no value is left under it.\<close>

lemma mm_num_keys_counts_emptied:
  "let mm = snd (mm_delete (mm_insert mm_default k v) k v)
   in mm_num_keys mm = 1 \<and> mm_len mm = 0 \<and> mm_values_in_point mm k = []"
  by (simp add: Let_def mm_insert_def mm_delete_def mm_default_def bt_get_def swap_remove_def
      mm_num_keys_def mm_len_def mm_values_in_point_def)

end
