(* ===== verification/Direct_Index.thy ===== *)
theory Direct_Index
  imports Row_Pointer Std_Collections Index_Interface
begin

text \<open>
  \<^verbatim>\<open>crates/table/src/table_index/unique_direct_index.rs\<close> and
  \<^verbatim>\<open>unique_direct_fixed_cap_index.rs\<close>: unique indices over small integer keys, as arrays of
  row pointers in which the all-zero pointer marks a free slot and the reserved bit marks an occupied
  one.  Keys are \<^verbatim>\<open>usize\<close>; sums that can exceed it wrap, as in a release build.
\<close>

subsection \<open>UniqueDirectIndex\<close>

definition DIRECT_PAGE_SIZE :: nat where
  "DIRECT_PAGE_SIZE = 4096"

definition KEYS_PER_INNER :: nat where
  "KEYS_PER_INNER = DIRECT_PAGE_SIZE div 8"

definition NONE_PTR :: row_pointer where
  "NONE_PTR = row_pointer_new False 0 0 TX_STATE"

type_synonym inner_index = "row_pointer list"

record unique_direct_index =
  outer :: "inner_index option list"
  udi_len :: nat

definition udi_default :: unique_direct_index where
  "udi_default = \<lparr>outer = [], udi_len = 0\<rparr>"

definition split_key :: "nat \<Rightarrow> nat \<times> nat" where
  "split_key key = (key div KEYS_PER_INNER, key mod KEYS_PER_INNER)"

text \<open>Zero-initialised memory is an array of \<^const>\<open>NONE_PTR\<close>.\<close>

definition inner_index_new :: inner_index where
  "inner_index_new = replicate KEYS_PER_INNER (RowPointer 0)"

definition vec_resize :: "'a list \<Rightarrow> nat \<Rightarrow> 'a \<Rightarrow> 'a list" where
  "vec_resize xs n x = take n xs @ replicate (n - length xs) x"

definition udi_insert ::
  "unique_direct_index \<Rightarrow> nat \<Rightarrow> row_pointer \<Rightarrow> (row_pointer + unit) \<times> unique_direct_index" where
  "udi_insert u key val =
     (let (key_outer, key_inner) = split_key key;
          out = vec_resize (outer u) (max (length (outer u)) (key_outer + 1)) None;
          inn = (case out ! key_outer of None \<Rightarrow> inner_index_new | Some i \<Rightarrow> i);
          in_slot = inn ! key_inner
      in if in_slot = NONE_PTR
         then (Inr (), \<lparr>outer = out[key_outer := Some (inn[key_inner := with_reserved_bit val True])],
                        udi_len = udi_len u + 1\<rparr>)
         else (Inl (with_reserved_bit in_slot False), u\<lparr>outer := out[key_outer := Some inn]\<rparr>))"

definition udi_delete :: "unique_direct_index \<Rightarrow> nat \<Rightarrow> bool \<times> unique_direct_index" where
  "udi_delete u key =
     (let (key_outer, key_inner) = split_key key
      in if key_outer < length (outer u)
         then (case outer u ! key_outer of
                 None \<Rightarrow> (False, u)
               | Some inn \<Rightarrow>
                   let old_val = inn ! key_inner;
                       deleted = (old_val \<noteq> NONE_PTR)
                   in (deleted, \<lparr>outer = (outer u)[key_outer := Some (inn[key_inner := NONE_PTR])],
                                 udi_len = udi_len u - of_bool deleted\<rparr>))
         else (False, u))"

definition point_iter_new :: "row_pointer option \<Rightarrow> row_pointer list" where
  "point_iter_new point = (case point of None \<Rightarrow> [] | Some ptr \<Rightarrow> [with_reserved_bit ptr False])"

text \<open>The slot of a key, if its inner index exists.\<close>

definition udi_slot :: "inner_index option list \<Rightarrow> nat \<Rightarrow> row_pointer option" where
  "udi_slot out key =
     (let (outer_key, inner_key) = split_key key
      in if outer_key < length out then map_option (\<lambda>inn. inn ! inner_key) (out ! outer_key) else None)"

definition udi_seek_point :: "unique_direct_index \<Rightarrow> nat \<Rightarrow> row_pointer list" where
  "udi_seek_point u key =
     point_iter_new (case udi_slot (outer u) key of
                       None \<Rightarrow> None
                     | Some slot \<Rightarrow> if slot \<noteq> NONE_PTR then Some slot else None)"

record udi_range_iter =
  uri_outer :: "inner_index option list"
  uri_start :: nat
  uri_end :: nat

definition udi_seek_range :: "unique_direct_index \<Rightarrow> nat bound \<times> nat bound \<Rightarrow> udi_range_iter" where
  "udi_seek_range u rng =
     (let max_key = length (outer u) * KEYS_PER_INNER;
          start = (case fst rng of
                     Included s \<Rightarrow> s | Excluded s \<Rightarrow> usize_wrap (s + 1) | Unbounded \<Rightarrow> 0);
          en = (case snd rng of
                  Included e \<Rightarrow> usize_wrap (e + 1) | Excluded e \<Rightarrow> e | Unbounded \<Rightarrow> max_key);
          en = min en max_key;
          start = min start en
      in \<lparr>uri_outer = outer u, uri_start = start, uri_end = en\<rparr>)"

text \<open>The \<^verbatim>\<open>loop\<close> of the range iterator.  An uninitialised inner index advances the start by
  a whole \<^const>\<open>KEYS_PER_INNER\<close>, whatever the position within it.\<close>

function uri_loop :: "inner_index option list \<Rightarrow> nat \<Rightarrow> nat \<Rightarrow> (row_pointer \<times> udi_range_iter) option" where
  "uri_loop out start en =
     (if start \<ge> en then None
      else let (outer_key, inner_key) = split_key start
           in (case out ! outer_key of
                 None \<Rightarrow> uri_loop out (start + KEYS_PER_INNER) en
               | Some inn \<Rightarrow>
                   let ptr = inn ! inner_key
                   in if ptr \<noteq> NONE_PTR
                      then Some (with_reserved_bit ptr False,
                                 \<lparr>uri_outer = out, uri_start = start + 1, uri_end = en\<rparr>)
                      else uri_loop out (start + 1) en))"
  by pat_completeness auto
termination
  by (relation "measure (\<lambda>(out, start, en). en - start)")
    (auto simp: KEYS_PER_INNER_def DIRECT_PAGE_SIZE_def)

declare uri_loop.simps [simp del]

definition uri_next :: "udi_range_iter \<Rightarrow> (row_pointer \<times> udi_range_iter) option" where
  "uri_next it = uri_loop (uri_outer it) (uri_start it) (uri_end it)"

definition udi_num_keys :: "unique_direct_index \<Rightarrow> nat" where
  "udi_num_keys u = udi_len u"

definition udi_is_empty :: "unique_direct_index \<Rightarrow> bool" where
  "udi_is_empty u \<longleftrightarrow> udi_len u = 0"

definition udi_clear :: "unique_direct_index \<Rightarrow> unique_direct_index" where
  "udi_clear u = \<lparr>outer = [], udi_len = 0\<rparr>"

text \<open>Both nested \<^verbatim>\<open>for\<close> loops of \<^verbatim>\<open>can_merge\<close>; the inner one is shared with the fixed
  capacity index.\<close>

fun can_merge_slots ::
  "(row_pointer \<Rightarrow> bool) \<Rightarrow> (row_pointer \<times> row_pointer) list \<Rightarrow> row_pointer + unit" where
  "can_merge_slots ignore [] = Inr ()"
| "can_merge_slots ignore ((slot_s, slot_o) # slots) =
     (let ptr_s = with_reserved_bit slot_s False
      in if slot_s \<noteq> NONE_PTR \<and> slot_o \<noteq> NONE_PTR \<and> \<not> ignore ptr_s then Inl ptr_s
         else can_merge_slots ignore slots)"

fun can_merge_inners ::
  "(row_pointer \<Rightarrow> bool) \<Rightarrow> (inner_index option \<times> inner_index option) list \<Rightarrow> row_pointer + unit" where
  "can_merge_inners ignore [] = Inr ()"
| "can_merge_inners ignore ((Some inner_s, Some inner_o) # rest) =
     (case can_merge_slots ignore (zip inner_s inner_o) of
        Inl p \<Rightarrow> Inl p
      | Inr _ \<Rightarrow> can_merge_inners ignore rest)"
| "can_merge_inners ignore (_ # rest) = can_merge_inners ignore rest"

definition udi_can_merge ::
  "unique_direct_index \<Rightarrow> unique_direct_index \<Rightarrow> (row_pointer \<Rightarrow> bool) \<Rightarrow> row_pointer + unit" where
  "udi_can_merge u other ignore = can_merge_inners ignore (zip (outer u) (outer other))"

subsection \<open>UniqueDirectFixedCapIndex\<close>

record fixed_cap_index =
  fci_array :: "row_pointer list"
  fci_len :: nat

definition fci_new :: "nat \<Rightarrow> fixed_cap_index" where
  "fci_new cap = \<lparr>fci_array = replicate cap NONE_PTR, fci_len = 0\<rparr>"

definition fci_clone_structure :: "fixed_cap_index \<Rightarrow> fixed_cap_index" where
  "fci_clone_structure f = fci_new (length (fci_array f))"

definition fci_insert ::
  "fixed_cap_index \<Rightarrow> nat \<Rightarrow> row_pointer \<Rightarrow> ((row_pointer + unit) \<times> fixed_cap_index) option" where
  "fci_insert f key val =
     (if key < length (fci_array f)
      then let in_slot = fci_array f ! key
           in if in_slot = NONE_PTR
              then Some (Inr (), \<lparr>fci_array = (fci_array f)[key := with_reserved_bit val True],
                                  fci_len = fci_len f + 1\<rparr>)
              else Some (Inl (with_reserved_bit in_slot False), f)
      else None)"

definition fci_delete :: "fixed_cap_index \<Rightarrow> nat \<Rightarrow> bool \<times> fixed_cap_index" where
  "fci_delete f key =
     (if key < length (fci_array f)
      then let old_val = fci_array f ! key;
               deleted = (old_val \<noteq> NONE_PTR)
           in (deleted, \<lparr>fci_array = (fci_array f)[key := NONE_PTR],
                         fci_len = fci_len f - of_bool deleted\<rparr>)
      else (False, f))"

definition fci_seek_point :: "fixed_cap_index \<Rightarrow> nat \<Rightarrow> row_pointer list" where
  "fci_seek_point f key =
     point_iter_new (if key < length (fci_array f) \<and> fci_array f ! key \<noteq> NONE_PTR
                     then Some (fci_array f ! key) else None)"

text \<open>What the range iterator yields: the occupied slots of the slice, in order;
  \<^verbatim>\<open>get(start..end)\<close> is empty when the end exceeds the array.\<close>

definition fci_seek_range :: "fixed_cap_index \<Rightarrow> nat bound \<times> nat bound \<Rightarrow> row_pointer list" where
  "fci_seek_range f rng =
     (let en = (case snd rng of
                  Included e \<Rightarrow> usize_wrap (e + 1) | Excluded e \<Rightarrow> e | Unbounded \<Rightarrow> length (fci_array f));
          start = (case fst rng of
                     Included s \<Rightarrow> s | Excluded s \<Rightarrow> usize_wrap (s + 1) | Unbounded \<Rightarrow> 0);
          start = min start en;
          slice = (if en \<le> length (fci_array f) then take (en - start) (drop start (fci_array f)) else [])
      in map (\<lambda>ptr. with_reserved_bit ptr False) (filter (\<lambda>slot. slot \<noteq> NONE_PTR) slice))"

definition fci_num_keys :: "fixed_cap_index \<Rightarrow> nat" where
  "fci_num_keys f = fci_len f"

definition fci_is_empty :: "fixed_cap_index \<Rightarrow> bool" where
  "fci_is_empty f \<longleftrightarrow> fci_len f = 0"

definition fci_clear :: "fixed_cap_index \<Rightarrow> fixed_cap_index" where
  "fci_clear f = \<lparr>fci_array = map (\<lambda>_. NONE_PTR) (fci_array f), fci_len = 0\<rparr>"

definition fci_can_merge ::
  "fixed_cap_index \<Rightarrow> fixed_cap_index \<Rightarrow> (row_pointer \<Rightarrow> bool) \<Rightarrow> row_pointer + unit" where
  "fci_can_merge f other ignore = can_merge_slots ignore (zip (fci_array f) (fci_array other))"

subsection \<open>The slots as a partial map\<close>

lemma KEYS_PER_INNER [simp]: "KEYS_PER_INNER = 512"
  by (simp add: KEYS_PER_INNER_def DIRECT_PAGE_SIZE_def)

lemma NONE_PTR_bits: "NONE_PTR = RowPointer 0"
  by (rule row_pointer.expand)
    (simp add: NONE_PTR_def row_pointer_new_def ptr_with_field_put field_put_def TX_STATE_def)

lemma reserved_not_NONE [simp]: "with_reserved_bit p True \<noteq> NONE_PTR"
  by (metis NONE_PTR_def reserved_bit_with(1) row_pointer_new_fields(1))

lemma with_reserved_twice [simp]:
  "\<not> reserved_bit p \<Longrightarrow> with_reserved_bit (with_reserved_bit p True) False = p"
  by (rule row_pointer_eqI) simp_all

definition slot_ptr :: "row_pointer \<Rightarrow> row_pointer option" where
  "slot_ptr slot = (if slot = NONE_PTR then None else Some (with_reserved_bit slot False))"

definition udi_get :: "inner_index option list \<Rightarrow> nat \<Rightarrow> row_pointer option" where
  "udi_get out k = Option.bind (udi_slot out k) slot_ptr"

definition outer_wf :: "inner_index option list \<Rightarrow> bool" where
  "outer_wf out \<longleftrightarrow> (\<forall>inn. Some inn \<in> set out \<longrightarrow> length inn = 512)"

definition udi_entries :: "unique_direct_index \<Rightarrow> (nat \<times> row_pointer) set" where
  "udi_entries u = {(k, p). udi_get (outer u) k = Some p}"

definition udi_wf :: "unique_direct_index \<Rightarrow> bool" where
  "udi_wf u \<longleftrightarrow> outer_wf (outer u) \<and> udi_len u = card (udi_entries u)"

lemma slot_ptr_simps [simp]:
  "slot_ptr NONE_PTR = None"
  "\<not> reserved_bit p \<Longrightarrow> slot_ptr (with_reserved_bit p True) = Some p"
  by (simp_all add: slot_ptr_def)

lemma udi_slot_eq:
  "udi_slot out k = (if k div 512 < length out then map_option (\<lambda>inn. inn ! (k mod 512)) (out ! (k div 512)) else None)"
  by (simp add: udi_slot_def split_key_def)

lemma udi_seek_point_get:
  "udi_seek_point u k = (case udi_get (outer u) k of None \<Rightarrow> [] | Some p \<Rightarrow> [p])"
  by (auto simp: udi_seek_point_def udi_get_def point_iter_new_def slot_ptr_def split: option.splits)

lemma vec_resize_grow: "length xs \<le> n \<Longrightarrow> vec_resize xs n x = xs @ replicate (n - length xs) x"
  by (simp add: vec_resize_def)

lemma udi_get_grow: "udi_get (out @ replicate n None) = udi_get out"
proof
  show "udi_get (out @ replicate n None) k = udi_get out k" for k
    by (simp add: udi_get_def udi_slot_eq nth_append)
qed

lemma outer_wf_grow: "outer_wf out \<Longrightarrow> outer_wf (out @ replicate n None)"
  by (auto simp: outer_wf_def)

lemma outer_wf_update: "outer_wf out \<Longrightarrow> length inn = 512 \<Longrightarrow> outer_wf (out[i := Some inn])"
  using set_update_subset_insert [of out i "Some inn"] by (auto simp: outer_wf_def)

text \<open>Writing one slot of the inner index that holds a key, created empty if it is missing.\<close>

lemma udi_get_write:
  assumes "key div 512 < length out" and "length inn = 512"
    and inn: "out ! (key div 512) = None \<longrightarrow> inn = inner_index_new"
      "\<forall>i. out ! (key div 512) = Some i \<longrightarrow> inn = i"
  shows "udi_get (out[key div 512 := Some (inn[key mod 512 := x])]) = (udi_get out)(key := slot_ptr x)"
proof
  fix k
  show "udi_get (out[key div 512 := Some (inn[key mod 512 := x])]) k = ((udi_get out)(key := slot_ptr x)) k"
  proof (cases "k div 512 = key div 512")
    case same: True
    have eq: "key mod 512 = k mod 512 \<longleftrightarrow> k = key" using same by (metis div_mult_mod_eq)
    have mod: "k mod 512 < 512" by simp
    show ?thesis
    proof (cases "out ! (key div 512)")
      case None
      then have "inn ! (k mod 512) = NONE_PTR"
        using inn(1) mod by (simp add: inner_index_new_def NONE_PTR_bits)
      then show ?thesis
        using same eq None assms(1,2) by (simp add: udi_get_def udi_slot_eq nth_list_update)
    next
      case (Some i)
      then show ?thesis
        using same eq inn(2) assms(1,2) by (simp add: udi_get_def udi_slot_eq nth_list_update)
    qed
  next
    case False
    then show ?thesis using assms(1) by (auto simp: udi_get_def udi_slot_eq nth_list_update)
  qed
qed

lemma dom_udi_get: "dom (udi_get out) \<subseteq> {..<length out * 512}"
  by (auto simp: udi_get_def udi_slot_eq less_mult_imp_div_less split: if_splits)

lemma graph_card: "finite (dom f) \<Longrightarrow> finite {(k, p). f k = Some p} \<and> card {(k, p). f k = Some p} = card (dom f)"
proof -
  assume fin: "finite (dom f)"
  have "bij_betw fst {(k, p). f k = Some p} (dom f)"
    by (auto simp: bij_betw_def inj_on_def image_iff)
  then show ?thesis using fin bij_betw_finite bij_betw_same_card by blast
qed

lemma udi_entries_card: "finite (udi_entries u) \<and> card (udi_entries u) = card (dom (udi_get (outer u)))"
  unfolding udi_entries_def using dom_udi_get [of "outer u"] by (intro graph_card) (rule finite_subset, auto)

lemma udi_insert_wf:
  assumes wf: "udi_wf u" and p: "\<not> reserved_bit p" and free: "udi_get (outer u) k = None"
  shows "\<exists>u'. udi_insert u k p = (Inr (), u') \<and> udi_wf u' \<and> udi_get (outer u') = (udi_get (outer u))(k \<mapsto> p)"
proof -
  define out where "out = outer u @ replicate (max (length (outer u)) (k div 512 + 1) - length (outer u)) None"
  define inn where "inn = (case out ! (k div 512) of None \<Rightarrow> inner_index_new | Some i \<Rightarrow> i)"
  have res: "vec_resize (outer u) (max (length (outer u)) (k div 512 + 1)) None = out"
    by (simp add: out_def vec_resize_grow)
  have lt: "k div 512 < length out" by (simp add: out_def)
  have owf: "outer_wf out" using wf by (simp add: out_def udi_wf_def outer_wf_grow)
  have len: "length inn = 512"
  proof (cases "out ! (k div 512)")
    case (Some i)
    then have "Some i \<in> set out" using lt by (metis nth_mem)
    with Some owf show ?thesis by (simp add: inn_def outer_wf_def)
  qed (simp add: inn_def inner_index_new_def)
  have get: "udi_get out = udi_get (outer u)" by (simp add: out_def udi_get_grow)
  have slot: "inn ! (k mod 512) = NONE_PTR"
  proof (cases "out ! (k div 512)")
    case None
    then show ?thesis by (simp add: inn_def inner_index_new_def NONE_PTR_bits)
  next
    case (Some i)
    then show ?thesis using free lt unfolding get [symmetric]
      by (simp add: inn_def udi_get_def udi_slot_eq slot_ptr_def split: if_splits)
  qed
  define u' where "u' = \<lparr>outer = out[k div 512 := Some (inn[k mod 512 := with_reserved_bit p True])],
    udi_len = udi_len u + 1\<rparr>"
  have ins: "udi_insert u k p = (Inr (), u')"
    using slot by (simp add: udi_insert_def split_key_def res [simplified] inn_def [symmetric] Let_def u'_def)
  have get': "udi_get (outer u') = (udi_get (outer u))(k \<mapsto> p)"
    using udi_get_write [OF lt len, of "with_reserved_bit p True"] p
    by (simp add: u'_def get inn_def)
  have "finite (dom (udi_get (outer u)))" using dom_udi_get by (rule finite_subset) simp
  then have "udi_wf u'"
    using wf owf len free udi_entries_card [of u'] udi_entries_card [of u]
    by (simp add: udi_wf_def get' domIff) (simp add: u'_def outer_wf_update)
  with ins get' show ?thesis by blast
qed

lemma udi_delete_wf:
  assumes wf: "udi_wf u"
  shows "\<exists>u'. udi_delete u k = (udi_get (outer u) k \<noteq> None, u') \<and> udi_wf u' \<and>
    udi_get (outer u') = (udi_get (outer u))(k := None)"
proof (cases "k div 512 < length (outer u) \<and> outer u ! (k div 512) \<noteq> None")
  case False
  then have "udi_get (outer u) k = None" by (auto simp: udi_get_def udi_slot_eq)
  moreover have "udi_delete u k = (False, u)" using False by (auto simp: udi_delete_def split_key_def)
  ultimately show ?thesis using wf by (simp add: fun_upd_idem)
next
  case True
  then obtain inn where inn: "k div 512 < length (outer u)" "outer u ! (k div 512) = Some inn" by auto
  have len: "length inn = 512" using wf inn by (metis nth_mem outer_wf_def udi_wf_def)
  define u' where "u' = \<lparr>outer = (outer u)[k div 512 := Some (inn[k mod 512 := NONE_PTR])],
    udi_len = udi_len u - of_bool (udi_get (outer u) k \<noteq> None)\<rparr>"
  have g: "udi_get (outer u) k \<noteq> None \<longleftrightarrow> inn ! (k mod 512) \<noteq> NONE_PTR"
    using inn by (simp add: udi_get_def udi_slot_eq slot_ptr_def)
  have del: "udi_delete u k = (udi_get (outer u) k \<noteq> None, u')"
    using inn unfolding u'_def g by (simp add: udi_delete_def split_key_def Let_def)
  have get': "udi_get (outer u') = (udi_get (outer u))(k := None)"
  proof -
    have "udi_get ((outer u)[k div 512 := Some (inn[k mod 512 := NONE_PTR])])
        = (udi_get (outer u))(k := slot_ptr NONE_PTR)"
      by (rule udi_get_write [OF inn(1) len]) (simp_all add: inn(2))
    then show ?thesis by (simp only: u'_def unique_direct_index.simps slot_ptr_simps)
  qed
  have fin: "finite (dom (udi_get (outer u)))" using dom_udi_get by (rule finite_subset) simp
  have "outer_wf (outer u')" using wf len by (simp add: udi_wf_def u'_def outer_wf_update)
  moreover have "udi_len u' = card (dom (udi_get (outer u)) - {k})"
    using wf fin udi_entries_card [of u] by (simp add: u'_def udi_wf_def domIff card_Diff_singleton_if)
  ultimately have "udi_wf u'"
    using udi_entries_card [of u'] by (simp add: udi_wf_def get')
  with del get' show ?thesis by blast
qed

definition udi_admits :: "(nat \<times> row_pointer) set \<Rightarrow> nat \<Rightarrow> row_pointer \<Rightarrow> bool" where
  "udi_admits E k p \<longleftrightarrow> \<not> reserved_bit p \<and> k \<notin> fst ` E"

definition udi_insert_op :: "unique_direct_index \<Rightarrow> nat \<Rightarrow> row_pointer \<Rightarrow> unique_direct_index option" where
  "udi_insert_op u k p = (case udi_insert u k p of (Inl _, _) \<Rightarrow> None | (Inr _, u') \<Rightarrow> Some u')"

definition udi_delete_op ::
  "unique_direct_index \<Rightarrow> nat \<Rightarrow> row_pointer \<Rightarrow> (bool \<times> unique_direct_index) option" where
  "udi_delete_op u k p = Some (udi_delete u k)"

lemma graph_key_None: "k \<notin> fst ` {(k, p). f k = Some p} \<longleftrightarrow> f k = None"
  by (cases "f k") (auto simp: image_iff)

interpretation udi: ptr_index udi_wf udi_entries udi_admits udi_insert_op udi_delete_op udi_len
proof unfold_locales
  fix u k p assume wf: "udi_wf u"
  show "\<exists>u'. udi_insert_op u k p = Some u' \<and> udi_wf u' \<and> udi_entries u' = insert (k, p) (udi_entries u)"
    if "udi_admits (udi_entries u) k p"
  proof -
    have "udi_get (outer u) k = None" "\<not> reserved_bit p"
      using that unfolding udi_admits_def udi_entries_def graph_key_None by simp_all
    from udi_insert_wf [OF wf this(2,1)] this(1) show ?thesis
      by (auto simp: udi_insert_op_def udi_entries_def split: if_splits)
  qed
  show "\<exists>u'. udi_delete_op u k p = Some (True, u') \<and> udi_wf u' \<and> udi_entries u' = udi_entries u - {(k, p)}"
    if "(k, p) \<in> udi_entries u"
    using udi_delete_wf [OF wf, of k] that
    by (auto simp: udi_delete_op_def udi_entries_def split: if_splits)
  show "\<exists>u'. udi_delete_op u k p = Some (False, u') \<and> udi_wf u' \<and> udi_entries u' = udi_entries u"
    if "k \<notin> fst ` udi_entries u"
    using udi_delete_wf [OF wf, of k] that unfolding udi_entries_def graph_key_None
    by (auto simp: udi_delete_op_def fun_upd_idem)
  show "finite (udi_entries u) \<and> udi_len u = card (udi_entries u)"
    using wf udi_entries_card [of u] by (simp add: udi_wf_def)
qed

lemma udi_default_wf: "udi_wf udi_default" "udi_entries udi_default = {}"
  by (auto simp: udi_wf_def udi_default_def outer_wf_def udi_entries_def udi_get_def udi_slot_eq)

subsection \<open>Range scans of the direct index\<close>

lemma uri_loop_end: "e \<le> s \<Longrightarrow> uri_loop out s e = None"
  by (simp add: uri_loop.simps [of out s e])

lemma uri_loop_skip: "s < e \<Longrightarrow> out ! (s div 512) = None \<Longrightarrow> uri_loop out s e = uri_loop out (s + 512) e"
  by (simp add: uri_loop.simps [of out s e] split_key_def)

lemma uri_loop_slot:
  "s < e \<Longrightarrow> out ! (s div 512) = Some inn \<Longrightarrow> uri_loop out s e =
     (case slot_ptr (inn ! (s mod 512)) of
        None \<Rightarrow> uri_loop out (Suc s) e
      | Some p \<Rightarrow> Some (p, \<lparr>uri_outer = out, uri_start = Suc s, uri_end = e\<rparr>))"
  by (simp add: uri_loop.simps [of out s e] split_key_def Let_def slot_ptr_def)

lemma uri_loop_progress: "uri_loop out s e = Some (p, it) \<Longrightarrow> uri_outer it = out \<and> uri_end it = e \<and> s < uri_start it"
proof (induction "e - s" arbitrary: s rule: less_induct)
  case less
  consider "e \<le> s" | "s < e" "out ! (s div 512) = None" | inn where "s < e" "out ! (s div 512) = Some inn"
    by fastforce
  then show ?case
  proof cases
    case 1
    with less.prems show ?thesis by (simp add: uri_loop_end)
  next
    case 2
    then have "e - (s + 512) < e - s" by linarith
    from less.hyps [OF this] less.prems uri_loop_skip [OF 2] show ?thesis by simp
  next
    case 3
    then have "e - Suc s < e - s" by linarith
    from less.hyps [OF this] less.prems uri_loop_slot [OF 3] show ?thesis
      by (simp split: option.splits) auto
  qed
qed

lemma uri_loop_bound: "uri_loop out s e = Some x \<Longrightarrow> s < e"
  using uri_loop_end [of e s out] by (cases "e \<le> s") auto

function uri_collect :: "udi_range_iter \<Rightarrow> row_pointer list" where
  "uri_collect it = (case uri_next it of None \<Rightarrow> [] | Some (p, it') \<Rightarrow> p # uri_collect it')"
  by pat_completeness auto
termination
proof (relation "measure (\<lambda>it. uri_end it - uri_start it)", simp)
  fix it :: udi_range_iter and x p it'
  assume "uri_next it = Some x" "(p, it') = x"
  then have "uri_loop (uri_outer it) (uri_start it) (uri_end it) = Some (p, it')" by (simp add: uri_next_def)
  from uri_loop_progress [OF this] uri_loop_bound [OF this]
  show "(it', it) \<in> measure (\<lambda>it. uri_end it - uri_start it)" by auto
qed

declare uri_collect.simps [simp del]

definition scan_ok :: "inner_index option list \<Rightarrow> nat \<Rightarrow> nat \<Rightarrow> bool" where
  "scan_ok out s e \<longleftrightarrow> e \<le> s \<or> s mod 512 = 0 \<or> out ! (s div 512) \<noteq> None"

definition scan_spec :: "inner_index option list \<Rightarrow> nat \<Rightarrow> nat \<Rightarrow> row_pointer list" where
  "scan_spec out s e = List.map_filter (udi_get out) [s..<e]"

lemma scan_spec_step:
  "s < e \<Longrightarrow> scan_spec out s e
     = (case udi_get out s of None \<Rightarrow> [] | Some p \<Rightarrow> [p]) @ scan_spec out (Suc s) e"
  by (simp add: scan_spec_def upt_conv_Cons map_filter_simps split: option.splits)

lemma scan_spec_skip:
  assumes "\<And>k. s \<le> k \<Longrightarrow> k < t \<Longrightarrow> udi_get out k = None" and "s \<le> t"
  shows "scan_spec out s e = scan_spec out t e"
proof (cases "t \<le> e")
  case True
  then have "[s..<e] = [s..<t] @ [t..<e]"
    using assms(2) upt_add_eq_append [of s t "e - t"] by simp
  moreover have "List.map_filter (udi_get out) [s..<t] = []"
    using assms(1) by (auto simp: map_filter_def filter_empty_conv)
  ultimately show ?thesis by (simp add: scan_spec_def map_filter_def)
next
  case False
  then show ?thesis using assms(1) by (auto simp: scan_spec_def map_filter_def filter_empty_conv)
qed

lemma scan_ok_Suc: "out ! (s div 512) \<noteq> None \<Longrightarrow> scan_ok out (Suc s) e"
  by (cases "Suc s mod 512 = 0") (auto simp: scan_ok_def div_Suc)

lemma uri_collect_loop:
  "uri_collect \<lparr>uri_outer = out, uri_start = s, uri_end = e\<rparr>
     = (case uri_loop out s e of None \<Rightarrow> [] | Some (p, it) \<Rightarrow> p # uri_collect it)"
  by (simp add: uri_collect.simps [of "\<lparr>uri_outer = out, uri_start = s, uri_end = e\<rparr>"] uri_next_def)

lemma uri_collect_spec:
  "e \<le> length out * 512 \<Longrightarrow> scan_ok out s e \<Longrightarrow>
     uri_collect \<lparr>uri_outer = out, uri_start = s, uri_end = e\<rparr> = scan_spec out s e"
proof (induction "e - s" arbitrary: s rule: less_induct)
  case less
  consider "e \<le> s" | "s < e" "out ! (s div 512) = None" | inn where "s < e" "out ! (s div 512) = Some inn"
    by fastforce
  then show ?case
  proof cases
    case 1
    then show ?thesis by (simp add: uri_collect_loop uri_loop_end scan_spec_def map_filter_simps)
  next
    case 2
    then have al: "s mod 512 = 0" using less.prems by (simp add: scan_ok_def)
    have "udi_get out k = None" if "s \<le> k" "k < s + 512" for k
    proof -
      have "512 * (s div 512) = s" using al mult_div_mod_eq [of 512 s] by simp
      then have "k div 512 = s div 512" using that by (intro div_nat_eqI) simp_all
      then show ?thesis using 2 by (simp add: udi_get_def udi_slot_eq)
    qed
    then have "scan_spec out s e = scan_spec out (s + 512) e" by (rule scan_spec_skip) simp_all
    moreover have "scan_ok out (s + 512) e" using al by (simp add: scan_ok_def)
    moreover have "e - (s + 512) < e - s" using 2 by linarith
    ultimately show ?thesis
      using less.hyps [of "s + 512"] less.prems(1) uri_loop_skip [OF 2]
      by (simp add: uri_collect_loop [of out s] uri_collect_loop [of out "s + 512"])
  next
    case 3
    have "s div 512 < length out" using 3 less.prems(1) by (simp add: less_mult_imp_div_less)
    then have get: "udi_get out s = slot_ptr (inn ! (s mod 512))" using 3 by (simp add: udi_get_def udi_slot_eq)
    have "scan_ok out (Suc s) e" using 3 by (intro scan_ok_Suc) simp
    then have "uri_collect \<lparr>uri_outer = out, uri_start = Suc s, uri_end = e\<rparr> = scan_spec out (Suc s) e"
      using 3 less.hyps [of "Suc s"] less.prems(1) by simp
    then show ?thesis
      using 3 get uri_loop_slot [OF 3]
      by (cases "slot_ptr (inn ! (s mod 512))")
        (simp_all add: uri_collect_loop [of out s] uri_collect_loop [of out "Suc s"] scan_spec_step)
  qed
qed

subsection \<open>The fixed-capacity index\<close>

definition fci_get :: "row_pointer list \<Rightarrow> nat \<Rightarrow> row_pointer option" where
  "fci_get arr k = (if k < length arr then slot_ptr (arr ! k) else None)"

definition fci_entries :: "fixed_cap_index \<Rightarrow> (nat \<times> row_pointer) set" where
  "fci_entries f = {(k, p). fci_get (fci_array f) k = Some p}"

definition fci_wf :: "nat \<Rightarrow> fixed_cap_index \<Rightarrow> bool" where
  "fci_wf cap f \<longleftrightarrow> length (fci_array f) = cap \<and> fci_len f = card (fci_entries f)"

lemma fci_entries_card: "finite (fci_entries f) \<and> card (fci_entries f) = card (dom (fci_get (fci_array f)))"
proof -
  have "dom (fci_get (fci_array f)) \<subseteq> {..<length (fci_array f)}" by (auto simp: fci_get_def split: if_splits)
  then show ?thesis unfolding fci_entries_def by (intro graph_card) (rule finite_subset, auto)
qed

lemma fci_get_write:
  "k < length arr \<Longrightarrow> fci_get (arr[k := x]) = (fci_get arr)(k := slot_ptr x)"
  by (auto simp: fci_get_def fun_eq_iff nth_list_update)

lemma fci_finite_dom: "finite (dom (fci_get arr))"
  by (rule finite_subset [of _ "{..<length arr}"]) (auto simp: fci_get_def split: if_splits)

lemma fci_insert_wf:
  assumes wf: "fci_wf cap f" and "k < cap" and p: "\<not> reserved_bit p" and free: "fci_get (fci_array f) k = None"
  shows "\<exists>f'. fci_insert f k p = Some (Inr (), f') \<and> fci_wf cap f' \<and>
    fci_get (fci_array f') = (fci_get (fci_array f))(k \<mapsto> p)"
proof -
  have k: "k < length (fci_array f)" using wf assms(2) by (simp add: fci_wf_def)
  define f' where "f' = \<lparr>fci_array = (fci_array f)[k := with_reserved_bit p True], fci_len = fci_len f + 1\<rparr>"
  have ins: "fci_insert f k p = Some (Inr (), f')"
    using free k by (simp add: fci_insert_def f'_def fci_get_def slot_ptr_def Let_def split: if_splits)
  have get: "fci_get (fci_array f') = (fci_get (fci_array f))(k \<mapsto> p)"
    using k p by (simp add: f'_def fci_get_write)
  have "fci_wf cap f'"
    using wf free fci_entries_card [of f'] fci_entries_card [of f] fci_finite_dom [of "fci_array f"]
    by (simp add: fci_wf_def get domIff) (simp add: f'_def)
  with ins get show ?thesis by blast
qed

lemma fci_delete_wf:
  assumes wf: "fci_wf cap f"
  shows "\<exists>f'. fci_delete f k = (fci_get (fci_array f) k \<noteq> None, f') \<and> fci_wf cap f' \<and>
    fci_get (fci_array f') = (fci_get (fci_array f))(k := None)"
proof (cases "k < length (fci_array f)")
  case False
  then have "fci_get (fci_array f) k = None" by (simp add: fci_get_def)
  moreover have "fci_delete f k = (False, f)" using False by (simp add: fci_delete_def)
  ultimately show ?thesis using wf by (simp add: fun_upd_idem)
next
  case True
  define f' where "f' = \<lparr>fci_array = (fci_array f)[k := NONE_PTR],
    fci_len = fci_len f - of_bool (fci_get (fci_array f) k \<noteq> None)\<rparr>"
  have g: "fci_get (fci_array f) k \<noteq> None \<longleftrightarrow> fci_array f ! k \<noteq> NONE_PTR"
    using True by (simp add: fci_get_def slot_ptr_def)
  have del: "fci_delete f k = (fci_get (fci_array f) k \<noteq> None, f')"
    using True unfolding f'_def g by (simp add: fci_delete_def Let_def)
  have get: "fci_get (fci_array f') = (fci_get (fci_array f))(k := None)"
    using True by (simp add: f'_def fci_get_write)
  have "fci_len f' = card (dom (fci_get (fci_array f)) - {k})"
    using wf fci_finite_dom [of "fci_array f"] fci_entries_card [of f]
    by (simp add: f'_def fci_wf_def domIff card_Diff_singleton_if)
  then have "fci_wf cap f'"
    using wf fci_entries_card [of f'] by (simp add: fci_wf_def get) (simp add: f'_def)
  with del get show ?thesis by blast
qed

definition fci_admits :: "nat \<Rightarrow> (nat \<times> row_pointer) set \<Rightarrow> nat \<Rightarrow> row_pointer \<Rightarrow> bool" where
  "fci_admits cap E k p \<longleftrightarrow> k < cap \<and> \<not> reserved_bit p \<and> k \<notin> fst ` E"

definition fci_insert_op :: "fixed_cap_index \<Rightarrow> nat \<Rightarrow> row_pointer \<Rightarrow> fixed_cap_index option" where
  "fci_insert_op f k p = (case fci_insert f k p of Some (Inr _, f') \<Rightarrow> Some f' | _ \<Rightarrow> None)"

definition fci_delete_op :: "fixed_cap_index \<Rightarrow> nat \<Rightarrow> row_pointer \<Rightarrow> (bool \<times> fixed_cap_index) option" where
  "fci_delete_op f k p = Some (fci_delete f k)"

interpretation fci: ptr_index "fci_wf cap" fci_entries "fci_admits cap" fci_insert_op fci_delete_op fci_len
  for cap
proof unfold_locales
  fix f k p assume wf: "fci_wf cap f"
  show "\<exists>f'. fci_insert_op f k p = Some f' \<and> fci_wf cap f' \<and> fci_entries f' = insert (k, p) (fci_entries f)"
    if "fci_admits cap (fci_entries f) k p"
  proof -
    have a: "fci_get (fci_array f) k = None" "\<not> reserved_bit p" "k < cap"
      using that unfolding fci_admits_def fci_entries_def graph_key_None by simp_all
    from fci_insert_wf [OF wf a(3,2,1)] a(1) show ?thesis
      by (auto simp: fci_insert_op_def fci_entries_def split: if_splits)
  qed
  show "\<exists>f'. fci_delete_op f k p = Some (True, f') \<and> fci_wf cap f' \<and> fci_entries f' = fci_entries f - {(k, p)}"
    if "(k, p) \<in> fci_entries f"
    using fci_delete_wf [OF wf, of k] that
    by (auto simp: fci_delete_op_def fci_entries_def split: if_splits)
  show "\<exists>f'. fci_delete_op f k p = Some (False, f') \<and> fci_wf cap f' \<and> fci_entries f' = fci_entries f"
    if "k \<notin> fst ` fci_entries f"
    using fci_delete_wf [OF wf, of k] that unfolding fci_entries_def graph_key_None
    by (auto simp: fci_delete_op_def fun_upd_idem)
  show "finite (fci_entries f) \<and> fci_len f = card (fci_entries f)"
    using wf fci_entries_card [of f] by (simp add: fci_wf_def)
qed

subsection \<open>Bounds of a range\<close>

fun bound_fits :: "nat bound \<Rightarrow> bool" where
  "bound_fits (Included e) \<longleftrightarrow> e + 1 < 2 ^ 64"
| "bound_fits (Excluded e) \<longleftrightarrow> e + 1 < 2 ^ 64"
| "bound_fits Unbounded \<longleftrightarrow> True"

lemma filter_in_range_upt:
  assumes "\<And>k. k < n \<Longrightarrow> in_range r k \<longleftrightarrow> s \<le> k \<and> k < e" and "e \<le> n"
  shows "filter (in_range r) [0..<n] = [s..<e]"
  by (rule sorted_less_unique) (use assms in \<open>auto simp: sorted_wrt_filter\<close>)

lemma udi_seek_range_bounds:
  assumes "bound_fits (fst r)" and "bound_fits (snd r)"
  shows "\<exists>s e. udi_seek_range u r = \<lparr>uri_outer = outer u, uri_start = s, uri_end = e\<rparr> \<and>
    e \<le> length (outer u) * 512 \<and> filter (in_range r) [0..<length (outer u) * 512] = [s..<e]"
proof -
  define mx where "mx = length (outer u) * 512"
  define s0 where "s0 = (case fst r of Included s \<Rightarrow> s | Excluded s \<Rightarrow> s + 1 | Unbounded \<Rightarrow> 0)"
  define e0 where "e0 = (case snd r of Included e \<Rightarrow> e + 1 | Excluded e \<Rightarrow> e | Unbounded \<Rightarrow> mx)"
  have "udi_seek_range u r = \<lparr>uri_outer = outer u, uri_start = min s0 (min e0 mx), uri_end = min e0 mx\<rparr>"
    using assms by (auto simp: udi_seek_range_def s0_def e0_def mx_def Let_def split: bound.splits)
  moreover have "in_range r k \<longleftrightarrow> s0 \<le> k \<and> k < e0" if "k < mx" for k
    using that by (auto simp: in_range_def s0_def e0_def split: bound.splits)
  then have "filter (in_range r) [0..<mx] = [min s0 (min e0 mx)..<min e0 mx]"
    by (intro filter_in_range_upt) auto
  ultimately show ?thesis unfolding mx_def by (metis min.cobounded2)
qed

subsection \<open>Properties\<close>

text \<open>Claim C11.  From the empty direct index, every run of insertions under free keys and of
  deletions holds exactly the pairs inserted and not deleted since, its cached length counts them,
  and a point seek afterwards returns the pointer stored under the key.\<close>

theorem udi_run_refines_set:
  "run_admissible udi_admits {} ops \<Longrightarrow>
     \<exists>u. run_index udi_insert_op udi_delete_op udi_default ops = Some u \<and>
       udi_len u = card (run_entries {} ops) \<and>
       (\<forall>k p. udi_seek_point u k = [p] \<longleftrightarrow> (k, p) \<in> run_entries {} ops)"
proof -
  assume "run_admissible udi_admits {} ops"
  then obtain u where u: "run_index udi_insert_op udi_delete_op udi_default ops = Some u"
    "udi_entries u = run_entries {} ops" "udi_len u = card (run_entries {} ops)"
    using udi.run_refines [OF udi_default_wf(1), unfolded udi_default_wf(2), of ops] by blast
  moreover have "udi_seek_point u k = [p] \<longleftrightarrow> (k, p) \<in> udi_entries u" for k p
    by (simp add: udi_seek_point_get udi_entries_def split: option.splits)
  ultimately show ?thesis by auto
qed

theorem udi_run_refines_set_witness:
  "\<exists>u. run_index udi_insert_op udi_delete_op udi_default
         [Ins 700 (RowPointer 4), Ins 3 (RowPointer 8), Del 3 (RowPointer 8)] = Some u \<and>
       udi_len u = 1 \<and> udi_seek_point u 700 = [RowPointer 4]"
proof -
  let ?ops = "[Ins 700 (RowPointer 4), Ins 3 (RowPointer 8), Del 3 (RowPointer 8)] :: (nat, row_pointer) index_op list"
  have e: "run_entries {} ?ops = {(700, RowPointer 4)}" by auto
  have "run_admissible udi_admits {} ?ops"
    by (auto simp: udi_admits_def reserved_bit_def MASK_RB_def OFFSET_RB_def BITS_RB_def)
  from udi_run_refines_set [OF this] show ?thesis unfolding e by auto
qed

text \<open>Claim C25.  A range scan of a direct index ends, and yields the pointers of the keys in the
  range in ascending key order, whenever the bounds leave room for their successor in
  \<^verbatim>\<open>usize\<close> and the first scanned position is a block boundary or lies in an initialised
  block.\<close>

theorem udi_range_scan:
  assumes "bound_fits (fst r)" and "bound_fits (snd r)"
    and "scan_ok (outer u) (uri_start (udi_seek_range u r)) (uri_end (udi_seek_range u r))"
  shows "uri_collect (udi_seek_range u r)
    = List.map_filter (udi_get (outer u)) (filter (in_range r) [0..<length (outer u) * KEYS_PER_INNER])"
proof -
  obtain s e where se: "udi_seek_range u r = \<lparr>uri_outer = outer u, uri_start = s, uri_end = e\<rparr>"
    "e \<le> length (outer u) * 512" "filter (in_range r) [0..<length (outer u) * 512] = [s..<e]"
    using udi_seek_range_bounds [OF assms(1,2)] by blast
  with assms(3) have "scan_ok (outer u) s e" by simp
  from uri_collect_spec [OF se(2) this] se show ?thesis by (simp add: scan_spec_def)
qed

theorem udi_range_scan_witness:
  "uri_collect (udi_seek_range \<lparr>outer = [None, Some ((inner_index_new)[3 := RowPointer 9])], udi_len = 1\<rparr>
       (Unbounded, Included 600))
    = List.map_filter (udi_get [None, Some ((inner_index_new)[3 := RowPointer 9])])
        (filter (in_range (Unbounded, Included 600)) [0..<1024])"
  using udi_range_scan [of "(Unbounded, Included 600)"
      "\<lparr>outer = [None, Some ((inner_index_new)[3 := RowPointer 9])], udi_len = 1\<rparr>"]
  by (simp add: scan_ok_def udi_seek_range_def Let_def)

text \<open>The condition of the last claim on the first position is needed: when a scan starts inside an
  uninitialised block, it jumps a whole block's width and misses the beginning of the next one.  Here
  key 512 is present and in the range from 100, and the scan does not return it.\<close>

lemma udi_range_scan_skips_keys:
  "let u = snd (udi_insert udi_default 512 (RowPointer 4))
   in udi_seek_point u 512 = [RowPointer 4] \<and> uri_collect (udi_seek_range u (Included 100, Unbounded)) = []"
proof -
  define u where "u = snd (udi_insert udi_default 512 (RowPointer 4))"
  have wf: "udi_wf u \<and> udi_get (outer u) = (udi_get [])(512 \<mapsto> RowPointer 4)"
    using udi_insert_wf [OF udi_default_wf(1), of "RowPointer 4" 512]
    by (auto simp: u_def udi_default_def udi_get_def udi_slot_eq reserved_bit_def MASK_RB_def
        OFFSET_RB_def BITS_RB_def)
  have o: "\<exists>inn. outer u = [None, Some inn]"
    by (simp add: u_def udi_insert_def udi_default_def split_key_def vec_resize_def Let_def
        numeral_2_eq_2)
  then obtain inn where inn: "outer u = [None, Some inn]" ..
  have rng: "udi_seek_range u (Included 100, Unbounded)
      = \<lparr>uri_outer = [None, Some inn], uri_start = 100, uri_end = 1024\<rparr>"
    by (simp add: udi_seek_range_def inn)
  have none: "udi_get (outer u) k = None" if "k \<noteq> 512" for k
    using wf that by (simp add: udi_get_def udi_slot_eq)
  have "uri_collect \<lparr>uri_outer = [None, Some inn], uri_start = 100, uri_end = 1024\<rparr>
      = uri_collect \<lparr>uri_outer = [None, Some inn], uri_start = 612, uri_end = 1024\<rparr>"
    by (simp add: uri_collect_loop uri_loop_skip)
  also have "\<dots> = scan_spec (outer u) 612 1024"
    by (simp add: inn uri_collect_spec scan_ok_def)
  also have "\<dots> = []"
    using none by (auto simp: scan_spec_def map_filter_def filter_empty_conv)
  finally show ?thesis
    using rng wf by (simp add: u_def [symmetric] Let_def udi_seek_point_get)
qed



end
