(* ===== verification/Sequence_State.thy ===== *)
theory Sequence_State
  imports Stdb_Prelude "HOL-Library.Signed_Division"
begin

text \<open>
  \<^verbatim>\<open>crates/core/src/db/datastore/locking_tx_datastore/sequence.rs\<close>, with the allocation of
  sequence values in \<^verbatim>\<open>mut_tx.rs\<close> and their recovery in \<^verbatim>\<open>committed_state.rs\<close>.
  \<^verbatim>\<open>i128\<close> arithmetic wraps and its remainder truncates; a zero divisor panics.  The system
  table of sequences is a map from the sequence id, its key, to the row; the stored allocation is
  what survives a restart.
\<close>

subsection \<open>i128\<close>

definition i128_wrap :: "int \<Rightarrow> int" where
  "i128_wrap x = (x + 2 ^ 127) mod 2 ^ 128 - 2 ^ 127"

definition i128_rem :: "int \<Rightarrow> int \<Rightarrow> int option" where
  "i128_rem a b = (if b = 0 \<or> (a = - (2 ^ 127) \<and> b = -1) then None else Some (a smod b))"

lemma i128_wrap_id [simp]: "- (2 ^ 127) \<le> x \<Longrightarrow> x < 2 ^ 127 \<Longrightarrow> i128_wrap x = x"
  by (simp add: i128_wrap_def)

subsection \<open>Sequences\<close>

type_synonym sequence_id = u32

record sequence_schema =
  schema_sequence_id :: sequence_id
  increment :: int
  start :: int
  min_value :: int
  max_value :: int
  schema_allocated :: int

record sequence =
  schema :: sequence_schema
  seq_value :: int

definition sequence_new :: "sequence_schema \<Rightarrow> sequence" where
  "sequence_new sch = \<lparr>schema = sch, seq_value = start sch\<rparr>"

definition seq_id :: "sequence \<Rightarrow> sequence_id" where
  "seq_id s = schema_sequence_id (schema s)"

definition next_in_sequence :: "int \<Rightarrow> int \<Rightarrow> int \<Rightarrow> int \<Rightarrow> int option" where
  "next_in_sequence mn mx inc value =
     (let nxt = i128_wrap (value + inc);
          n = i128_wrap (i128_wrap (mx - mn) + 1)
      in if inc > 0
         then if nxt > mx
              then map_option (\<lambda>r. i128_wrap (mn + r)) (i128_rem (i128_wrap (i128_wrap (nxt - mx) - 1)) n)
              else Some nxt
         else if nxt < mn
              then map_option (\<lambda>r. i128_wrap (mx - r)) (i128_rem (i128_wrap (i128_wrap (mn - nxt) - 1)) n)
              else Some nxt)"

fun nth_value_loop :: "sequence_schema \<Rightarrow> nat \<Rightarrow> int \<Rightarrow> int option" where
  "nth_value_loop sch 0 value = Some value"
| "nth_value_loop sch (Suc n) value =
     (case next_in_sequence (min_value sch) (max_value sch) (increment sch) value of
        None \<Rightarrow> None
      | Some value' \<Rightarrow> nth_value_loop sch n value')"

definition nth_value :: "sequence \<Rightarrow> nat \<Rightarrow> int option" where
  "nth_value s n = nth_value_loop (schema s) n (seq_value s)"

definition next_value :: "sequence \<Rightarrow> int option" where
  "next_value s = nth_value s 1"

definition allocated :: "sequence \<Rightarrow> int" where
  "allocated s = schema_allocated (schema s)"

definition needs_allocation :: "sequence \<Rightarrow> bool" where
  "needs_allocation s \<longleftrightarrow> seq_value s \<ge> allocated s"

definition set_allocation :: "sequence \<Rightarrow> int \<Rightarrow> sequence" where
  "set_allocation s a = s\<lparr>schema := (schema s)\<lparr>schema_allocated := a\<rparr>\<rparr>"

text \<open>The outer option is the panic, the inner one the result.\<close>

definition gen_next_value :: "sequence \<Rightarrow> (int option \<times> sequence) option" where
  "gen_next_value s =
     (if needs_allocation s then Some (None, s)
      else case next_value s of
             None \<Rightarrow> None
           | Some v \<Rightarrow> Some (Some (seq_value s), s\<lparr>seq_value := v\<rparr>))"

subsection \<open>The sequences of a datastore\<close>

type_synonym sequences_state = "sequence_id \<rightharpoonup> sequence"

definition get_sequence_mut :: "sequences_state \<Rightarrow> sequence_id \<Rightarrow> sequence option" where
  "get_sequence_mut st i = st i"

definition sequences_insert :: "sequences_state \<Rightarrow> sequence \<Rightarrow> sequences_state" where
  "sequences_insert st s = st(seq_id s \<mapsto> s)"

definition sequences_remove :: "sequences_state \<Rightarrow> sequence_id \<Rightarrow> sequence option \<times> sequences_state" where
  "sequences_remove st i = (st i, st(i := None))"

text \<open>A row of the system table holds the fields of the schema.\<close>

type_synonym st_sequence = "sequence_id \<rightharpoonup> sequence_schema"

datatype sequence_error = SequenceNotFound sequence_id | UnableToAllocate sequence_id

definition SEQUENCE_ALLOCATION_STEP :: nat where
  "SEQUENCE_ALLOCATION_STEP = 4096"

definition get_next_sequence_value ::
  "sequences_state \<Rightarrow> st_sequence \<Rightarrow> sequence_id \<Rightarrow>
   ((sequence_error + int) \<times> sequences_state \<times> st_sequence) option" where
  "get_next_sequence_value st rows i =
     (case get_sequence_mut st i of
        None \<Rightarrow> Some (Inl (SequenceNotFound i), st, rows)
      | Some s \<Rightarrow>
         (case gen_next_value s of
            None \<Rightarrow> None
          | Some (Some v, s') \<Rightarrow> Some (Inr v, st(i \<mapsto> s'), rows)
          | Some (None, s1) \<Rightarrow>
             (case rows i of
                None \<Rightarrow> None
              | Some row \<Rightarrow>
                 (case nth_value s1 SEQUENCE_ALLOCATION_STEP of
                    None \<Rightarrow> None
                  | Some a \<Rightarrow>
                      let s2 = set_allocation s1 a;
                          rows' = rows(i \<mapsto> row\<lparr>schema_allocated := a\<rparr>)
                      in (case gen_next_value s2 of
                            None \<Rightarrow> None
                          | Some (Some v, s3) \<Rightarrow> Some (Inr v, st(i \<mapsto> s3), rows')
                          | Some (None, s3) \<Rightarrow> Some (Inl (UnableToAllocate i), st(i \<mapsto> s3), rows'))))))"

text \<open>Recovery: the in-memory sequence of one row, and of the whole table.\<close>

definition recover_sequence :: "sequence_schema \<Rightarrow> sequence" where
  "recover_sequence row =
     (let s = sequence_new row
      in if seq_value s < i128_wrap (allocated s + 1)
         then s\<lparr>seq_value := i128_wrap (allocated s + 1)\<rparr> else s)"

fun build_sequence_state :: "sequence_schema list \<Rightarrow> sequences_state \<Rightarrow> sequences_state" where
  "build_sequence_state [] st = st"
| "build_sequence_state (row # rows) st = build_sequence_state rows (sequences_insert st (recover_sequence row))"

subsection \<open>Stepping is addition modulo the size of the interval\<close>

text \<open>The parameters of a sequence whose arithmetic stays within \<^verbatim>\<open>i128\<close>.\<close>

definition params_ok :: "int \<Rightarrow> int \<Rightarrow> int \<Rightarrow> bool" where
  "params_ok mn mx inc \<longleftrightarrow> mn \<le> mx \<and> - (2 ^ 125) \<le> mn \<and> mx < 2 ^ 125 \<and> - (2 ^ 125) \<le> inc \<and> inc < 2 ^ 125"

lemma smod_nonneg: "0 \<le> a \<Longrightarrow> 0 < b \<Longrightarrow> a smod b = a mod b" for a b :: int
  by (simp add: signed_modulo_int_def signed_divide_int_def minus_div_mult_eq_mod sgn_if)

lemma wrap_mod:
  fixes a k n :: int
  assumes "0 < n" and "n \<le> 2 ^ 126" and "- (2 ^ 125) \<le> a" and "a < 2 ^ 125"
  shows "i128_wrap (a + k mod n) = a + k mod n" and "i128_wrap (a - k mod n) = a - k mod n"
proof -
  define r where "r = k mod n"
  have "0 \<le> r" "r < n" using assms(1) by (simp_all add: r_def)
  then show "i128_wrap (a + k mod n) = a + k mod n" "i128_wrap (a - k mod n) = a - k mod n"
    using assms unfolding r_def [symmetric] by (intro i128_wrap_id; simp)+
qed

lemma next_in_sequence_mod:
  assumes ok: "params_ok mn mx inc" and v: "mn \<le> v" "v \<le> mx"
  shows "next_in_sequence mn mx inc v = Some (mn + (v - mn + inc) mod (mx - mn + 1))"
proof -
  define n where "n = mx - mn + 1"
  have n: "0 < n" "n \<le> 2 ^ 126" using ok by (auto simp: n_def params_ok_def)
  have w: "i128_wrap (v + inc) = v + inc" "i128_wrap (i128_wrap (mx - mn) + 1) = n"
    using ok v by (auto simp: params_ok_def n_def)
  consider (fit) "mn \<le> v + inc" "v + inc \<le> mx" | (high) "0 < inc" "mx < v + inc" | (low) "inc < 0" "v + inc < mn"
    using v by linarith
  then show ?thesis
  proof cases
    case fit
    then have "(v - mn + inc) mod n = v - mn + inc" by (intro mod_pos_pos_trivial) (auto simp: n_def)
    with fit w show ?thesis by (simp add: next_in_sequence_def Let_def n_def)
  next
    case high
    have "(v - mn + inc) mod n = ((v + inc - mx - 1) + n) mod n" by (simp add: n_def algebra_simps)
    then have e: "(v - mn + inc) mod n = (v + inc - mx - 1) mod n" by simp
    have "i128_wrap (i128_wrap (v + inc - mx) - 1) = v + inc - mx - 1"
      using ok v high by (simp add: params_ok_def)
    moreover have "i128_wrap (mn + (v + inc - mx - 1) mod n) = mn + (v + inc - mx - 1) mod n"
      using ok n by (intro wrap_mod) (simp_all add: params_ok_def)
    ultimately show ?thesis
      using high w n e by (simp add: next_in_sequence_def Let_def i128_rem_def smod_nonneg n_def [symmetric])
  next
    case low
    define k where "k = mn - (v + inc) - 1"
    have k: "0 \<le> k" "k < 2 ^ 127 - 1" using low ok v by (auto simp: k_def params_ok_def)
    have "(v - mn + inc) mod n = (n - 1 - k mod n) mod n"
    proof -
      have "(n - 1 - k mod n) mod n = (n - 1 - k) mod n" by (rule mod_diff_right_eq)
      also have "n - 1 - k = n + (v - mn + inc)" by (simp add: k_def)
      also have "\<dots> mod n = (v - mn + inc) mod n" by (rule mod_add_self1)
      finally show ?thesis by (rule sym)
    qed
    also have "\<dots> = n - 1 - k mod n"
      using n pos_mod_sign [OF n(1), of k] pos_mod_bound [OF n(1), of k]
      by (intro mod_pos_pos_trivial) linarith+
    finally have e: "mn + (v - mn + inc) mod n = mx - k mod n" by (simp add: n_def)
    have "i128_wrap (i128_wrap (mn - (v + inc)) - 1) = k" using k by (simp add: k_def)
    moreover have "i128_wrap (mx - k mod n) = mx - k mod n"
      using ok n by (intro wrap_mod) (simp_all add: params_ok_def)
    ultimately show ?thesis
      using low w n k e by (simp add: next_in_sequence_def Let_def i128_rem_def smod_nonneg n_def [symmetric])
  qed
qed

lemma next_in_sequence_range:
  "params_ok mn mx inc \<Longrightarrow> mn \<le> v \<Longrightarrow> v \<le> mx \<Longrightarrow>
     \<exists>w. next_in_sequence mn mx inc v = Some w \<and> mn \<le> w \<and> w \<le> mx"
  using next_in_sequence_mod [of mn mx inc v] pos_mod_sign [of "mx - mn + 1" "v - mn + inc"]
    pos_mod_bound [of "mx - mn + 1" "v - mn + inc"]
  by (simp add: params_ok_def)

definition schema_ok :: "sequence_schema \<Rightarrow> bool" where
  "schema_ok sch \<longleftrightarrow> params_ok (min_value sch) (max_value sch) (increment sch)"

lemma nth_value_loop_mod:
  assumes "schema_ok sch"
  shows "min_value sch \<le> v \<Longrightarrow> v \<le> max_value sch \<Longrightarrow> nth_value_loop sch n v
    = Some (min_value sch + (v - min_value sch + int n * increment sch) mod (max_value sch - min_value sch + 1))"
proof (induction n arbitrary: v)
  case 0
  then show ?case by (simp add: mod_pos_pos_trivial)
next
  case (Suc n)
  let ?mn = "min_value sch" and ?n = "max_value sch - min_value sch + 1"
  obtain w where w: "next_in_sequence ?mn (max_value sch) (increment sch) v = Some w" "?mn \<le> w" "w \<le> max_value sch"
    using next_in_sequence_range assms Suc.prems unfolding schema_ok_def by blast
  have "w - ?mn = (v - ?mn + increment sch) mod ?n"
    using w(1) next_in_sequence_mod [OF assms [unfolded schema_ok_def] Suc.prems] by simp
  then have "(w - ?mn + int n * increment sch) mod ?n = (v - ?mn + increment sch + int n * increment sch) mod ?n"
    by (simp add: mod_add_left_eq)
  also have "v - ?mn + increment sch + int n * increment sch = v - ?mn + int (Suc n) * increment sch"
    by (simp add: algebra_simps)
  finally show ?case using w Suc.IH [OF w(2,3)] by simp
qed

subsection \<open>Allocation and recovery\<close>

text \<open>The state of one ascending sequence before it wraps: everything handed out so far lies below
  the stored allocation, which is what a restart reads.\<close>

definition seq_wf :: "sequence \<Rightarrow> sequence_schema \<Rightarrow> bool" where
  "seq_wf s row \<longleftrightarrow> schema_ok (schema s) \<and> 0 < increment (schema s) \<and> row = schema s \<and>
     min_value (schema s) \<le> seq_value s \<and> seq_value s \<le> max_value (schema s) \<and>
     - (2 ^ 126) \<le> allocated s \<and> allocated s < 2 ^ 126"

definition no_wrap_ahead :: "sequence \<Rightarrow> bool" where
  "no_wrap_ahead s \<longleftrightarrow>
     seq_value s + int SEQUENCE_ALLOCATION_STEP * increment (schema s) \<le> max_value (schema s)"

lemma nth_value_ahead:
  assumes "seq_wf s row" and "seq_value s + int n * increment (schema s) \<le> max_value (schema s)"
  shows "nth_value s n = Some (seq_value s + int n * increment (schema s))"
proof -
  have "0 \<le> int n * increment (schema s)" using assms(1) by (simp add: seq_wf_def)
  then show ?thesis
    using assms nth_value_loop_mod [of "schema s" "seq_value s" n]
    by (simp add: seq_wf_def nth_value_def mod_pos_pos_trivial)
qed

lemma gen_next_value_ahead:
  assumes wf: "seq_wf s row" and ahead: "no_wrap_ahead s" and "seq_value s < allocated s"
  shows "gen_next_value s = Some (Some (seq_value s), s\<lparr>seq_value := seq_value s + increment (schema s)\<rparr>)"
proof -
  have "increment (schema s) \<le> int SEQUENCE_ALLOCATION_STEP * increment (schema s)"
    using wf by (simp add: seq_wf_def SEQUENCE_ALLOCATION_STEP_def)
  then have "nth_value s 1 = Some (seq_value s + increment (schema s))"
    using nth_value_ahead [OF wf, of 1] ahead by (simp add: no_wrap_ahead_def)
  with assms(3) show ?thesis by (simp add: gen_next_value_def needs_allocation_def next_value_def)
qed

lemma set_allocation_simps [simp]:
  "seq_value (set_allocation s a) = seq_value s" "allocated (set_allocation s a) = a"
  "schema (set_allocation s a) = (schema s)\<lparr>schema_allocated := a\<rparr>"
  by (simp_all add: set_allocation_def allocated_def)

lemma get_next_ahead:
  assumes st: "st i = Some s" and rows: "rows i = Some row" and wf: "seq_wf s row" and ahead: "no_wrap_ahead s"
  shows "\<exists>s' row'. get_next_sequence_value st rows i = Some (Inr (seq_value s), st(i \<mapsto> s'), rows(i \<mapsto> row')) \<and>
    seq_wf s' row' \<and> seq_value s' = seq_value s + increment (schema s) \<and>
    seq_value s < allocated s' \<and> allocated s \<le> allocated s' \<and>
    schema s' = (schema s)\<lparr>schema_allocated := allocated s'\<rparr>"
proof -
  let ?inc = "increment (schema s)"
  have inc: "0 < ?inc" "?inc \<le> int SEQUENCE_ALLOCATION_STEP * ?inc"
    using wf by (simp_all add: seq_wf_def SEQUENCE_ALLOCATION_STEP_def)
  have step: "seq_wf (s\<lparr>seq_value := seq_value s + ?inc\<rparr>) row"
  proof -
    have "seq_value s + ?inc \<le> max_value (schema s)"
      using ahead inc(2) unfolding no_wrap_ahead_def by linarith
    then show ?thesis using wf inc(1) by (simp add: seq_wf_def allocated_def)
  qed
  show ?thesis
  proof (cases "seq_value s < allocated s")
    case True
    have alloc: "schema s = (schema s)\<lparr>schema_allocated := allocated s\<rparr>" by (simp add: allocated_def)
    let ?s' = "s\<lparr>seq_value := seq_value s + ?inc\<rparr>"
    have "get_next_sequence_value st rows i = Some (Inr (seq_value s), st(i \<mapsto> ?s'), rows(i \<mapsto> row))"
      using gen_next_value_ahead [OF wf ahead True] st rows
      by (simp add: get_next_sequence_value_def get_sequence_mut_def fun_upd_idem)
    moreover have "allocated ?s' = allocated s" by (simp add: allocated_def)
    ultimately show ?thesis
      using step True alloc by (intro exI [of _ ?s'] exI [of _ row]) simp
  next
    case False
    define a where "a = seq_value s + int SEQUENCE_ALLOCATION_STEP * ?inc"
    let ?s2 = "set_allocation s a" and ?row = "row\<lparr>schema_allocated := a\<rparr>"
    have na: "nth_value s SEQUENCE_ALLOCATION_STEP = Some a"
      unfolding a_def using wf ahead by (intro nth_value_ahead) (simp_all add: no_wrap_ahead_def)
    have gn: "gen_next_value s = Some (None, s)" using False by (simp add: gen_next_value_def needs_allocation_def)
    have "seq_value s \<le> a" "a \<le> max_value (schema s)"
      using ahead inc unfolding no_wrap_ahead_def a_def by linarith+
    then have "- (2 ^ 126) \<le> a" "a < 2 ^ 126"
      using wf unfolding seq_wf_def schema_ok_def params_ok_def by simp_all
    then have wf2: "seq_wf ?s2 ?row" using wf by (simp add: seq_wf_def schema_ok_def)
    have lt: "seq_value s < a" using inc by (simp add: a_def)
    have "gen_next_value ?s2 = Some (Some (seq_value s), ?s2\<lparr>seq_value := seq_value s + ?inc\<rparr>)"
      using gen_next_value_ahead [OF wf2] ahead lt by (simp add: no_wrap_ahead_def)
    moreover have "seq_wf (?s2\<lparr>seq_value := seq_value s + ?inc\<rparr>) ?row"
      using wf2 step by (simp add: seq_wf_def allocated_def)
    moreover have "get_next_sequence_value st rows i
        = Some (Inr (seq_value s), st(i \<mapsto> ?s2\<lparr>seq_value := seq_value s + ?inc\<rparr>), rows(i \<mapsto> ?row))"
      using st rows gn na calculation(1) by (simp add: get_next_sequence_value_def get_sequence_mut_def Let_def)
    moreover have "allocated (?s2\<lparr>seq_value := seq_value s + ?inc\<rparr>) = a" by (simp add: allocated_def)
    ultimately show ?thesis
      using lt False by (intro exI [of _ "?s2\<lparr>seq_value := seq_value s + ?inc\<rparr>"] exI [of _ ?row]) simp
  qed
qed

fun take_values ::
  "nat \<Rightarrow> sequences_state \<Rightarrow> st_sequence \<Rightarrow> sequence_id \<Rightarrow> (int list \<times> sequences_state \<times> st_sequence) option" where
  "take_values 0 st rows i = Some ([], st, rows)"
| "take_values (Suc n) st rows i =
     (case get_next_sequence_value st rows i of
        Some (Inr v, st', rows') \<Rightarrow> map_option (\<lambda>(vs, r). (v # vs, r)) (take_values n st' rows' i)
      | _ \<Rightarrow> None)"

lemma recover_above: "seq_wf s row \<Longrightarrow> allocated s < seq_value (recover_sequence row)"
  by (auto simp: recover_sequence_def sequence_new_def allocated_def seq_wf_def Let_def)

lemma take_values_ahead:
  assumes "st i = Some s" and "rows i = Some row" and "seq_wf s row"
    and "seq_value s + (int n + int SEQUENCE_ALLOCATION_STEP) * increment (schema s) \<le> max_value (schema s)"
  shows "\<exists>st' rows' s' row'. take_values n st rows i
      = Some (map (\<lambda>j. seq_value s + int j * increment (schema s)) [0..<n], st', rows') \<and>
    st' i = Some s' \<and> rows' i = Some row' \<and> seq_wf s' row' \<and> allocated s \<le> allocated s' \<and>
    (\<forall>j<n. seq_value s + int j * increment (schema s) < allocated s')"
  using assms
proof (induction n arbitrary: st rows s row)
  case 0
  then show ?case by auto
next
  case (Suc n)
  let ?inc = "increment (schema s)"
  have inc: "0 < ?inc" using Suc.prems(3) by (simp add: seq_wf_def)
  have "int SEQUENCE_ALLOCATION_STEP * ?inc \<le> (int (Suc n) + int SEQUENCE_ALLOCATION_STEP) * ?inc"
    using inc by (intro mult_right_mono) simp_all
  then have ahead: "no_wrap_ahead s" using Suc.prems(4) unfolding no_wrap_ahead_def by linarith
  obtain s1 row1 where s1: "get_next_sequence_value st rows i = Some (Inr (seq_value s), st(i \<mapsto> s1), rows(i \<mapsto> row1))"
    "seq_wf s1 row1" "seq_value s1 = seq_value s + ?inc" "seq_value s < allocated s1" "allocated s \<le> allocated s1"
    "schema s1 = (schema s)\<lparr>schema_allocated := allocated s1\<rparr>"
    using get_next_ahead [of st i s rows row, OF Suc.prems(1-3) ahead] by blast
  have eq: "increment (schema s1) = ?inc" "max_value (schema s1) = max_value (schema s)"
    unfolding s1(6) by simp_all
  have shift: "seq_value s1 + int j * ?inc = seq_value s + int (Suc j) * ?inc" for j
    by (simp add: s1(3) algebra_simps)
  have "seq_value s1 + (int n + int SEQUENCE_ALLOCATION_STEP) * increment (schema s1) \<le> max_value (schema s1)"
    using Suc.prems(4) by (simp add: eq s1(3) algebra_simps)
  moreover have "(st(i \<mapsto> s1)) i = Some s1" "(rows(i \<mapsto> row1)) i = Some row1" by simp_all
  ultimately obtain st' rows' s' row' where IH: "take_values n (st(i \<mapsto> s1)) (rows(i \<mapsto> row1)) i
      = Some (map (\<lambda>j. seq_value s1 + int j * ?inc) [0..<n], st', rows')"
    "st' i = Some s'" "rows' i = Some row'" "seq_wf s' row'" "allocated s1 \<le> allocated s'"
    "\<forall>j<n. seq_value s1 + int j * ?inc < allocated s'"
    using Suc.IH [of "st(i \<mapsto> s1)" s1 "rows(i \<mapsto> row1)" row1] s1(2) unfolding eq by blast
  have "map (\<lambda>j. seq_value s + int j * ?inc) [0..<Suc n]
      = seq_value s # map (\<lambda>j. seq_value s1 + int j * ?inc) [0..<n]"
    unfolding shift by (simp add: upt_conv_Cons map_Suc_upt [symmetric] del: upt_Suc)
  moreover have "\<forall>j<Suc n. seq_value s + int j * ?inc < allocated s'"
    using IH(5,6) s1(4) unfolding shift by (auto simp: less_Suc_eq_0_disj)
  ultimately show ?case using IH s1(1,5) by (intro exI [of _ st'] exI [of _ rows'] exI [of _ s'] exI [of _ row']) simp
qed

subsection \<open>Properties\<close>







text \<open>The first example in the comment on \<^const>\<open>next_in_sequence\<close> gives 1 for these arguments.\<close>

lemma next_in_sequence_doc_example: "next_in_sequence 1 10 1 9 = Some 10"
  using next_in_sequence_mod [of 1 10 1 9] by (simp add: params_ok_def)

end
