(* ===== verification/Delete_Table.thy ===== *)
theory Delete_Table
  imports Fixed_Bit_Set Row_Pointer
begin

text \<open>
  \<^verbatim>\<open>crates/core/src/db/datastore/locking_tx_datastore/delete_table.rs\<close>: the set of committed
  rows a transaction has deleted, as one optional bit set per page, with a cached size.  A panic of
  the bit set or of a division by a zero row size is \<^const>\<open>None\<close>.
\<close>

subsection \<open>Operations\<close>

record delete_table =
  deleted :: "fixed_bit_set option list"
  dt_len :: nat
  fixed_row_size :: size_u16

definition dt_new :: "size_u16 \<Rightarrow> delete_table" where
  "dt_new sz = \<lparr>deleted = [], dt_len = 0, fixed_row_size = sz\<rparr>"

definition dt_contains :: "delete_table \<Rightarrow> row_pointer \<Rightarrow> bool option" where
  "dt_contains dt ptr =
     (let page_idx = unat (ptr_page_index ptr)
      in if page_idx < length (deleted dt)
         then (case deleted dt ! page_idx of
                 None \<Rightarrow> Some False
               | Some bs \<Rightarrow> Option.bind (offset_div (ptr_page_offset ptr) (fixed_row_size dt)) (bitset_get bs))
         else Some False)"

definition dt_new_set :: "size_u16 \<Rightarrow> nat \<Rightarrow> fixed_bit_set option" where
  "dt_new_set sz bitset_idx =
     Option.bind (max_rows_in_page sz) (\<lambda>n. Option.bind (bitset_new n) (\<lambda>bs. bitset_set bs bitset_idx True))"

definition dt_insert :: "delete_table \<Rightarrow> row_pointer \<Rightarrow> (bool \<times> delete_table) option" where
  "dt_insert dt ptr =
     (let sz = fixed_row_size dt;
          page_idx = unat (ptr_page_index ptr)
      in (case offset_div (ptr_page_offset ptr) sz of
            None \<Rightarrow> None
          | Some bitset_idx \<Rightarrow>
              if page_idx < length (deleted dt)
              then (case deleted dt ! page_idx of
                      Some bs \<Rightarrow>
                        (case bitset_get bs bitset_idx of
                           None \<Rightarrow> None
                         | Some present \<Rightarrow>
                             map_option
                               (\<lambda>bs'. (\<not> present,
                                  dt\<lparr>deleted := (deleted dt)[page_idx := Some bs'],
                                     dt_len := dt_len dt + of_bool (\<not> present)\<rparr>))
                               (bitset_set bs bitset_idx True))
                    | None \<Rightarrow>
                        map_option
                          (\<lambda>bs. (True, dt\<lparr>deleted := (deleted dt)[page_idx := Some bs], dt_len := dt_len dt + 1\<rparr>))
                          (dt_new_set sz bitset_idx))
              else map_option
                     (\<lambda>bs. (True, dt\<lparr>deleted := deleted dt @ replicate (page_idx - length (deleted dt)) None @ [Some bs],
                                     dt_len := dt_len dt + 1\<rparr>))
                     (dt_new_set sz bitset_idx)))"

definition dt_remove :: "delete_table \<Rightarrow> row_pointer \<Rightarrow> (bool \<times> delete_table) option" where
  "dt_remove dt ptr =
     (let page_idx = unat (ptr_page_index ptr)
      in (case offset_div (ptr_page_offset ptr) (fixed_row_size dt) of
            None \<Rightarrow> None
          | Some bitset_idx \<Rightarrow>
              if page_idx < length (deleted dt)
              then (case deleted dt ! page_idx of
                      None \<Rightarrow> Some (False, dt)
                    | Some bs \<Rightarrow>
                        (case bitset_get bs bitset_idx of
                           None \<Rightarrow> None
                         | Some removed \<Rightarrow>
                             map_option
                               (\<lambda>bs'. (removed,
                                  dt\<lparr>deleted := (deleted dt)[page_idx := Some bs'],
                                     dt_len := dt_len dt - of_bool removed\<rparr>))
                               (bitset_set bs bitset_idx False)))
              else Some (False, dt)))"

text \<open>The pointers the iterator yields, page by page; the offset is computed in \<^verbatim>\<open>u16\<close>.\<close>

definition dt_page_iter :: "size_u16 \<Rightarrow> nat \<Rightarrow> fixed_bit_set \<Rightarrow> row_pointer list" where
  "dt_page_iter sz pi bs =
     map (\<lambda>idx. row_pointer_new False (of_nat pi) (of_nat idx * sz) COMMITTED_STATE)
       (iter_set_collect (bitset_iter_set bs))"

definition dt_iter :: "delete_table \<Rightarrow> row_pointer list" where
  "dt_iter dt = concat (map (\<lambda>(pi, bs). case bs of None \<Rightarrow> [] | Some bs \<Rightarrow> dt_page_iter (fixed_row_size dt) pi bs)
     (enumerate 0 (deleted dt)))"

definition dt_is_empty :: "delete_table \<Rightarrow> bool" where
  "dt_is_empty dt \<longleftrightarrow> dt_len dt = 0"

subsection \<open>The marked slots\<close>

text \<open>A slot is a page and a row number within it.\<close>

definition dt_slots :: "fixed_bit_set option list \<Rightarrow> (nat \<times> nat) set" where
  "dt_slots ds = {(pg, i). pg < length ds \<and> (\<exists>bs. ds ! pg = Some bs \<and> i \<in> bitset_members bs)}"

definition rows_per_page :: "size_u16 \<Rightarrow> nat" where
  "rows_per_page sz = div_ceil 65472 (unat sz)"

definition page_sets_wf :: "size_u16 \<Rightarrow> fixed_bit_set option list \<Rightarrow> bool" where
  "page_sets_wf sz ds \<longleftrightarrow> (\<forall>bs. Some bs \<in> set ds \<longrightarrow>
     bitset_wf bs \<and> rows_per_page sz \<le> bitset_bits bs \<and> (\<forall>i\<in>bitset_members bs. i < rows_per_page sz))"

definition dt_wf :: "delete_table \<Rightarrow> bool" where
  "dt_wf dt \<longleftrightarrow> fixed_row_size dt \<noteq> 0 \<and> length (deleted dt) \<le> 2 ^ 39 \<and>
     page_sets_wf (fixed_row_size dt) (deleted dt) \<and> dt_len dt = card (dt_slots (deleted dt))"

definition slot_of :: "size_u16 \<Rightarrow> row_pointer \<Rightarrow> nat \<times> nat" where
  "slot_of sz ptr = (unat (ptr_page_index ptr), unat (ptr_page_offset ptr) div unat sz)"

text \<open>A pointer into the data segment of a page, as every pointer to a row is.\<close>

definition ptr_in_page :: "row_pointer \<Rightarrow> bool" where
  "ptr_in_page ptr \<longleftrightarrow> ptr_page_offset ptr < PAGE_END"

lemma finite_dt_slots: "finite (dt_slots ds)"
proof -
  have "dt_slots ds = (\<Union>pg\<in>{..<length ds}. Pair pg ` (case ds ! pg of None \<Rightarrow> {} | Some bs \<Rightarrow> bitset_members bs))"
    by (auto simp: dt_slots_def image_iff split: option.splits)
  then show ?thesis by (simp split: option.splits)
qed

lemma dt_slots_update:
  assumes "pg < length ds"
  shows "dt_slots (ds[pg := Some bs]) = {s \<in> dt_slots ds. fst s \<noteq> pg} \<union> Pair pg ` bitset_members bs"
  using assms by (auto simp: dt_slots_def nth_list_update split: if_splits)

lemma dt_slots_at: "pg < length ds \<Longrightarrow> ds ! pg = Some bs \<Longrightarrow> (pg, i) \<in> dt_slots ds \<longleftrightarrow> i \<in> bitset_members bs"
  by (auto simp: dt_slots_def)

lemma dt_slots_grow: "dt_slots (ds @ replicate n None @ [Some bs])
    = dt_slots ds \<union> Pair (length ds + n) ` bitset_members bs"
  by (auto simp: dt_slots_def nth_append less_Suc_eq split: if_splits)

lemma slot_in_page:
  assumes "sz \<noteq> 0" and "ptr_in_page ptr"
  shows "unat (ptr_page_offset ptr) div unat sz < rows_per_page sz"
proof -
  have sz: "0 < unat sz" using assms(1) by (simp add: unat_gt_0)
  have "unat (ptr_page_offset ptr) < 65472"
    using assms(2) by (simp add: ptr_in_page_def word_less_nat_alt)
  moreover have "unat (ptr_page_offset ptr) div unat sz * unat sz \<le> unat (ptr_page_offset ptr)" by simp
  ultimately show ?thesis using sz unfolding rows_per_page_def less_div_ceil [OF sz] by linarith
qed

lemma dt_new_set_ok:
  assumes "sz \<noteq> 0" and "i < rows_per_page sz"
  shows "\<exists>bs. dt_new_set sz i = Some bs \<and> bitset_wf bs \<and> rows_per_page sz \<le> bitset_bits bs \<and> bitset_members bs = {i}"
proof -
  have "rows_per_page sz \<le> 65472"
  proof -
    obtain n where n: "unat sz = Suc n" using assms(1) by (metis not0_implies_Suc unat_eq_zero)
    have "(65472 + n) div Suc n < 65473" by (intro less_mult_imp_div_less) simp
    then show ?thesis by (simp add: rows_per_page_def div_ceil_def n)
  qed
  then have "blocks_for_bits (rows_per_page sz) \<le> LEN_MAX"
    unfolding blocks_for_bits_def div_ceil_def BITS_def LEN_MAX_def by linarith
  then obtain b0 where b0: "bitset_new (rows_per_page sz) = Some b0"
    by (simp add: bitset_new_def new_for_blocks_def from_boxed_slice_def)
  note new = bitset_new_wf [OF b0]
  then obtain bs where bs: "bitset_set b0 i True = Some bs"
    using assms(2) fbs.put_None_iff [of b0 i True] by (cases "bitset_set b0 i True") auto
  have "dt_new_set sz i = Some bs"
    using assms(1) b0 bs by (simp add: dt_new_set_def max_rows_in_page_def rows_per_page_def)
  with new bs fbs.members_put [OF bs] fbs.put_capacity [OF bs] bitset_wf_set [OF bs] show ?thesis by simp
qed

lemma page_sets_wf_update:
  "page_sets_wf sz ds \<Longrightarrow> bitset_wf bs \<Longrightarrow> rows_per_page sz \<le> bitset_bits bs \<Longrightarrow>
   \<forall>i\<in>bitset_members bs. i < rows_per_page sz \<Longrightarrow> page_sets_wf sz (ds[pg := Some bs])"
  using set_update_subset_insert [of ds pg "Some bs"] by (auto simp: page_sets_wf_def)

lemma page_sets_wf_grow:
  "page_sets_wf sz ds \<Longrightarrow> bitset_wf bs \<Longrightarrow> rows_per_page sz \<le> bitset_bits bs \<Longrightarrow>
   \<forall>i\<in>bitset_members bs. i < rows_per_page sz \<Longrightarrow> page_sets_wf sz (ds @ replicate n None @ [Some bs])"
  by (auto simp: page_sets_wf_def)

lemma page_setD:
  assumes "dt_wf dt" and "pg < length (deleted dt)" and "deleted dt ! pg = Some bs"
  shows "bitset_wf bs" "rows_per_page (fixed_row_size dt) \<le> bitset_bits bs"
    "\<And>i. i \<in> bitset_members bs \<Longrightarrow> i < rows_per_page (fixed_row_size dt)"
proof -
  have "Some bs \<in> set (deleted dt)" using assms(2,3) by (metis nth_mem)
  then show "bitset_wf bs" "rows_per_page (fixed_row_size dt) \<le> bitset_bits bs"
    "\<And>i. i \<in> bitset_members bs \<Longrightarrow> i < rows_per_page (fixed_row_size dt)"
    using assms(1) by (auto simp: dt_wf_def page_sets_wf_def)
qed

lemma dt_len_insert:
  "dt_wf dt \<Longrightarrow> dt_slots ds = insert s (dt_slots (deleted dt)) \<Longrightarrow>
     dt_len dt + of_bool (s \<notin> dt_slots (deleted dt)) = card (dt_slots ds)"
  using finite_dt_slots [of "deleted dt"] by (auto simp: dt_wf_def card_insert_if)

lemma dt_insert_wf:
  assumes wf: "dt_wf dt" and p: "ptr_in_page ptr"
  shows "\<exists>dt'. dt_insert dt ptr = Some (slot_of (fixed_row_size dt) ptr \<notin> dt_slots (deleted dt), dt') \<and>
    dt_wf dt' \<and> fixed_row_size dt' = fixed_row_size dt \<and>
    dt_slots (deleted dt') = insert (slot_of (fixed_row_size dt) ptr) (dt_slots (deleted dt))"
proof -
  let ?sz = "fixed_row_size dt" and ?ds = "deleted dt" and ?pg = "unat (ptr_page_index ptr)"
  define i where "i = unat (ptr_page_offset ptr) div unat ?sz"
  have sz: "?sz \<noteq> 0" using wf by (simp add: dt_wf_def)
  have div: "offset_div (ptr_page_offset ptr) ?sz = Some i" using sz by (simp add: offset_div_def i_def)
  have i: "i < rows_per_page ?sz" unfolding i_def using slot_in_page [OF sz p] .
  have slot: "slot_of ?sz ptr = (?pg, i)" by (simp add: slot_of_def i_def)
  have pw: "page_sets_wf ?sz ?ds" and len: "length ?ds \<le> 2 ^ 39" using wf by (simp_all add: dt_wf_def)
  obtain nb where nb: "dt_new_set ?sz i = Some nb" "bitset_wf nb" "rows_per_page ?sz \<le> bitset_bits nb" "bitset_members nb = {i}"
    using dt_new_set_ok [OF sz i] by blast
  have finish: ?thesis if "dt_insert dt ptr = Some ((?pg, i) \<notin> dt_slots ?ds,
      dt\<lparr>deleted := ds', dt_len := dt_len dt + of_bool ((?pg, i) \<notin> dt_slots ?ds)\<rparr>)"
    "dt_slots ds' = insert (?pg, i) (dt_slots ?ds)" "page_sets_wf ?sz ds'" "length ds' \<le> 2 ^ 39" for ds'
    using that dt_len_insert [OF wf that(2)] sz by (simp add: slot dt_wf_def)
  consider (set) bs where "?pg < length ?ds" "?ds ! ?pg = Some bs" | (none) "?pg < length ?ds" "?ds ! ?pg = None"
    | (grow) "length ?ds \<le> ?pg" by fastforce
  then show ?thesis
  proof cases
    case (set bs)
    note bs = page_setD [OF wf set]
    obtain bs' where bs': "bitset_set bs i True = Some bs'"
      using i bs(2) fbs.put_None_iff [of bs i True] by (cases "bitset_set bs i True") auto
    have get: "bitset_get bs i = Some (i \<in> bitset_members bs)" using i bs(2) by (intro fbs.get_eq_members) simp
    have mem: "bitset_members bs' = insert i (bitset_members bs)" using fbs.members_put [OF bs'] by simp
    show ?thesis
    proof (rule finish)
      show "dt_slots (?ds[?pg := Some bs']) = insert (?pg, i) (dt_slots ?ds)"
        unfolding dt_slots_update [OF set(1)] mem using set by (auto simp: dt_slots_def)
      show "page_sets_wf ?sz (?ds[?pg := Some bs'])"
        using pw bs i mem bitset_wf_set [OF bs'] fbs.put_capacity [OF bs'] by (intro page_sets_wf_update) auto
    qed (use set get bs' div len dt_slots_at [OF set] in \<open>simp_all add: dt_insert_def Let_def\<close>)
  next
    case none
    then have new: "(?pg, i) \<notin> dt_slots ?ds" by (auto simp: dt_slots_def)
    show ?thesis
    proof (rule finish)
      show "dt_slots (?ds[?pg := Some nb]) = insert (?pg, i) (dt_slots ?ds)"
        unfolding dt_slots_update [OF none(1)] nb(4) using none by (auto simp: dt_slots_def)
      show "page_sets_wf ?sz (?ds[?pg := Some nb])" using pw nb i by (intro page_sets_wf_update) auto
    qed (use none nb(1) div len new in \<open>simp_all add: dt_insert_def Let_def\<close>)
  next
    case grow
    then have new: "(?pg, i) \<notin> dt_slots ?ds" by (auto simp: dt_slots_def)
    show ?thesis
    proof (rule finish)
      let ?ds' = "?ds @ replicate (?pg - length ?ds) None @ [Some nb]"
      show "dt_slots ?ds' = insert (?pg, i) (dt_slots ?ds)" unfolding dt_slots_grow nb(4) using grow by simp
      show "page_sets_wf ?sz ?ds'" using pw nb i by (intro page_sets_wf_grow) auto
      show "length ?ds' \<le> 2 ^ 39" using grow page_index_less [of ptr] by simp
    qed (use grow nb(1) div new in \<open>simp_all add: dt_insert_def Let_def\<close>)
  qed
qed

lemma dt_contains_slot:
  assumes wf: "dt_wf dt" and p: "ptr_in_page ptr"
  shows "dt_contains dt ptr = Some (slot_of (fixed_row_size dt) ptr \<in> dt_slots (deleted dt))"
proof -
  let ?sz = "fixed_row_size dt" and ?ds = "deleted dt" and ?pg = "unat (ptr_page_index ptr)"
  let ?i = "unat (ptr_page_offset ptr) div unat ?sz"
  have sz: "?sz \<noteq> 0" using wf by (simp add: dt_wf_def)
  show ?thesis
  proof (cases "?pg < length ?ds \<and> ?ds ! ?pg \<noteq> None")
    case True
    then obtain bs where bs: "?pg < length ?ds" "?ds ! ?pg = Some bs" by auto
    have "?i < bitset_bits bs" using slot_in_page [OF sz p] page_setD(2) [OF wf bs] by linarith
    then have "bitset_get bs ?i = Some (?i \<in> bitset_members bs)" by (rule fbs.get_eq_members)
    then show ?thesis
      using bs sz by (simp add: dt_contains_def Let_def offset_div_def slot_of_def dt_slots_at)
  next
    case False
    then show ?thesis by (auto simp: dt_contains_def Let_def slot_of_def dt_slots_def)
  qed
qed

lemma dt_remove_wf:
  assumes wf: "dt_wf dt" and p: "ptr_in_page ptr"
  shows "\<exists>dt'. dt_remove dt ptr = Some (slot_of (fixed_row_size dt) ptr \<in> dt_slots (deleted dt), dt') \<and>
    dt_wf dt' \<and> fixed_row_size dt' = fixed_row_size dt \<and>
    dt_slots (deleted dt') = dt_slots (deleted dt) - {slot_of (fixed_row_size dt) ptr}"
proof -
  let ?sz = "fixed_row_size dt" and ?ds = "deleted dt" and ?pg = "unat (ptr_page_index ptr)"
  define i where "i = unat (ptr_page_offset ptr) div unat ?sz"
  have sz: "?sz \<noteq> 0" using wf by (simp add: dt_wf_def)
  have div: "offset_div (ptr_page_offset ptr) ?sz = Some i" using sz by (simp add: offset_div_def i_def)
  have i: "i < rows_per_page ?sz" unfolding i_def using slot_in_page [OF sz p] .
  have slot: "slot_of ?sz ptr = (?pg, i)" by (simp add: slot_of_def i_def)
  show ?thesis
  proof (cases "?pg < length ?ds \<and> ?ds ! ?pg \<noteq> None")
    case False
    then have "(?pg, i) \<notin> dt_slots ?ds" by (auto simp: dt_slots_def)
    moreover have "dt_remove dt ptr = Some (False, dt)" using False div by (auto simp: dt_remove_def Let_def)
    ultimately show ?thesis using wf by (simp add: slot)
  next
    case True
    then obtain bs where set: "?pg < length ?ds" "?ds ! ?pg = Some bs" by auto
    note bs = page_setD [OF wf set]
    obtain bs' where bs': "bitset_set bs i False = Some bs'"
      using i bs(2) fbs.put_None_iff [of bs i False] by (cases "bitset_set bs i False") auto
    have get: "bitset_get bs i = Some (i \<in> bitset_members bs)" using i bs(2) by (intro fbs.get_eq_members) simp
    have mem: "bitset_members bs' = bitset_members bs - {i}" using fbs.members_put [OF bs'] by simp
    let ?ds' = "?ds[?pg := Some bs']"
    have sl: "dt_slots ?ds' = dt_slots ?ds - {(?pg, i)}"
      unfolding dt_slots_update [OF set(1)] mem using set by (auto simp: dt_slots_def)
    have "page_sets_wf ?sz ?ds'"
      using wf bs i mem bitset_wf_set [OF bs'] fbs.put_capacity [OF bs']
      by (intro page_sets_wf_update) (auto simp: dt_wf_def)
    moreover have "dt_len dt - of_bool ((?pg, i) \<in> dt_slots ?ds) = card (dt_slots ?ds')"
      using wf finite_dt_slots [of ?ds] by (simp add: sl dt_wf_def card_Diff_singleton_if)
    ultimately show ?thesis
      using wf set get bs' div sl dt_slots_at [OF set] by (simp add: dt_remove_def Let_def slot dt_wf_def)
  qed
qed

subsection \<open>The iterator\<close>

definition slot_ptr_of :: "size_u16 \<Rightarrow> nat \<times> nat \<Rightarrow> row_pointer" where
  "slot_ptr_of sz s = row_pointer_new False (of_nat (fst s)) (of_nat (snd s) * sz) COMMITTED_STATE"

text \<open>A pointer to the start of a row of the committed state.\<close>

definition committed_row_ptr :: "size_u16 \<Rightarrow> row_pointer \<Rightarrow> bool" where
  "committed_row_ptr sz ptr \<longleftrightarrow> \<not> reserved_bit ptr \<and> ptr_squashed_offset ptr = COMMITTED_STATE \<and>
     ptr_in_page ptr \<and> unat (ptr_page_offset ptr) mod unat sz = 0"

lemma slot_ptr_of_fields:
  assumes "pg < 2 ^ 39" and "i < rows_per_page sz" and "sz \<noteq> 0"
  shows "ptr_page_index (slot_ptr_of sz (pg, i)) = of_nat pg" "unat (ptr_page_index (slot_ptr_of sz (pg, i))) = pg"
    "unat (ptr_page_offset (slot_ptr_of sz (pg, i))) = i * unat sz"
    "committed_row_ptr sz (slot_ptr_of sz (pg, i))" "slot_of sz (slot_ptr_of sz (pg, i)) = (pg, i)"
proof -
  have u: "unat (of_nat pg :: u64) = pg" using assms(1) by (simp add: unat_of_nat)
  then show pi: "ptr_page_index (slot_ptr_of sz (pg, i)) = of_nat pg"
    using assms(1) by (simp add: slot_ptr_of_def MASK_PI_trunc)
  show pg: "unat (ptr_page_index (slot_ptr_of sz (pg, i))) = pg" by (simp add: pi u)
  have sz: "0 < unat sz" using assms(3) by (simp add: unat_gt_0)
  have lt: "i * unat sz < 65472" using assms(2) unfolding rows_per_page_def less_div_ceil [OF sz] .
  have "i \<le> i * unat sz" using sz by simp
  then have "i < 65536" using lt by linarith
  then have "unat (of_nat i * sz) = i * unat sz" using lt by (simp add: unat_word_ariths unat_of_nat)
  then show po: "unat (ptr_page_offset (slot_ptr_of sz (pg, i))) = i * unat sz" by (simp add: slot_ptr_of_def)
  then show "committed_row_ptr sz (slot_ptr_of sz (pg, i))"
    using lt by (simp add: committed_row_ptr_def ptr_in_page_def word_less_nat_alt) (simp add: slot_ptr_of_def)
  show "slot_of sz (slot_ptr_of sz (pg, i)) = (pg, i)" using sz by (simp add: slot_of_def pg po)
qed

lemma slot_ptr_of_slot:
  assumes "committed_row_ptr sz ptr"
  shows "slot_ptr_of sz (slot_of sz ptr) = ptr"
proof (rule row_pointer_eqI)
  have "unat (ptr_page_offset ptr) div unat sz * unat sz = unat (ptr_page_offset ptr)"
    using assms div_mult_mod_eq [of "unat (ptr_page_offset ptr)" "unat sz"] by (simp add: committed_row_ptr_def)
  then have "(of_nat (unat (ptr_page_offset ptr) div unat sz * unat sz) :: u16) = of_nat (unat (ptr_page_offset ptr))"
    by (simp only:)
  then have "of_nat (unat (ptr_page_offset ptr) div unat sz) * sz = ptr_page_offset ptr"
    by (simp only: of_nat_mult of_nat_unat ucast_id)
  then show "ptr_page_offset (slot_ptr_of sz (slot_of sz ptr)) = ptr_page_offset ptr"
    by (simp add: slot_ptr_of_def slot_of_def)
  show "ptr_page_index (slot_ptr_of sz (slot_of sz ptr)) = ptr_page_index ptr"
    using page_index_less [of ptr] by (simp add: slot_ptr_of_def slot_of_def MASK_PI_trunc)
qed (use assms in \<open>simp_all add: slot_ptr_of_def committed_row_ptr_def\<close>)

lemma dt_iter_slots:
  assumes "dt_wf dt"
  shows "dt_iter dt = map (slot_ptr_of (fixed_row_size dt))
      (concat (map (\<lambda>pg. case deleted dt ! pg of None \<Rightarrow> [] | Some bs \<Rightarrow>
          map (Pair pg) (filter (\<lambda>i. i \<in> bitset_members bs) [0..<bitset_bits bs])) [0..<length (deleted dt)]))"
proof -
  let ?sz = "fixed_row_size dt" and ?ds = "deleted dt"
  let ?slots = "\<lambda>pg. case ?ds ! pg of None \<Rightarrow> [] | Some bs \<Rightarrow>
    map (Pair pg) (filter (\<lambda>i. i \<in> bitset_members bs) [0..<bitset_bits bs])"
  have "(case ?ds ! pg of None \<Rightarrow> [] | Some bs \<Rightarrow> dt_page_iter ?sz pg bs) = map (slot_ptr_of ?sz) (?slots pg)"
    if pg: "pg < length ?ds" for pg
  proof (cases "?ds ! pg")
    case (Some bs)
    then show ?thesis
      using page_setD(1) [OF assms pg Some]
      by (simp add: dt_page_iter_def slot_ptr_of_def iter_set_collect_members)
  qed simp
  then have "map (\<lambda>(pi, bs). case bs of None \<Rightarrow> [] | Some bs \<Rightarrow> dt_page_iter ?sz pi bs) (enumerate 0 ?ds)
      = map (map (slot_ptr_of ?sz)) (map ?slots [0..<length ?ds])"
    by (intro nth_equalityI) (simp_all add: nth_enumerate_eq)
  then show ?thesis by (simp only: dt_iter_def map_concat)
qed

lemma dt_iter_set:
  assumes wf: "dt_wf dt"
  shows "distinct (dt_iter dt)" and "set (dt_iter dt) = slot_ptr_of (fixed_row_size dt) ` dt_slots (deleted dt)"
proof -
  let ?ds = "deleted dt" and ?sz = "fixed_row_size dt"
  let ?page = "\<lambda>pg. case ?ds ! pg of None \<Rightarrow> [] | Some bs \<Rightarrow>
    map (Pair pg) (filter (\<lambda>i. i \<in> bitset_members bs) [0..<bitset_bits bs])"
  let ?slots = "concat (map ?page [0..<length ?ds])"
  have page: "set (?page pg) = {s \<in> dt_slots ?ds. fst s = pg}" if "pg < length ?ds" for pg
  proof (cases "?ds ! pg")
    case (Some bs)
    have "i \<in> bitset_members bs \<Longrightarrow> i < bitset_bits bs" for i using fbs.members_subset [of bs] by auto
    with Some that show ?thesis by (auto simp: dt_slots_def)
  qed (use that in \<open>auto simp: dt_slots_def\<close>)
  have set: "set ?slots = dt_slots ?ds"
  proof -
    have "set ?slots = (\<Union>pg\<in>{..<length ?ds}. set (?page pg))" by (simp add: atLeast0LessThan)
    also have "\<dots> = (\<Union>pg\<in>{..<length ?ds}. {s \<in> dt_slots ?ds. fst s = pg})" using page by simp
    also have "\<dots> = dt_slots ?ds" by (auto simp: dt_slots_def)
    finally show ?thesis .
  qed
  then show "set (dt_iter dt) = slot_ptr_of ?sz ` dt_slots ?ds" by (simp only: dt_iter_slots [OF wf] set_map)
  have dis: "distinct ?slots"
  proof (rule distinct_concat_keyed [of _ _ fst])
    show "distinct (?page pg) \<and> (\<forall>s\<in>set (?page pg). fst s = pg)" for pg
      by (cases "?ds ! pg") (auto simp: distinct_map inj_on_def)
  qed simp
  have "inj_on (slot_ptr_of ?sz) (dt_slots ?ds)"
  proof (rule inj_on_inverseI [of _ "slot_of ?sz"])
    fix s assume "s \<in> dt_slots ?ds"
    then obtain pg i bs where s: "s = (pg, i)" "pg < length ?ds" "?ds ! pg = Some bs" "i \<in> bitset_members bs"
      by (auto simp: dt_slots_def)
    then show "slot_of ?sz (slot_ptr_of ?sz s) = s"
      using wf page_setD(3) [OF wf s(2,3)] by (simp add: slot_ptr_of_fields dt_wf_def)
  qed
  then show "distinct (dt_iter dt)" using dis set by (simp only: dt_iter_slots [OF wf] distinct_map)
qed

subsection \<open>Properties\<close>

text \<open>Claim C7.  On a well-formed delete table and a pointer into a page, marking, un-marking and
  querying never panic; they act on the pointer's slot only, report what the slot was before, and
  keep the table well-formed, in particular its cached length equal to the number of marked slots.\<close>

theorem dt_operations:
  assumes "dt_wf dt" and "ptr_in_page ptr"
  defines "s \<equiv> slot_of (fixed_row_size dt) ptr" and "marked \<equiv> dt_slots (deleted dt)"
  shows "dt_contains dt ptr = Some (s \<in> marked) \<and>
    (\<exists>dt'. dt_insert dt ptr = Some (s \<notin> marked, dt') \<and> dt_wf dt' \<and> dt_slots (deleted dt') = insert s marked \<and>
       dt_contains dt' ptr = Some True) \<and>
    (\<exists>dt'. dt_remove dt ptr = Some (s \<in> marked, dt') \<and> dt_wf dt' \<and> dt_slots (deleted dt') = marked - {s} \<and>
       dt_contains dt' ptr = Some False)"
proof -
  obtain d1 where d1: "dt_insert dt ptr = Some (s \<notin> marked, d1)" "dt_wf d1" "fixed_row_size d1 = fixed_row_size dt"
    "dt_slots (deleted d1) = insert s marked"
    using dt_insert_wf [OF assms(1,2)] unfolding s_def marked_def by blast
  obtain d2 where d2: "dt_remove dt ptr = Some (s \<in> marked, d2)" "dt_wf d2" "fixed_row_size d2 = fixed_row_size dt"
    "dt_slots (deleted d2) = marked - {s}"
    using dt_remove_wf [OF assms(1,2)] unfolding s_def marked_def by blast
  have "dt_contains d1 ptr = Some True" "dt_contains d2 ptr = Some False"
    using dt_contains_slot [OF d1(2) assms(2)] dt_contains_slot [OF d2(2) assms(2)] d1(3,4) d2(3,4)
    by (simp_all add: s_def)
  with d1 d2 dt_contains_slot [OF assms(1,2)] show ?thesis unfolding s_def marked_def by blast
qed

theorem dt_operations_witness:
  "\<exists>dt'. dt_insert (dt_new 16) (row_pointer_new False 3 32 1) = Some (True, dt') \<and> dt_wf dt' \<and>
     dt_contains dt' (row_pointer_new False 3 32 1) = Some True"
proof -
  have "dt_wf (dt_new 16)" by (simp add: dt_wf_def dt_new_def page_sets_wf_def dt_slots_def)
  moreover have "ptr_in_page (row_pointer_new False 3 32 1)"
    by (simp add: ptr_in_page_def word_less_nat_alt)
  moreover have "dt_slots (deleted (dt_new 16)) = {}" by (simp add: dt_new_def dt_slots_def)
  ultimately show ?thesis using dt_operations [of "dt_new 16" "row_pointer_new False 3 32 1"] by auto
qed

text \<open>Claim C28.  Iterating a delete table yields every marked committed row exactly once: the
  pointers are distinct, there are as many as the cached length says, and a pointer to the start of a
  committed row is among them exactly when the table contains it.\<close>

theorem dt_iter_complete:
  assumes "dt_wf dt"
  shows "distinct (dt_iter dt) \<and> length (dt_iter dt) = dt_len dt \<and>
    (\<forall>ptr. committed_row_ptr (fixed_row_size dt) ptr \<longrightarrow> (ptr \<in> set (dt_iter dt) \<longleftrightarrow> dt_contains dt ptr = Some True))"
proof -
  let ?sz = "fixed_row_size dt" and ?S = "dt_slots (deleted dt)"
  note it = dt_iter_set [OF assms]
  have inv: "slot_of ?sz (slot_ptr_of ?sz s) = s" if s: "s \<in> ?S" for s
  proof -
    obtain pg i bs where *: "s = (pg, i)" "pg < length (deleted dt)" "deleted dt ! pg = Some bs" "i \<in> bitset_members bs"
      using s by (auto simp: dt_slots_def)
    then show ?thesis using assms page_setD(3) [OF assms *(2,3)] by (simp add: slot_ptr_of_fields dt_wf_def)
  qed
  have "length (dt_iter dt) = card (set (dt_iter dt))" using it(1) by (simp add: distinct_card)
  also have "\<dots> = card ?S"
  proof -
    have "inj_on (slot_ptr_of ?sz) ?S" using inv by (rule inj_on_inverseI)
    then show ?thesis unfolding it(2) by (rule card_image)
  qed
  finally have "length (dt_iter dt) = dt_len dt" using assms by (simp add: dt_wf_def)
  moreover have "ptr \<in> set (dt_iter dt) \<longleftrightarrow> dt_contains dt ptr = Some True" if "committed_row_ptr ?sz ptr" for ptr
  proof -
    have "ptr \<in> slot_ptr_of ?sz ` ?S \<longleftrightarrow> slot_of ?sz ptr \<in> ?S"
    proof
      assume "ptr \<in> slot_ptr_of ?sz ` ?S"
      then show "slot_of ?sz ptr \<in> ?S" using inv by auto
    next
      assume "slot_of ?sz ptr \<in> ?S"
      then have "slot_ptr_of ?sz (slot_of ?sz ptr) \<in> slot_ptr_of ?sz ` ?S" by (rule imageI)
      then show "ptr \<in> slot_ptr_of ?sz ` ?S" by (simp only: slot_ptr_of_slot [OF that])
    qed
    moreover have "ptr_in_page ptr" using that by (simp add: committed_row_ptr_def)
    ultimately show ?thesis by (simp add: it(2) dt_contains_slot [OF assms])
  qed
  ultimately show ?thesis using it(1) by blast
qed

theorem dt_iter_complete_witness:
  "distinct (dt_iter (dt_new 8)) \<and> length (dt_iter (dt_new 8)) = dt_len (dt_new 8) \<and>
    (row_pointer_new False 3 32 1 \<in> set (dt_iter (dt_new 8))
       \<longleftrightarrow> dt_contains (dt_new 8) (row_pointer_new False 3 32 1) = Some True)"
proof -
  have "dt_wf (dt_new 8)" by (simp add: dt_wf_def dt_new_def page_sets_wf_def dt_slots_def)
  moreover have "committed_row_ptr (fixed_row_size (dt_new 8)) (row_pointer_new False 3 32 1)"
    by (simp add: committed_row_ptr_def dt_new_def ptr_in_page_def word_less_nat_alt COMMITTED_STATE_def)
  ultimately show ?thesis using dt_iter_complete [of "dt_new 8"] by blast
qed

end
