(* ===== verification/Blob_Store.thy ===== *)
theory Blob_Store
  imports Stdb_Prelude "HOL-Library.Mapping" "HOL-Library.List_Lexorder"
begin

text \<open>
  \<^verbatim>\<open>crates/table/src/blob_store.rs\<close>: the reference-counted, content-addressed store for large
  objects.  BLAKE3 is outside the sources: it is the parameter \<open>blake3\<close> of the operations that hash.
\<close>

subsection \<open>Operations\<close>

type_synonym blob_hash = "byte list"

definition BLOB_HASH_SIZE :: nat where
  "BLOB_HASH_SIZE = 32"

definition hash_from_bytes :: "(byte list \<Rightarrow> blob_hash) \<Rightarrow> byte list \<Rightarrow> blob_hash" where
  "hash_from_bytes blake3 bytes = blake3 bytes"

definition blob_hash_try_from :: "byte list \<Rightarrow> unit + blob_hash" where
  "blob_hash_try_from data = (if length data = BLOB_HASH_SIZE then Inr data else Inl ())"

datatype no_such_blob_error = NoSuchBlobError

record blob_object =
  uses :: nat
  blob :: "byte list"

record blob_store =
  blob_map :: "(blob_hash, blob_object) mapping"

definition blob_store_default :: blob_store where
  "blob_store_default = \<lparr>blob_map = Mapping.empty\<rparr>"

definition clone_blob :: "blob_store \<Rightarrow> blob_hash \<Rightarrow> (no_such_blob_error + unit) \<times> blob_store" where
  "clone_blob bs h =
     (case Mapping.lookup (blob_map bs) h of
        None \<Rightarrow> (Inl NoSuchBlobError, bs)
      | Some obj \<Rightarrow> (Inr (), bs\<lparr>blob_map := Mapping.update h (obj\<lparr>uses := uses obj + 1\<rparr>) (blob_map bs)\<rparr>))"

definition insert_with_uses :: "blob_store \<Rightarrow> blob_hash \<Rightarrow> nat \<Rightarrow> byte list \<Rightarrow> blob_store" where
  "insert_with_uses bs h n bytes =
     bs\<lparr>blob_map := Mapping.update h
          (case Mapping.lookup (blob_map bs) h of
             Some obj \<Rightarrow> obj\<lparr>uses := uses obj + n\<rparr>
           | None \<Rightarrow> \<lparr>uses = n, blob = bytes\<rparr>) (blob_map bs)\<rparr>"

definition insert_blob :: "(byte list \<Rightarrow> blob_hash) \<Rightarrow> blob_store \<Rightarrow> byte list \<Rightarrow> blob_hash \<times> blob_store" where
  "insert_blob blake3 bs bytes =
     (let h = hash_from_bytes blake3 bytes
      in (h, bs\<lparr>blob_map := Mapping.update h
               (case Mapping.lookup (blob_map bs) h of
                  Some obj \<Rightarrow> obj\<lparr>uses := uses obj + 1\<rparr>
                | None \<Rightarrow> \<lparr>uses = 1, blob = bytes\<rparr>) (blob_map bs)\<rparr>))"

definition retrieve_blob :: "blob_store \<Rightarrow> blob_hash \<Rightarrow> no_such_blob_error + byte list" where
  "retrieve_blob bs h =
     (case Mapping.lookup (blob_map bs) h of None \<Rightarrow> Inl NoSuchBlobError | Some obj \<Rightarrow> Inr (blob obj))"

definition free_blob :: "blob_store \<Rightarrow> blob_hash \<Rightarrow> (no_such_blob_error + unit) \<times> blob_store" where
  "free_blob bs h =
     (case Mapping.lookup (blob_map bs) h of
        None \<Rightarrow> (Inl NoSuchBlobError, bs)
      | Some obj \<Rightarrow>
          (Inr (), bs\<lparr>blob_map :=
             (if uses obj = 1 then Mapping.delete h (blob_map bs)
              else Mapping.update h (obj\<lparr>uses := uses obj - 1\<rparr>) (blob_map bs))\<rparr>))"

text \<open>The hash map yields its entries in an unspecified order; the model lists them by hash.\<close>

definition iter_blobs :: "blob_store \<Rightarrow> (blob_hash \<times> nat \<times> byte list) list" where
  "iter_blobs bs = map (\<lambda>h. case Mapping.lookup (blob_map bs) h of
       Some obj \<Rightarrow> (h, uses obj, blob obj) | None \<Rightarrow> (h, 0, [])) (Mapping.ordered_keys (blob_map bs))"

definition bytes_used_by_blobs :: "blob_store \<Rightarrow> u64" where
  "bytes_used_by_blobs bs = sum_list (map (\<lambda>(_, n, data). of_nat (length data) * of_nat n) (iter_blobs bs))"

definition num_blobs :: "blob_store \<Rightarrow> u64" where
  "num_blobs bs = sum_list (map (\<lambda>(_, n, _). of_nat n) (iter_blobs bs))"

subsection \<open>The store as a bag of references\<close>

definition refs :: "blob_store \<Rightarrow> blob_hash \<Rightarrow> nat" where
  "refs bs h = (case Mapping.lookup (blob_map bs) h of None \<Rightarrow> 0 | Some obj \<Rightarrow> uses obj)"

text \<open>Every entry is referenced and stored under the hash of its bytes.\<close>

definition blobs_wf :: "(byte list \<Rightarrow> blob_hash) \<Rightarrow> blob_store \<Rightarrow> bool" where
  "blobs_wf blake3 bs \<longleftrightarrow> finite (Mapping.keys (blob_map bs)) \<and>
     (\<forall>h obj. Mapping.lookup (blob_map bs) h = Some obj \<longrightarrow> 0 < uses obj \<and> blake3 (blob obj) = h)"

lemma blobs_wf_update:
  "blobs_wf b bs \<Longrightarrow> 0 < uses obj \<Longrightarrow> b (blob obj) = h \<Longrightarrow>
     blobs_wf b (bs\<lparr>blob_map := Mapping.update h obj (blob_map bs)\<rparr>)"
  by (auto simp: blobs_wf_def lookup_update' split: if_splits)

lemma refs_update [simp]:
  "refs (bs\<lparr>blob_map := Mapping.update h obj (blob_map bs)\<rparr>) = (refs bs)(h := uses obj)"
  "refs (bs\<lparr>blob_map := Mapping.delete h (blob_map bs)\<rparr>) = (refs bs)(h := 0)"
proof -
  show "refs (bs\<lparr>blob_map := Mapping.update h obj (blob_map bs)\<rparr>) = (refs bs)(h := uses obj)"
    by (auto simp: refs_def lookup_update' fun_eq_iff)
  have "Mapping.lookup (Mapping.delete h m) k = (if k = h then None else Mapping.lookup m k)" for m k
    by (cases "k = h") auto
  then show "refs (bs\<lparr>blob_map := Mapping.delete h (blob_map bs)\<rparr>) = (refs bs)(h := 0)"
    by (auto simp: refs_def fun_eq_iff)
qed

lemma refs_0_iff: "blobs_wf b bs \<Longrightarrow> refs bs h = 0 \<longleftrightarrow> Mapping.lookup (blob_map bs) h = None"
  by (auto simp: refs_def blobs_wf_def split: option.splits)

lemma lookup_delete_if: "Mapping.lookup (Mapping.delete h m) k = (if k = h then None else Mapping.lookup m k)"
  by (cases "k = h") auto

lemma num_blobs_refs:
  assumes "blobs_wf b bs"
  shows "num_blobs bs = of_nat (\<Sum>h\<in>Mapping.keys (blob_map bs). refs bs h)"
proof -
  have "map (\<lambda>(_, n, _). of_nat n) (iter_blobs bs) = map (\<lambda>h. of_nat (refs bs h) :: u64) (Mapping.ordered_keys (blob_map bs))"
    by (auto simp: iter_blobs_def refs_def split: option.splits)
  then have "num_blobs bs = (\<Sum>h\<in>set (Mapping.ordered_keys (blob_map bs)). of_nat (refs bs h))"
    by (simp add: num_blobs_def sum_list_distinct_conv_sum_set Mapping.ordered_keys_def)
  then show ?thesis using assms by (simp add: Mapping.ordered_keys_def blobs_wf_def)
qed

datatype blob_op = InsertBlob "byte list" | CloneBlob blob_hash | FreeBlob blob_hash

fun blob_step :: "(byte list \<Rightarrow> blob_hash) \<Rightarrow> blob_op \<Rightarrow> blob_store \<Rightarrow> blob_store" where
  "blob_step b (InsertBlob bytes) bs = snd (insert_blob b bs bytes)"
| "blob_step b (CloneBlob h) bs = snd (clone_blob bs h)"
| "blob_step b (FreeBlob h) bs = snd (free_blob bs h)"

text \<open>The count of references the operations stand for: cloning and freeing an absent blob fail.\<close>

fun ref_step :: "(byte list \<Rightarrow> blob_hash) \<Rightarrow> blob_op \<Rightarrow> (blob_hash \<Rightarrow> nat) \<Rightarrow> blob_hash \<Rightarrow> nat" where
  "ref_step b (InsertBlob bytes) r = r(b bytes := r (b bytes) + 1)"
| "ref_step b (CloneBlob h) r = (if r h = 0 then r else r(h := r h + 1))"
| "ref_step b (FreeBlob h) r = r(h := r h - 1)"

lemma blob_step_wf:
  assumes wf: "blobs_wf b bs"
  shows "blobs_wf b (blob_step b op bs) \<and> refs (blob_step b op bs) = ref_step b op (refs bs)"
proof (cases op)
  case (InsertBlob bytes)
  let ?h = "b bytes"
  show ?thesis
  proof (cases "Mapping.lookup (blob_map bs) ?h")
    case None
    then have "refs bs ?h = 0" by (simp add: refs_def)
    with None wf InsertBlob show ?thesis
      by (simp add: insert_blob_def hash_from_bytes_def blobs_wf_update Let_def)
  next
    case (Some obj)
    then have "b (blob obj) = ?h" "refs bs ?h = uses obj" using wf by (auto simp: blobs_wf_def refs_def)
    with Some wf InsertBlob show ?thesis
      by (simp add: insert_blob_def hash_from_bytes_def blobs_wf_update Let_def)
  qed
next
  case (CloneBlob h)
  show ?thesis
  proof (cases "Mapping.lookup (blob_map bs) h")
    case None
    with wf CloneBlob show ?thesis by (simp add: clone_blob_def refs_0_iff)
  next
    case (Some obj)
    then have "b (blob obj) = h" "refs bs h = uses obj" "0 < uses obj" using wf by (auto simp: blobs_wf_def refs_def)
    with Some wf CloneBlob show ?thesis by (simp add: clone_blob_def blobs_wf_update)
  qed
next
  case (FreeBlob h)
  show ?thesis
  proof (cases "Mapping.lookup (blob_map bs) h")
    case None
    then have "refs bs h = 0" by (simp add: refs_def)
    with None wf FreeBlob show ?thesis by (simp add: free_blob_def fun_upd_idem)
  next
    case (Some obj)
    then have obj: "b (blob obj) = h" "refs bs h = uses obj" "0 < uses obj" using wf by (auto simp: blobs_wf_def refs_def)
    have "blobs_wf b (bs\<lparr>blob_map := Mapping.delete h (blob_map bs)\<rparr>)"
      using wf by (auto simp: blobs_wf_def lookup_delete_if)
    with Some wf FreeBlob obj show ?thesis by (simp add: free_blob_def blobs_wf_update)
  qed
qed

lemma blob_run_wf:
  "blobs_wf b bs \<Longrightarrow> blobs_wf b (fold (blob_step b) ops bs) \<and> refs (fold (blob_step b) ops bs) = fold (ref_step b) ops (refs bs)"
  by (induction ops arbitrary: bs) (simp_all add: blob_step_wf)

text \<open>The bytes in the store are bytes that were inserted.\<close>

definition stored :: "blob_store \<Rightarrow> byte list set" where
  "stored bs = {blob obj | h obj. Mapping.lookup (blob_map bs) h = Some obj}"

lemma stored_update:
  "stored (bs\<lparr>blob_map := Mapping.update h obj (blob_map bs)\<rparr>) \<subseteq> insert (blob obj) (stored bs)"
  by (auto simp: stored_def lookup_update' split: if_splits)

lemma stored_lookup: "Mapping.lookup (blob_map bs) h = Some obj \<Longrightarrow> blob obj \<in> stored bs"
  by (auto simp: stored_def)

lemma stored_step: "stored (blob_step b op bs) \<subseteq> {x. op = InsertBlob x} \<union> stored bs"
proof (cases op)
  case (InsertBlob bytes)
  then show ?thesis
    using stored_lookup [of bs "b bytes"] by (fastforce simp: insert_blob_def hash_from_bytes_def Let_def
        split: option.split dest!: subsetD [OF stored_update])
next
  case (CloneBlob h)
  show ?thesis
  proof (cases "Mapping.lookup (blob_map bs) h")
    case (Some obj)
    with CloneBlob stored_lookup [OF Some] stored_update [of h "obj\<lparr>uses := uses obj + 1\<rparr>" bs]
    show ?thesis by (auto simp: clone_blob_def)
  qed (simp add: CloneBlob clone_blob_def)
next
  case (FreeBlob h)
  have del: "stored (bs\<lparr>blob_map := Mapping.delete h (blob_map bs)\<rparr>) \<subseteq> stored bs"
    by (auto simp: stored_def lookup_delete_if split: if_splits)
  show ?thesis
  proof (cases "Mapping.lookup (blob_map bs) h")
    case (Some obj)
    with FreeBlob del stored_lookup [OF Some] stored_update [of h "obj\<lparr>uses := uses obj - 1\<rparr>" bs]
    show ?thesis by (auto simp: free_blob_def)
  qed (simp add: FreeBlob free_blob_def)
qed

lemma stored_run: "stored (fold (blob_step b) ops bs) \<subseteq> {x. InsertBlob x \<in> set ops} \<union> stored bs"
proof (induction ops arbitrary: bs)
  case (Cons op ops)
  then show ?case using stored_step [of b op bs] by fastforce
qed simp

subsection \<open>Properties\<close>

text \<open>Claim C17.  Reference counting: after any sequence of insertions, clones and frees of blobs
  from the empty store, a blob is retrievable exactly when more references were taken than freed, its
  content is the bytes of its address (given that the hash has no
  collision among the bytes in play), and \<^const>\<open>num_blobs\<close>
  is the number of outstanding references.\<close>

theorem blob_store_refcounts:
  assumes "inj_on b (insert bytes {x. InsertBlob x \<in> set ops})"
  defines "bs \<equiv> fold (blob_step b) ops blob_store_default"
  shows "retrieve_blob bs (b bytes)
      = (if fold (ref_step b) ops (\<lambda>_. 0) (b bytes) = 0 then Inl NoSuchBlobError else Inr bytes) \<and>
    num_blobs bs = of_nat (\<Sum>h\<in>Mapping.keys (blob_map bs). fold (ref_step b) ops (\<lambda>_. 0) h)"
proof -
  have init: "blobs_wf b blob_store_default" "refs blob_store_default = (\<lambda>_. 0)"
    by (simp_all add: blobs_wf_def blob_store_default_def refs_def fun_eq_iff)
  note run = blob_run_wf [OF init(1), of ops, unfolded init(2), folded bs_def]
  have "blob obj = bytes" if lk: "Mapping.lookup (blob_map bs) (b bytes) = Some obj" for obj
  proof -
    have "stored blob_store_default = {}" by (simp add: stored_def blob_store_default_def)
    then have "blob obj \<in> {x. InsertBlob x \<in> set ops}"
      using stored_run [of b ops blob_store_default] stored_lookup [OF lk] by (auto simp: bs_def)
    moreover have "b (blob obj) = b bytes" using run lk by (auto simp: blobs_wf_def)
    ultimately show ?thesis using assms(1) by (meson inj_onD insertCI)
  qed
  then have "retrieve_blob bs (b bytes) = (if refs bs (b bytes) = 0 then Inl NoSuchBlobError else Inr bytes)"
    using refs_0_iff [of b bs "b bytes"] run by (auto simp: retrieve_blob_def split: option.splits)
  with run num_blobs_refs [of b bs] show ?thesis by simp
qed

theorem blob_store_refcounts_witness:
  "retrieve_blob (fold (blob_step id) [InsertBlob [1], InsertBlob [1], FreeBlob [1]] blob_store_default) (id [1])
     = Inr [1]"
  using blob_store_refcounts [of id "[1]" "[InsertBlob [1], InsertBlob [1], FreeBlob [1]]"] by simp

end
