(* ===== verification/Byte_Buffer.thy ===== *)
theory Byte_Buffer
  imports Stdb_Prelude
begin

text \<open>
  \<^verbatim>\<open>crates/sats/src/buffer.rs\<close>: the writers and readers every codec of the code is written
  against, and the actions (state passing with a \<^verbatim>\<open>Result\<close>) in which the decoders are modelled.
\<close>

unbundle bit_operations_syntax

subsection \<open>Fallible actions\<close>

text \<open>A function of Rust that takes \<^verbatim>\<open>&mut S\<close> and returns a \<^verbatim>\<open>Result\<close>; \<open>andThen\<close> is the
  \<^verbatim>\<open>?\<close> operator.  The state survives an error.\<close>

type_synonym ('s, 'e, 'a) act = "'s \<Rightarrow> ('e + 'a) \<times> 's"

definition ret :: "'a \<Rightarrow> ('s, 'e, 'a) act" where
  "ret x s = (Inr x, s)"

definition fail_with :: "'e \<Rightarrow> ('s, 'e, 'a) act" where
  "fail_with e s = (Inl e, s)"

definition andThen :: "('s, 'e, 'a) act \<Rightarrow> ('a \<Rightarrow> ('s, 'e, 'b) act) \<Rightarrow> ('s, 'e, 'b) act" where
  "andThen m f s = (case m s of (Inl e, s') \<Rightarrow> (Inl e, s') | (Inr x, s') \<Rightarrow> f x s')"

definition map_ok :: "('a \<Rightarrow> 'b) \<Rightarrow> ('s, 'e, 'a) act \<Rightarrow> ('s, 'e, 'b) act" where
  "map_ok f m = andThen m (\<lambda>x. ret (f x))"

definition map_err :: "('e \<Rightarrow> 'f) \<Rightarrow> ('s, 'e, 'a) act \<Rightarrow> ('s, 'f, 'a) act" where
  "map_err f m s = (case m s of (Inl e, s') \<Rightarrow> (Inl (f e), s') | (Inr x, s') \<Rightarrow> (Inr x, s'))"

text \<open>\<^verbatim>\<open>for _ in 0..n { v.push(m?) }\<close>, and the same loop with the results dropped.\<close>

primrec collect_n :: "nat \<Rightarrow> ('s, 'e, 'a) act \<Rightarrow> ('s, 'e, 'a list) act" where
  "collect_n 0 m = ret []"
| "collect_n (Suc n) m = andThen m (\<lambda>x. andThen (collect_n n m) (\<lambda>xs. ret (x # xs)))"

primrec repeat_n :: "nat \<Rightarrow> ('s, 'e, 'a) act \<Rightarrow> ('s, 'e, unit) act" where
  "repeat_n 0 m = ret ()"
| "repeat_n (Suc n) m = andThen m (\<lambda>_. repeat_n n m)"

lemma andThen_ret [simp]: "andThen (ret x) f = f x"
  by (rule ext) (simp add: andThen_def ret_def)

lemma andThen_ret_right: "andThen m ret = m"
  by (rule ext) (auto simp: andThen_def ret_def split: prod.split sum.split)

lemma andThen_assoc: "andThen (andThen m f) g = andThen m (\<lambda>x. andThen (f x) g)"
  by (rule ext) (auto simp: andThen_def split: prod.splits sum.splits)

lemma andThen_fail [simp]: "andThen (fail_with e) f = fail_with e"
  by (rule ext) (simp add: andThen_def fail_with_def)

text \<open>\<open>returns m s x s'\<close>: the action succeeds with \<open>x\<close>.\<close>

abbreviation returns :: "('s, 'e, 'a) act \<Rightarrow> 's \<Rightarrow> 'a \<Rightarrow> 's \<Rightarrow> bool" where
  "returns m s x s' \<equiv> m s = (Inr x, s')"

lemma andThen_returns: "returns m s x s' \<Longrightarrow> andThen m f s = f x s'"
  by (simp add: andThen_def)

lemma andThen_eq_Inr_iff:
  "andThen m f s = (Inr y, t) \<longleftrightarrow> (\<exists>x s'. m s = (Inr x, s') \<and> f x s' = (Inr y, t))"
  by (auto simp: andThen_def split: prod.splits sum.splits)

lemma map_ok_returns: "returns m s x s' \<Longrightarrow> returns (map_ok f m) s (f x) s'"
  by (simp add: map_ok_def andThen_returns ret_def)

lemma map_ok_andThen: "map_ok g (andThen m f) = andThen m (\<lambda>x. map_ok g (f x))"
  by (simp add: map_ok_def andThen_assoc)

lemma map_ok_ret [simp]: "map_ok f (ret x) = ret (f x)"
  by (simp add: map_ok_def)

lemma repeat_n_collect: "repeat_n n m = map_ok (\<lambda>_. ()) (collect_n n m)"
  by (induction n) (simp_all add: map_ok_def andThen_assoc)

lemma andThen_map_ok: "andThen (map_ok f m) g = andThen m (\<lambda>x. g (f x))"
  by (simp add: map_ok_def andThen_assoc)

lemma andThen_drop: "andThen m (\<lambda>_. k) = andThen (map_ok (\<lambda>_. ()) m) (\<lambda>_. k)"
  by (simp add: andThen_map_ok)

lemma repeat_n_cong_drop:
  fixes m :: "('s, 'e, 'a) act" and m' :: "('s, 'e, 'b) act"
  assumes "map_ok (\<lambda>_. ()) m = map_ok (\<lambda>_. ()) m'"
  shows "repeat_n n m = repeat_n n m'"
proof (induction n)
  case (Suc n)
  then show ?case using assms by (simp add: andThen_drop [of m] andThen_drop [of m'])
qed simp

subsection \<open>Writers and readers\<close>

datatype decode_error =
    BufferLength string nat nat
  | InvalidLen nat nat
  | InvalidTag u8 "string option"
  | InvalidUtf8
  | InvalidBool u8
  | OtherError string

type_synonym 'a reader = "(byte list, decode_error, 'a) act"

text \<open>\<^verbatim>\<open>Vec<u8>\<close> as a writer: \<^verbatim>\<open>put_slice\<close> appends.  The integer writers append the
  little-endian bytes; a signed integer has the same bytes as the word it is stored in.\<close>

definition put_slice :: "byte list \<Rightarrow> byte list \<Rightarrow> byte list" where
  "put_slice bytes out = out @ bytes"

definition put_int :: "nat \<Rightarrow> 'a::len word \<Rightarrow> byte list \<Rightarrow> byte list" where
  "put_int n val = put_slice (to_le_bytes n val)"

definition put_u8 :: "u8 \<Rightarrow> byte list \<Rightarrow> byte list" where
  "put_u8 = put_int 1"

definition put_u16 :: "u16 \<Rightarrow> byte list \<Rightarrow> byte list" where
  "put_u16 = put_int 2"

definition put_u32 :: "u32 \<Rightarrow> byte list \<Rightarrow> byte list" where
  "put_u32 = put_int 4"

definition put_u64 :: "u64 \<Rightarrow> byte list \<Rightarrow> byte list" where
  "put_u64 = put_int 8"

definition put_u128 :: "128 word \<Rightarrow> byte list \<Rightarrow> byte list" where
  "put_u128 = put_int 16"

definition put_u256 :: "256 word \<Rightarrow> byte list \<Rightarrow> byte list" where
  "put_u256 = put_int 32"

text \<open>\<^verbatim>\<open>&mut [u8]\<close> as a writer: the slots still free; writing past them panics.\<close>

record slice_writer =
  sw_written :: "byte list"
  sw_room :: "byte list"

definition sw_put_slice :: "byte list \<Rightarrow> slice_writer \<Rightarrow> slice_writer option" where
  "sw_put_slice bytes w =
     (if length (sw_room w) < length bytes then None
      else Some \<lparr>sw_written = sw_written w @ bytes, sw_room = drop (length bytes) (sw_room w)\<rparr>)"

definition count_put_slice :: "byte list \<Rightarrow> nat \<Rightarrow> nat" where
  "count_put_slice bytes num_bytes = usize_wrap (num_bytes + length bytes)"

definition tee_put_slice ::
  "(byte list \<Rightarrow> 'a \<Rightarrow> 'a) \<Rightarrow> (byte list \<Rightarrow> 'b \<Rightarrow> 'b) \<Rightarrow> byte list \<Rightarrow> 'a \<times> 'b \<Rightarrow> 'a \<times> 'b" where
  "tee_put_slice put1 put2 bytes w = (put1 bytes (fst w), put2 bytes (snd w))"

text \<open>\<^verbatim>\<open>&[u8]\<close> as a reader: the remaining bytes.\<close>

definition get_chunk :: "nat \<Rightarrow> byte list \<Rightarrow> byte list option \<times> byte list" where
  "get_chunk n r = (if n \<le> length r then (Some (take n r), drop n r) else (None, r))"

definition remaining :: "byte list \<Rightarrow> nat" where
  "remaining r = length r"

definition get_slice :: "nat \<Rightarrow> byte list reader" where
  "get_slice n r = (case get_chunk n r of
       (Some c, r') \<Rightarrow> (Inr c, r')
     | (None, r') \<Rightarrow> (Inl (BufferLength ''[u8]'' n (remaining r')), r'))"

definition get_array :: "nat \<Rightarrow> byte list reader" where
  "get_array n r = (case get_chunk n r of
       (Some c, r') \<Rightarrow> (Inr c, r')
     | (None, r') \<Rightarrow> (Inl (BufferLength ''[u8; _]'' n (remaining r')), r'))"

definition get_int :: "string \<Rightarrow> nat \<Rightarrow> 'a::len word reader" where
  "get_int for_type n r = (case get_chunk n r of
       (Some arr, r') \<Rightarrow> (Inr (from_le_bytes arr), r')
     | (None, r') \<Rightarrow> (Inl (BufferLength for_type n (remaining r')), r'))"

definition get_u8 :: "u8 reader" where
  "get_u8 = get_int ''u8'' 1"

definition get_u16 :: "u16 reader" where
  "get_u16 = get_int ''u16'' 2"

definition get_u32 :: "u32 reader" where
  "get_u32 = get_int ''u32'' 4"

definition get_u64 :: "u64 reader" where
  "get_u64 = get_int ''u64'' 8"

definition get_u128 :: "128 word reader" where
  "get_u128 = get_int ''u128'' 16"

definition get_u256 :: "256 word reader" where
  "get_u256 = get_int ''u256'' 32"

text \<open>The signed readers differ in the type they report.\<close>

definition get_i8 :: "u8 reader" where
  "get_i8 = get_int ''i8'' 1"

definition get_i16 :: "u16 reader" where
  "get_i16 = get_int ''i16'' 2"

definition get_i32 :: "u32 reader" where
  "get_i32 = get_int ''i32'' 4"

definition get_i64 :: "u64 reader" where
  "get_i64 = get_int ''i64'' 8"

definition get_i128 :: "128 word reader" where
  "get_i128 = get_int ''i128'' 16"

definition get_i256 :: "256 word reader" where
  "get_i256 = get_int ''i256'' 32"

text \<open>\<^verbatim>\<open>Cursor\<close>: a shared buffer with a position.  A position past the end panics in the slicing.\<close>

record cursor =
  buf :: "byte list"
  pos :: nat

definition cursor_new :: "byte list \<Rightarrow> cursor" where
  "cursor_new b = \<lparr>buf = b, pos = 0\<rparr>"

definition cursor_get_chunk :: "nat \<Rightarrow> cursor \<Rightarrow> (byte list option \<times> cursor) option" where
  "cursor_get_chunk n c =
     (if length (buf c) < pos c then None
      else let b = drop (pos c) (buf c)
           in if n \<le> length b then Some (Some (take n b), c\<lparr>pos := usize_wrap (pos c + n)\<rparr>)
              else Some (None, c))"

definition cursor_remaining :: "cursor \<Rightarrow> nat" where
  "cursor_remaining c = length (buf c) - pos c"

subsection \<open>Reading back what was written\<close>

named_theorems reads

lemma get_chunk_append: "length c = n \<Longrightarrow> get_chunk n (c @ rest) = (Some c, rest)"
  by (simp add: get_chunk_def)

lemma get_slice_append [reads]: "length c = n \<Longrightarrow> returns (get_slice n) (c @ rest) c rest"
  by (simp add: get_slice_def get_chunk_append)

lemma get_array_append [reads]: "length c = n \<Longrightarrow> returns (get_array n) (c @ rest) c rest"
  by (simp add: get_array_def get_chunk_append)

lemma get_int_append:
  "LENGTH('a) = 8 * n \<Longrightarrow> returns (get_int t n) (to_le_bytes n w @ rest) (w :: 'a::len word) rest"
  by (simp add: get_int_def get_chunk_append from_le_bytes_to_le_bytes)

lemma get_ints_append [reads]:
  "returns get_u8 (to_le_bytes 1 a @ rest) a rest"
  "returns get_u16 (to_le_bytes 2 b @ rest) b rest"
  "returns get_u32 (to_le_bytes 4 c @ rest) c rest"
  "returns get_u64 (to_le_bytes 8 d @ rest) d rest"
  "returns get_u128 (to_le_bytes 16 e @ rest) e rest"
  "returns get_u256 (to_le_bytes 32 f @ rest) f rest"
  "returns get_i8 (to_le_bytes 1 a @ rest) a rest"
  "returns get_i16 (to_le_bytes 2 b @ rest) b rest"
  "returns get_i32 (to_le_bytes 4 c @ rest) c rest"
  "returns get_i64 (to_le_bytes 8 d @ rest) d rest"
  "returns get_i128 (to_le_bytes 16 e @ rest) e rest"
  "returns get_i256 (to_le_bytes 32 f @ rest) f rest"
  by (simp_all add: get_u8_def get_u16_def get_u32_def get_u64_def get_u128_def get_u256_def
      get_i8_def get_i16_def get_i32_def get_i64_def get_i128_def get_i256_def get_int_append
      del: to_le_bytes.simps One_nat_def)

lemma get_u8_Cons [simp]: "get_u8 (b # r) = (Inr b, r)"
  by (simp add: get_u8_def get_int_def get_chunk_def)

lemma get_u8_Nil [simp]: "get_u8 [] = (Inl (BufferLength ''u8'' 1 0), [])"
  by (simp add: get_u8_def get_int_def get_chunk_def remaining_def)

lemma get_then:
  "andThen get_u8 f1 (to_le_bytes 1 a @ rest) = f1 a rest"
  "andThen get_u16 f2 (to_le_bytes 2 b @ rest) = f2 b rest"
  "andThen get_u32 f3 (to_le_bytes 4 c @ rest) = f3 c rest"
  "andThen get_u64 f4 (to_le_bytes 8 d @ rest) = f4 d rest"
  by (simp_all only: andThen_def get_ints_append prod.case sum.case)

lemma get_slice_then: "length c = n \<Longrightarrow> andThen (get_slice n) f (c @ rest) = f c rest"
  by (simp add: andThen_def get_slice_append)

lemma unat_of_nat_id: "n < 2 ^ LENGTH('a) \<Longrightarrow> unat (of_nat n :: 'a::len word) = n"
  by (simp add: unat_of_nat)

lemma put_ints [simp]:
  "put_u8 a out = out @ to_le_bytes 1 a" "put_u16 b out = out @ to_le_bytes 2 b"
  "put_u32 c out = out @ to_le_bytes 4 c" "put_u64 d out = out @ to_le_bytes 8 d"
  "put_u128 e out = out @ to_le_bytes 16 e" "put_u256 f out = out @ to_le_bytes 32 f"
  by (simp_all add: put_u8_def put_u16_def put_u32_def put_u64_def put_u128_def put_u256_def put_int_def
      put_slice_def del: to_le_bytes.simps One_nat_def)

lemma collect_n_append [reads]:
  assumes "\<And>x rest. x \<in> set xs \<Longrightarrow> returns m (enc x @ rest) x rest"
  shows "returns (collect_n (length xs) m) (concat (map enc xs) @ rest) xs rest"
  using assms by (induction xs) (simp_all add: andThen_def ret_def)

subsection \<open>Decoders with a state of their own\<close>

text \<open>\<open>reads_as m x bs\<close>: from any state of the client, \<open>m\<close> takes \<open>bs\<close> off the reader and returns \<open>x\<close>.\<close>

definition reads_as :: "('v \<times> byte list, 'e, 'a) act \<Rightarrow> 'a \<Rightarrow> byte list \<Rightarrow> bool" where
  "reads_as m x bs \<longleftrightarrow> (\<forall>v rest. \<exists>v'. returns m (v, bs @ rest) x (v', rest))"

lemma reads_as_ret: "reads_as (ret x) x []"
  by (simp add: reads_as_def ret_def)

lemma reads_as_andThen:
  assumes "reads_as m x bs" and "reads_as (f x) y bs'"
  shows "reads_as (andThen m f) y (bs @ bs')"
  unfolding reads_as_def
proof (intro allI)
  fix v rest
  obtain v1 where "returns m (v, bs @ (bs' @ rest)) x (v1, bs' @ rest)" using assms(1) by (auto simp: reads_as_def)
  moreover obtain v2 where "returns (f x) (v1, bs' @ rest) y (v2, rest)" using assms(2) by (auto simp: reads_as_def)
  ultimately show "\<exists>v'. returns (andThen m f) (v, (bs @ bs') @ rest) y (v', rest)" by (auto simp: andThen_returns)
qed

lemma reads_as_collect:
  "(\<And>x. x \<in> set xs \<Longrightarrow> reads_as m x (f x)) \<Longrightarrow> reads_as (collect_n (length xs) m) xs (concat (map f xs))"
proof (induction xs)
  case (Cons x xs)
  have "reads_as (andThen (collect_n (length xs) m) (\<lambda>xs. ret (x # xs))) (x # xs) (concat (map f xs) @ [])"
    using Cons by (intro reads_as_andThen [where x = xs] reads_as_ret) auto
  then have "reads_as (andThen m (\<lambda>x. andThen (collect_n (length xs) m) (\<lambda>xs. ret (x # xs)))) (x # xs) (f x @ concat (map f xs))"
    using Cons.prems by (intro reads_as_andThen [where x = x]) auto
  then show ?case by simp
qed (simp add: reads_as_ret)

subsection \<open>Readers as byte sources\<close>

text \<open>A sequence of reads by size, with what each returned; \<^const>\<open>None\<close> is a panic.\<close>

fun read_all :: "(nat \<Rightarrow> 'r \<Rightarrow> (byte list option \<times> 'r) option) \<Rightarrow> nat list \<Rightarrow> 'r \<Rightarrow> (byte list option list \<times> 'r) option" where
  "read_all chunk [] r = Some ([], r)"
| "read_all chunk (n # ns) r = (case chunk n r of
       None \<Rightarrow> None
     | Some (c, r') \<Rightarrow> map_option (\<lambda>(cs, r''). (c # cs, r'')) (read_all chunk ns r'))"

lemma read_all_slice_total: "\<exists>v. read_all (\<lambda>n b. Some (get_chunk n b)) ns b = Some v"
proof (induction ns arbitrary: b)
  case (Cons n ns)
  obtain c b' where "get_chunk n b = (c, b')" by fastforce
  with Cons [of b'] show ?case by auto
qed simp

locale byte_source =
  fixes chunk :: "nat \<Rightarrow> 'r \<Rightarrow> (byte list option \<times> 'r) option"
    and rem :: "'r \<Rightarrow> nat"
    and left :: "'r \<Rightarrow> byte list"
    and ok :: "'r \<Rightarrow> bool"
  assumes rem_left: "ok r \<Longrightarrow> rem r = length (left r)"
    and chunk_left: "ok r \<Longrightarrow> \<exists>r'. chunk n r = Some (fst (get_chunk n (left r)), r') \<and>
                       left r' = snd (get_chunk n (left r)) \<and> ok r'"
begin

lemma read_all_left:
  "ok r \<Longrightarrow> \<exists>r'. read_all chunk ns r = Some (fst (the (read_all (\<lambda>n b. Some (get_chunk n b)) ns (left r))), r') \<and>
     left r' = snd (the (read_all (\<lambda>n b. Some (get_chunk n b)) ns (left r))) \<and> ok r' \<and>
     rem r' = length (left r')"
proof (induction ns arbitrary: r)
  case Nil
  then show ?case by (simp add: rem_left)
next
  case (Cons n ns)
  let ?run = "\<lambda>b. read_all (\<lambda>n b. Some (get_chunk n b)) ns b"
  obtain r' where r': "chunk n r = Some (fst (get_chunk n (left r)), r')"
    "left r' = snd (get_chunk n (left r))" "ok r'" using chunk_left [OF Cons.prems] by blast
  obtain v where v: "?run (left r') = Some v" using read_all_slice_total by blast
  from Cons.IH [OF r'(3)] v r' show ?case by (cases v) (auto simp: case_prod_unfold)
qed

end

definition cursor_ok :: "cursor \<Rightarrow> bool" where
  "cursor_ok c \<longleftrightarrow> pos c \<le> length (buf c) \<and> length (buf c) < 2 ^ 63"

interpretation cur: byte_source cursor_get_chunk cursor_remaining "\<lambda>c. drop (pos c) (buf c)" cursor_ok
proof unfold_locales
  fix c n
  assume ok: "cursor_ok c"
  then show "cursor_remaining c = length (drop (pos c) (buf c))" by (simp add: cursor_remaining_def)
  show "\<exists>c'. cursor_get_chunk n c = Some (fst (get_chunk n (drop (pos c) (buf c))), c') \<and>
      drop (pos c') (buf c') = snd (get_chunk n (drop (pos c) (buf c))) \<and> cursor_ok c'"
  proof (cases "n \<le> length (buf c) - pos c")
    case True
    then have "pos c + n \<le> length (buf c)" using ok by (auto simp: cursor_ok_def)
    then have "usize_wrap (pos c + n) = pos c + n" using ok by (intro usize_wrap_less) (simp add: cursor_ok_def)
    then show ?thesis using True ok
      by (auto simp: cursor_get_chunk_def get_chunk_def cursor_ok_def Let_def add.commute)
  qed (use ok in \<open>auto simp: cursor_get_chunk_def get_chunk_def cursor_ok_def Let_def\<close>)
qed

text \<open>Claim C35.  The two readers agree: on a buffer of any length a Rust slice can have, every
  sequence of reads through a fresh \<^verbatim>\<open>Cursor\<close> succeeds without a panic, returns the same chunks (and the
  same failures) as reading the slice, and leaves the same bytes.\<close>

theorem cursor_refines_slice:
  assumes "length b < 2 ^ 63"
  shows "\<exists>cs c rest. read_all cursor_get_chunk ns (cursor_new b) = Some (cs, c) \<and>
    read_all (\<lambda>n r. Some (get_chunk n r)) ns b = Some (cs, rest) \<and>
    drop (pos c) (buf c) = rest \<and> cursor_remaining c = remaining rest"
proof -
  have "cursor_ok (cursor_new b)" using assms by (simp add: cursor_ok_def cursor_new_def)
  note run = cur.read_all_left [OF this, of ns]
  obtain cs rest where "read_all (\<lambda>n r. Some (get_chunk n r)) ns b = Some (cs, rest)"
    using read_all_slice_total [of ns b] by auto
  with run show ?thesis by (auto simp: cursor_new_def remaining_def)
qed

theorem cursor_refines_slice_witness:
  "\<exists>cs c rest. read_all cursor_get_chunk [2, 5, 1] (cursor_new [1, 2, 3]) = Some (cs, c) \<and>
    read_all (\<lambda>n r. Some (get_chunk n r)) [2, 5, 1] [1, 2, 3] = Some (cs, rest) \<and>
    drop (pos c) (buf c) = rest \<and> cursor_remaining c = remaining rest"
  by (rule cursor_refines_slice) simp

end
