(* ===== verification/Varint.thy ===== *)
theory Varint
  imports Byte_Buffer "HOL-Library.Sublist"
begin

text \<open>
  \<^verbatim>\<open>crates/commitlog/src/varint.rs\<close>: base-128 varints of \<^verbatim>\<open>usize\<close> values, and
  \<^verbatim>\<open>crates/commitlog/src/varchar.rs\<close>: strings of bounded length, over Rust's UTF-8 strings.
\<close>

subsection \<open>Varints\<close>

function encode_varint :: "u64 \<Rightarrow> byte list \<Rightarrow> byte list" where
  "encode_varint v out =
     (if v < 0x80 then put_u8 (ucast v) out
      else encode_varint (drop_bit 7 v) (put_u8 (ucast ((v AND 0x7f) OR 0x80)) out))"
  by pat_completeness auto

lemma drop_bit_7_less: "\<not> v < 0x80 \<Longrightarrow> unat (drop_bit 7 v) < unat (v :: u64)"
  unfolding unat_drop_bit_eq word_less_nat_alt by (simp add: drop_bit_eq_div)

termination encode_varint
  by (relation "measure (\<lambda>(v, _). unat v)") (auto simp: drop_bit_7_less)

declare encode_varint.simps [simp del]

lemma get_u8_length: "get_u8 r = (Inr b, r') \<Longrightarrow> length r' < length r"
  by (cases r) auto

text \<open>In a release build a shift by 64 or more shifts by the amount modulo 64.\<close>

function decode_varint_loop :: "u64 \<Rightarrow> nat \<Rightarrow> u64 reader" where
  "decode_varint_loop result shift r =
     (case get_u8 r of
        (Inl e, r') \<Rightarrow> (Inl e, r')
      | (Inr b, r') \<Rightarrow>
          if b AND 0x80 = 0 then (Inr (result OR push_bit (shift mod 64) (ucast b)), r')
          else decode_varint_loop (result OR push_bit (shift mod 64) (ucast (b AND 0x7F))) (shift + 7) r')"
  by pat_completeness auto

termination decode_varint_loop
  by (relation "measure (\<lambda>(_, _, r). length r)") (auto dest!: get_u8_length [OF sym])

declare decode_varint_loop.simps [simp del]

definition decode_varint :: "u64 reader" where
  "decode_varint = decode_varint_loop 0 0"

lemma varint_masks:
  "(0x80 :: u8) = 2 ^ 7" "(0x7f :: u8) = mask 7" "(0x80 :: u64) = 2 ^ 7" "(0x7f :: u64) = mask 7"
  by (simp_all add: mask_eq_exp_minus_1)

lemma and_0x80_iff: "b AND 0x80 = 0 \<longleftrightarrow> \<not> bit b 7" for b :: u8
  unfolding varint_masks bit_eq_iff
  by (simp only: bit_and_iff bit_exp_iff possible_bit_word) (auto dest!: spec [of _ 7])

lemma encode_varint_append: "encode_varint v (out @ out') = out @ encode_varint v out'"
proof (induction v out' rule: encode_varint.induct)
  case (1 v out')
  show ?case
  proof (cases "v < 0x80")
    case True
    then show ?thesis by (simp add: encode_varint.simps [of v])
  next
    case False
    then show ?thesis using 1 [OF False] by (simp add: encode_varint.simps [of v])
  qed
qed

lemma decode_varint_loop_last:
  "\<not> bit b 7 \<Longrightarrow> decode_varint_loop acc s (b # r) = (Inr (acc OR push_bit (s mod 64) (ucast b)), r)"
  by (subst decode_varint_loop.simps) (simp add: and_0x80_iff)

lemma decode_varint_loop_more:
  "bit b 7 \<Longrightarrow> decode_varint_loop acc s (b # r) =
     decode_varint_loop (acc OR push_bit (s mod 64) (ucast (b AND 0x7F))) (s + 7) r"
  by (subst decode_varint_loop.simps) (simp add: and_0x80_iff)

lemma encode_varint_last: "v < 0x80 \<Longrightarrow> encode_varint v [] = [ucast v]"
  by (simp add: encode_varint.simps)

lemma encode_varint_more:
  "\<not> v < 0x80 \<Longrightarrow> encode_varint v [] = ucast ((v AND 0x7f) OR 0x80) # encode_varint (drop_bit 7 v) []"
  using encode_varint_append [of "drop_bit 7 v" "[ucast ((v AND 0x7f) OR 0x80)]" "[]"]
  by (simp add: encode_varint.simps [of v])

lemma more_byte:
  fixes v :: u64
  defines "b \<equiv> ucast ((v AND 0x7f) OR 0x80) :: u8"
  shows "bit b 7" "ucast (b AND 0x7F) = v AND mask 7"
proof -
  show "bit b 7" unfolding b_def varint_masks
    by (simp only: bit_simps possible_bit_word) simp
  show "ucast (b AND 0x7F) = v AND mask 7" unfolding b_def varint_masks
    by (rule bit_word_eqI) (simp only: bit_simps possible_bit_word, auto)
qed

lemma last_byte:
  fixes v :: u64
  assumes "v < 0x80"
  shows "\<not> bit (ucast v :: u8) 7" "ucast (ucast v :: u8) = v"
proof -
  have "v AND mask 7 = v" using assms by (intro and_mask_eq_self) (simp add: word_less_nat_alt)
  then have "bit v i \<Longrightarrow> i < 7" for i by (metis bit_and_iff bit_mask_iff)
  then show "\<not> bit (ucast v :: u8) 7" "ucast (ucast v :: u8) = v"
    by (fastforce simp: bit_simps intro!: bit_word_eqI)+
qed

lemma shift_chunk:
  fixes v :: u64
  shows "push_bit s (v AND mask 7) OR push_bit (s + 7) (drop_bit 7 v) = push_bit s v"
proof (rule bit_word_eqI)
  fix n
  show "bit (push_bit s (v AND mask 7) OR push_bit (s + 7) (drop_bit 7 v)) n = bit (push_bit s v) n"
  proof (cases "s + 7 \<le> n")
    case True
    then have "7 + (n - (s + 7)) = n - s" by simp
    with True show ?thesis by (auto simp: bit_simps)
  qed (auto simp: bit_simps)
qed

lemma drop_bit_7_bound: "unat v < 2 ^ (n + 7) \<Longrightarrow> unat (drop_bit 7 v) < 2 ^ n" for v :: u64
  unfolding unat_drop_bit_eq unfolding drop_bit_eq_div power_add by (rule less_mult_imp_div_less)

lemma decode_encode_loop:
  "s < 64 \<Longrightarrow> unat v < 2 ^ (64 - s) \<Longrightarrow>
     returns (decode_varint_loop acc s) (encode_varint v [] @ rest) (acc OR push_bit s v) rest"
proof (induction v arbitrary: acc s rule: measure_induct_rule [of unat])
  case (less v)
  show ?case
  proof (cases "v < 0x80")
    case True
    then show ?thesis using less.prems
      by (simp add: encode_varint_last decode_varint_loop_last last_byte)
  next
    case False
    have "128 < (2 :: nat) ^ (64 - s)" using False less.prems by (simp add: word_less_nat_alt)
    then have s: "7 < 64 - s" using power_less_imp_less_exp [of "2 :: nat" 7] by simp
    have "64 - (s + 7) + 7 = 64 - s" using s by simp
    then have "unat (drop_bit 7 v) < 2 ^ (64 - (s + 7))" using less.prems(2) by (metis drop_bit_7_bound)
    with s less.IH [OF drop_bit_7_less [OF False], of "s + 7"] False show ?thesis
      by (simp add: encode_varint_more decode_varint_loop_more more_byte or.assoc shift_chunk del: push_bit_and)
  qed
qed

lemma decode_encode_varint [reads]: "returns decode_varint (encode_varint v [] @ rest) v rest"
  using decode_encode_loop [of 0 v 0 rest] by (simp add: decode_varint_def unsigned_less [of v, simplified])

lemma length_encode_varint: "unat v < 2 ^ (7 * Suc n) \<Longrightarrow> length (encode_varint v []) \<le> Suc n"
proof (induction n arbitrary: v)
  case 0
  then have "v < 0x80" by (simp add: word_less_nat_alt)
  then show ?case by (simp add: encode_varint_last)
next
  case (Suc n)
  have "unat (drop_bit 7 v) < 2 ^ (7 * Suc n)" using Suc.prems
    by (intro drop_bit_7_bound) (simp add: add.commute)
  with Suc.IH [of "drop_bit 7 v"] show ?case
    by (cases "v < 0x80") (simp_all add: encode_varint_last encode_varint_more)
qed

text \<open>Claim C36.  Varints round-trip: for every 64-bit value the decoder returns the value and leaves
  exactly the bytes after it, and the encoding takes between one and ten bytes.\<close>

theorem varint_roundtrip:
  "decode_varint (encode_varint v [] @ rest) = (Inr v, rest) \<and>
   1 \<le> length (encode_varint v []) \<and> length (encode_varint v []) \<le> 10"
proof (intro conjI)
  show "decode_varint (encode_varint v [] @ rest) = (Inr v, rest)" by (rule decode_encode_varint)
  show "1 \<le> length (encode_varint v [])"
    by (cases "v < 0x80") (simp_all add: encode_varint_last encode_varint_more)
  have "unat v < 2 ^ LENGTH(64)" by (rule unsigned_less)
  then show "length (encode_varint v []) \<le> 10" using length_encode_varint [of v 9] by simp
qed

subsection \<open>Strings of bounded length\<close>

text \<open>A Rust string is its UTF-8 bytes; \<open>utf8_valid\<close> is the check of \<^verbatim>\<open>std::str::from_utf8\<close>.\<close>

definition utf8_cont :: "byte \<Rightarrow> bool" where
  "utf8_cont b \<longleftrightarrow> 0x80 \<le> b \<and> b \<le> 0xBF"

text \<open>The number of bytes of the character a string starts with; \<open>0\<close> if they are not a character.\<close>

definition utf8_width :: "byte list \<Rightarrow> nat" where
  "utf8_width bs = (case bs of
       [] \<Rightarrow> 0
     | a # r \<Rightarrow>
         if a < 0x80 then 1
         else if 0xC2 \<le> a \<and> a \<le> 0xDF then
           (case r of b # _ \<Rightarrow> if utf8_cont b then 2 else 0 | _ \<Rightarrow> 0)
         else if 0xE0 \<le> a \<and> a \<le> 0xEF then
           (case r of b # c # _ \<Rightarrow>
               if utf8_cont b \<and> utf8_cont c \<and> (a = 0xE0 \<longrightarrow> 0xA0 \<le> b) \<and> (a = 0xED \<longrightarrow> b \<le> 0x9F) then 3 else 0
             | _ \<Rightarrow> 0)
         else if 0xF0 \<le> a \<and> a \<le> 0xF4 then
           (case r of b # c # d # _ \<Rightarrow>
               if utf8_cont b \<and> utf8_cont c \<and> utf8_cont d \<and> (a = 0xF0 \<longrightarrow> 0x90 \<le> b) \<and> (a = 0xF4 \<longrightarrow> b \<le> 0x8F)
               then 4 else 0
             | _ \<Rightarrow> 0)
         else 0)"

function utf8_valid :: "byte list \<Rightarrow> bool" where
  "utf8_valid bs =
     (if bs = [] then True else if utf8_width bs = 0 then False else utf8_valid (drop (utf8_width bs) bs))"
  by pat_completeness auto

termination utf8_valid
  by (relation "measure length") auto

declare utf8_valid.simps [simp del]

text \<open>\<^verbatim>\<open>String::pop\<close>: drop the last character.\<close>

definition str_pop :: "byte list \<Rightarrow> byte list" where
  "str_pop s = rev (tl (dropWhile utf8_cont (rev s)))"

definition varchar_from_str :: "nat \<Rightarrow> byte list \<Rightarrow> byte list option" where
  "varchar_from_str n s = (if length s \<le> n then Some s else None)"

definition varchar_from_string :: "nat \<Rightarrow> byte list \<Rightarrow> byte list option" where
  "varchar_from_string n s = (if length s \<le> n then Some s else None)"

lemma length_str_pop: "s \<noteq> [] \<Longrightarrow> length (str_pop s) < length s"
proof -
  assume "s \<noteq> []"
  moreover have "length (dropWhile utf8_cont (rev s)) \<le> length s" using length_dropWhile_le [of utf8_cont "rev s"] by simp
  ultimately have "length (tl (dropWhile utf8_cont (rev s))) < length s" by (cases s) auto
  then show ?thesis by (simp add: str_pop_def)
qed

function pop_to :: "nat \<Rightarrow> byte list \<Rightarrow> byte list" where
  "pop_to n s = (if n < length s then pop_to n (str_pop s) else s)"
  by pat_completeness auto

termination pop_to
  by (relation "measure (\<lambda>(_, s). length s)") (auto intro!: length_str_pop)

declare pop_to.simps [simp del]

definition varchar_from_str_truncate :: "nat \<Rightarrow> byte list \<Rightarrow> byte list" where
  "varchar_from_str_truncate n s = (case varchar_from_str n s of Some v \<Rightarrow> v | None \<Rightarrow> pop_to n s)"

definition varchar_from_string_truncate :: "nat \<Rightarrow> byte list \<Rightarrow> byte list" where
  "varchar_from_string_truncate n s = (if length s \<le> n then s else pop_to n s)"

subsection \<open>Truncation keeps a string a string\<close>

lemma utf8_width_cases:
  assumes "0 < utf8_width bs"
  obtains a cs rest where "bs = (a # cs) @ rest" "utf8_width bs = Suc (length cs)" "\<not> utf8_cont a"
    "\<forall>c\<in>set cs. utf8_cont c" "\<forall>r. utf8_width ((a # cs) @ r) = Suc (length cs)"
proof -
  obtain a r where bs: "bs = a # r" using assms by (cases bs) (auto simp: utf8_width_def)
  have nc: "\<not> utf8_cont a"
  proof
    assume "utf8_cont a"
    then have "\<not> a < 0x80" "\<not> 0xC2 \<le> a" "\<not> 0xE0 \<le> a" "\<not> 0xF0 \<le> a"
      by (auto simp: utf8_cont_def word_less_nat_alt word_le_nat_alt)
    then show False using assms bs by (simp add: utf8_width_def)
  qed
  consider "a < 0x80" | "\<not> a < 0x80" "0xC2 \<le> a \<and> a \<le> 0xDF"
    | "\<not> a < 0x80" "\<not> (0xC2 \<le> a \<and> a \<le> 0xDF)" "0xE0 \<le> a \<and> a \<le> 0xEF"
    | "\<not> a < 0x80" "\<not> (0xC2 \<le> a \<and> a \<le> 0xDF)" "\<not> (0xE0 \<le> a \<and> a \<le> 0xEF)" "0xF0 \<le> a \<and> a \<le> 0xF4"
    using assms bs by (auto simp: utf8_width_def split: if_splits)
  then show ?thesis
  proof cases
    case 1
    with that [of a "[]" r] nc bs show ?thesis by (simp add: utf8_width_def)
  next
    case 2
    with assms bs obtain b r' where "r = b # r'" "utf8_cont b"
      by (simp add: utf8_width_def split: list.splits if_splits)
    with 2 that [of a "[b]" r'] nc bs show ?thesis by (simp add: utf8_width_def)
  next
    case 3
    with assms bs obtain b c r' where "r = b # c # r'" "utf8_cont b \<and> utf8_cont c \<and> (a = 0xE0 \<longrightarrow> 0xA0 \<le> b) \<and> (a = 0xED \<longrightarrow> b \<le> 0x9F)"
      by (simp add: utf8_width_def split: list.splits if_splits)
    with 3 that [of a "[b, c]" r'] nc bs show ?thesis by (simp add: utf8_width_def)
  next
    case 4
    with assms bs obtain b c d r' where "r = b # c # d # r'" "utf8_cont b \<and> utf8_cont c \<and> utf8_cont d \<and> (a = 0xF0 \<longrightarrow> 0x90 \<le> b) \<and> (a = 0xF4 \<longrightarrow> b \<le> 0x8F)"
      by (simp add: utf8_width_def split: list.splits if_splits)
    with 4 that [of a "[b, c, d]" r'] nc bs show ?thesis by (simp add: utf8_width_def)
  qed
qed

lemma utf8_valid_char:
  "\<forall>r. utf8_width (c @ r) = length c \<Longrightarrow> c \<noteq> [] \<Longrightarrow> utf8_valid (c @ r) = utf8_valid r"
  by (subst utf8_valid.simps) simp

text \<open>The characters of a string.\<close>

lemma utf8_valid_induct [consumes 1, case_names Nil Char]:
  assumes "utf8_valid s" and "P []"
    and step: "\<And>a cs s. \<not> utf8_cont a \<Longrightarrow> \<forall>c\<in>set cs. utf8_cont c \<Longrightarrow> \<forall>r. utf8_width ((a # cs) @ r) = Suc (length cs) \<Longrightarrow>
       utf8_valid s \<Longrightarrow> P s \<Longrightarrow> P ((a # cs) @ s)"
  shows "P s"
  using assms(1)
proof (induction s rule: utf8_valid.induct)
  case (1 s)
  show ?case
  proof (cases "s = []")
    case False
    then have w: "0 < utf8_width s" "utf8_valid (drop (utf8_width s) s)"
      using "1.prems" by (subst (asm) utf8_valid.simps, simp split: if_splits)+
    from w(1) obtain a cs rest where s: "s = (a # cs) @ rest" "utf8_width s = Suc (length cs)" "\<not> utf8_cont a"
      "\<forall>c\<in>set cs. utf8_cont c" "\<forall>r. utf8_width ((a # cs) @ r) = Suc (length cs)"
      by (rule utf8_width_cases)
    then have "drop (utf8_width s) s = rest" by simp
    with "1.IH" False w s show ?thesis using step [of a cs rest] by auto
  qed (use assms(2) in simp)
qed

lemma str_pop_char:
  "\<not> utf8_cont a \<Longrightarrow> \<forall>c\<in>set cs. utf8_cont c \<Longrightarrow> str_pop (a # cs) = []"
  unfolding str_pop_def by (simp, subst dropWhile_append2) auto

lemma str_pop_append:
  assumes "\<not> utf8_cont a" and "a \<in> set r"
  shows "str_pop (s @ r) = s @ str_pop r"
proof -
  have "dropWhile utf8_cont (rev r @ rev s) = dropWhile utf8_cont (rev r) @ rev s"
    using assms by (intro dropWhile_append1 [of a]) auto
  moreover have "dropWhile utf8_cont (rev r) \<noteq> []" using assms by auto
  ultimately show ?thesis by (simp add: str_pop_def)
qed

lemma utf8_valid_Nil [simp]: "utf8_valid []"
  by (simp add: utf8_valid.simps)

lemma utf8_valid_hd: "utf8_valid s \<Longrightarrow> s \<noteq> [] \<Longrightarrow> \<not> utf8_cont (hd s)"
  by (induction s rule: utf8_valid_induct) auto

lemma utf8_valid_cons_char:
  "\<forall>r. utf8_width ((a # cs) @ r) = Suc (length cs) \<Longrightarrow> utf8_valid ((a # cs) @ s) = utf8_valid s"
  by (rule utf8_valid_char) auto

lemma utf8_valid_str_pop: "utf8_valid s \<Longrightarrow> utf8_valid (str_pop s)"
proof (induction s rule: utf8_valid_induct)
  case Nil
  then show ?case by (simp add: str_pop_def)
next
  case (Char a cs s)
  show ?case
  proof (cases "s = []")
    case True
    with Char show ?thesis by (simp add: str_pop_char)
  next
    case False
    then have "str_pop ((a # cs) @ s) = (a # cs) @ str_pop s"
      using utf8_valid_hd [OF \<open>utf8_valid s\<close>] by (intro str_pop_append [of "hd s"]) auto
    with Char utf8_valid_cons_char [OF Char(3), of "str_pop s"] show ?thesis by simp
  qed
qed

text \<open>Popping drops nothing but the last character: the other valid prefixes stay prefixes.\<close>

lemma str_pop_maximal: "utf8_valid s \<Longrightarrow> utf8_valid p \<Longrightarrow> prefix p s \<Longrightarrow> p \<noteq> s \<Longrightarrow> prefix p (str_pop s)"
proof (induction s arbitrary: p rule: utf8_valid_induct)
  case (Char a cs s)
  show ?case
  proof (cases "p = []")
    case False
    then have "0 < utf8_width p" using Char.prems by (subst (asm) utf8_valid.simps) (simp split: if_splits)
    then obtain b ds q where p: "p = (b # ds) @ q" "\<forall>r. utf8_width ((b # ds) @ r) = Suc (length ds)"
      by (rule utf8_width_cases)
    obtain t where t: "(a # cs) @ s = ((b # ds) @ q) @ t" using Char.prems p by (auto simp: prefix_def)
    then have "length ds = length cs" using Char(3) p(2) by (metis append.assoc Suc_inject)
    with t have eq: "b # ds = a # cs" "s = q @ t" by auto
    have q: "utf8_valid q" using Char.prems p utf8_valid_cons_char by blast
    have "q \<noteq> s" using Char.prems p eq by auto
    then have "prefix q (str_pop s)" "s \<noteq> []" using Char.IH q eq by (auto simp: prefix_def)
    moreover have "str_pop ((a # cs) @ s) = (a # cs) @ str_pop s"
      using utf8_valid_hd [OF \<open>utf8_valid s\<close>] \<open>s \<noteq> []\<close> by (intro str_pop_append [of "hd s"]) auto
    ultimately show ?thesis using p eq by simp
  qed simp
qed auto

lemma prefix_str_pop: "prefix (str_pop s) s"
proof -
  have "suffix (tl (dropWhile utf8_cont (rev s))) (rev s)"
    by (meson suffix_dropWhile suffix_order.trans suffix_tl)
  then show ?thesis by (simp add: str_pop_def suffix_to_prefix)
qed

lemma pop_to_longest:
  "utf8_valid s \<Longrightarrow> utf8_valid (pop_to n s) \<and> prefix (pop_to n s) s \<and> length (pop_to n s) \<le> n \<and>
     (\<forall>p. utf8_valid p \<longrightarrow> prefix p s \<longrightarrow> length p \<le> n \<longrightarrow> prefix p (pop_to n s))"
proof (induction n s rule: pop_to.induct)
  case (1 n s)
  show ?case
  proof (cases "n < length s")
    case True
    then have eq: "pop_to n s = pop_to n (str_pop s)" by (simp add: pop_to.simps [of n s])
    have "prefix p (str_pop s)" if "utf8_valid p" "prefix p s" "length p \<le> n" for p
    proof -
      have "p \<noteq> s" using True that(3) by auto
      then show ?thesis by (rule str_pop_maximal [OF "1.prems" that(1,2)])
    qed
    then show ?thesis using "1.IH" [OF True utf8_valid_str_pop [OF "1.prems"]] prefix_str_pop [of s]
      by (metis eq prefix_order.trans)
  next
    case False
    then show ?thesis using 1 by (simp add: pop_to.simps [of n s])
  qed
qed

text \<open>Claim C38.  Truncating a string to \<open>n\<close> bytes gives the longest prefix of at most \<open>n\<close> bytes that
  is still a UTF-8 string, for the borrowed and for the owned constructor.\<close>

theorem varchar_truncate_longest:
  fixes n :: nat
  assumes "utf8_valid s"
  defines "t \<equiv> varchar_from_str_truncate n s"
  shows "varchar_from_string_truncate n s = t \<and> utf8_valid t \<and> prefix t s \<and> length t \<le> n \<and>
    (\<forall>p. utf8_valid p \<longrightarrow> prefix p s \<longrightarrow> length p \<le> n \<longrightarrow> prefix p t)"
proof (cases "length s \<le> n")
  case True
  with assms show ?thesis
    by (simp add: varchar_from_str_truncate_def varchar_from_string_truncate_def varchar_from_str_def)
next
  case False
  with pop_to_longest [OF assms(1), of n] show ?thesis
    by (simp add: t_def varchar_from_str_truncate_def varchar_from_string_truncate_def varchar_from_str_def)
qed

theorem varchar_truncate_longest_witness:
  "varchar_from_string_truncate 2 [0x61, 0xC3, 0x9F] = varchar_from_str_truncate 2 [0x61, 0xC3, 0x9F] \<and>
   utf8_valid (varchar_from_str_truncate 2 [0x61, 0xC3, 0x9F])"
proof -
  have "utf8_valid [0x61, 0xC3, 0x9F]"
    by (simp add: utf8_valid.simps [of "[0x61, 0xC3, 0x9F]"] utf8_valid.simps [of "[0xC3, 0x9F]"] utf8_width_def utf8_cont_def)
  from varchar_truncate_longest [OF this, of 2] show ?thesis by simp
qed

end
