(* ===== verification/Txdata.thy ===== *)
theory Txdata
  imports Varint
begin

text \<open>
  \<^verbatim>\<open>crates/commitlog/src/payload/txdata.rs\<close>: the payload of a transaction in the commitlog.  The row
  type, its encoder and the visitor are parameters, as in the code; a visitor is a record of actions.
\<close>

subsection \<open>Data\<close>

record inputs =
  reducer_name :: "byte list"
  reducer_args :: "byte list"

record outputs =
  reducer_output :: "byte list"

record 'r ops =
  table_id :: u32
  rowdata :: "'r list"

record 'r mutations =
  inserts :: "'r ops list"
  deletes :: "'r ops list"
  truncates :: "u32 list"

record 'r txdata =
  tx_inputs :: "inputs option"
  tx_outputs :: "outputs option"
  tx_mutations :: "'r mutations option"

definition HAVE_INPUTS :: u8 where "HAVE_INPUTS = 0x80"
definition HAVE_OUTPUTS :: u8 where "HAVE_OUTPUTS = 0x40"
definition HAVE_MUTATIONS :: u8 where "HAVE_MUTATIONS = 0x20"

definition flags_contains :: "u8 \<Rightarrow> u8 \<Rightarrow> bool" where
  "flags_contains flags f \<longleftrightarrow> flags AND f = f"

definition flags_set :: "u8 \<Rightarrow> bool \<Rightarrow> u8 \<Rightarrow> u8" where
  "flags_set f b flags = (if b then flags OR f else flags AND NOT f)"

definition mutations_is_empty :: "'r mutations \<Rightarrow> bool" where
  "mutations_is_empty m \<longleftrightarrow> inserts m = [] \<and> deletes m = [] \<and> truncates m = []"

definition txdata_is_empty :: "'r txdata \<Rightarrow> bool" where
  "txdata_is_empty tx \<longleftrightarrow> tx_inputs tx = None \<and> tx_outputs tx = None \<and>
     (case tx_mutations tx of Some m \<Rightarrow> mutations_is_empty m | None \<Rightarrow> True)"

record ('v, 'e, 'r) visitor =
  visit_insert :: "u32 \<Rightarrow> ('v \<times> byte list, 'e, 'r) act"
  visit_delete :: "u32 \<Rightarrow> ('v \<times> byte list, 'e, 'r) act"
  skip_row :: "u32 \<Rightarrow> ('v \<times> byte list, 'e, unit) act"
  visit_truncate :: "u32 \<Rightarrow> ('v, 'e, unit) act"
  visit_tx_start :: "u64 \<Rightarrow> ('v, 'e, unit) act"
  visit_tx_end :: "('v, 'e, unit) act"
  visit_inputs :: "inputs \<Rightarrow> ('v, 'e, unit) act"
  visit_outputs :: "outputs \<Rightarrow> ('v, 'e, unit) act"
  from_decode_error :: "decode_error \<Rightarrow> 'e"

text \<open>A read of the reader, and a call of the visitor, inside a decoder that holds both.\<close>

definition rd :: "('v, 'e, 'r) visitor \<Rightarrow> 'a reader \<Rightarrow> ('v \<times> byte list, 'e, 'a) act" where
  "rd vis m s = (case m (snd s) of
       (Inl e, r) \<Rightarrow> (Inl (from_decode_error vis e), (fst s, r))
     | (Inr x, r) \<Rightarrow> (Inr x, (fst s, r)))"

definition vs :: "('v, 'e, unit) act \<Rightarrow> ('v \<times> byte list, 'e, unit) act" where
  "vs m s = (case m (fst s) of (res, v) \<Rightarrow> (res, (v, snd s)))"

subsection \<open>Inputs and outputs\<close>

definition inputs_encode :: "inputs \<Rightarrow> byte list \<Rightarrow> byte list" where
  "inputs_encode i out =
     (let slen = of_nat (length (reducer_name i)) :: u8;
          len = 1 + unat slen + length (reducer_args i)
      in put_slice (reducer_args i) (put_slice (reducer_name i) (put_u8 slen (put_u32 (of_nat len) out))))"

definition usize_sub :: "nat \<Rightarrow> nat \<Rightarrow> nat" where
  "usize_sub a b = usize_wrap (a + 2 ^ 64 - b)"

definition inputs_decode :: "inputs reader" where
  "inputs_decode =
     andThen get_u32 (\<lambda>len. andThen get_u8 (\<lambda>slen. andThen (get_slice (unat slen)) (\<lambda>bytes.
       if utf8_valid bytes then
         (let name = the (varchar_from_str 255 bytes)
          in andThen (get_slice (usize_sub (usize_sub (unat len) 1) (unat slen))) (\<lambda>args.
               ret \<lparr>reducer_name = name, reducer_args = args\<rparr>))
       else fail_with InvalidUtf8)))"

definition outputs_encode :: "outputs \<Rightarrow> byte list \<Rightarrow> byte list" where
  "outputs_encode p out =
     put_slice (reducer_output p) (put_u8 (of_nat (length (reducer_output p))) out)"

definition outputs_decode :: "outputs reader" where
  "outputs_decode =
     andThen get_u8 (\<lambda>slen. andThen (get_slice (unat slen)) (\<lambda>bytes.
       if utf8_valid bytes then ret \<lparr>reducer_output = the (varchar_from_str 255 bytes)\<rparr>
       else fail_with InvalidUtf8))"

text \<open>The \<^verbatim>\<open>expect\<close> and \<^verbatim>\<open>unwrap\<close> of the two decoders cannot fail: a length read from one byte
  is at most 255.\<close>

lemma varchar_from_slice:
  "get_slice (unat (slen :: u8)) r = (Inr bytes, r') \<Longrightarrow> varchar_from_str 255 bytes = Some bytes"
proof -
  assume "get_slice (unat slen) r = (Inr bytes, r')"
  then have "length bytes = unat slen"
    by (auto simp: get_slice_def get_chunk_def split: if_splits)
  moreover have "unat slen < 2 ^ LENGTH(8)" by (rule unsigned_less)
  ultimately show ?thesis by (simp add: varchar_from_str_def)
qed

subsection \<open>Mutations\<close>

text \<open>\<open>enc\<close> gives the bytes that the \<^verbatim>\<open>encode_record\<close> of a row puts: it is generic in the writer, so
  all it can do is put bytes.\<close>

definition ops_encode :: "('r \<Rightarrow> byte list) \<Rightarrow> 'r ops \<Rightarrow> byte list \<Rightarrow> byte list" where
  "ops_encode enc op out =
     fold (\<lambda>row. put_slice (enc row)) (rowdata op) (encode_varint (of_nat (length (rowdata op))) (put_u32 (table_id op) out))"

definition mutations_encode :: "('r \<Rightarrow> byte list) \<Rightarrow> 'r mutations \<Rightarrow> byte list \<Rightarrow> byte list" where
  "mutations_encode enc m out =
     (let out = fold (ops_encode enc) (inserts m) (encode_varint (of_nat (length (inserts m))) out);
          out = fold (ops_encode enc) (deletes m) (encode_varint (of_nat (length (deletes m))) out)
      in fold put_u32 (truncates m) (encode_varint (of_nat (length (truncates m))) out))"

text \<open>The loop body shared by the sections: one table's rows.\<close>

definition ops_decode ::
  "('v, 'e, 'r) visitor \<Rightarrow> (u32 \<Rightarrow> ('v \<times> byte list, 'e, 'r) act) \<Rightarrow> ('v \<times> byte list, 'e, 'r ops) act" where
  "ops_decode vis visit =
     andThen (rd vis get_u32) (\<lambda>tid. andThen (rd vis decode_varint) (\<lambda>m.
       andThen (collect_n (unat m) (visit tid)) (\<lambda>rows. ret \<lparr>table_id = tid, rowdata = rows\<rparr>)))"

definition ops_consume ::
  "('v, 'e, 'r) visitor \<Rightarrow> (u32 \<Rightarrow> ('v \<times> byte list, 'e, 'a) act) \<Rightarrow> ('v \<times> byte list, 'e, unit) act" where
  "ops_consume vis visit =
     andThen (rd vis get_u32) (\<lambda>tid. andThen (rd vis decode_varint) (\<lambda>m. repeat_n (unat m) (visit tid)))"

definition truncate_decode :: "('v, 'e, 'r) visitor \<Rightarrow> ('v \<times> byte list, 'e, u32) act" where
  "truncate_decode vis =
     andThen (rd vis get_u32) (\<lambda>tid. andThen (vs (visit_truncate vis tid)) (\<lambda>_. ret tid))"

definition mutations_decode :: "('v, 'e, 'r) visitor \<Rightarrow> ('v \<times> byte list, 'e, 'r mutations) act" where
  "mutations_decode vis =
     andThen (rd vis decode_varint) (\<lambda>n.
     andThen (collect_n (unat n) (ops_decode vis (visit_insert vis))) (\<lambda>ins.
     andThen (rd vis decode_varint) (\<lambda>n.
     andThen (collect_n (unat n) (ops_decode vis (visit_delete vis))) (\<lambda>dels.
     andThen (rd vis decode_varint) (\<lambda>n.
     andThen (collect_n (unat n) (truncate_decode vis)) (\<lambda>truncs.
     ret \<lparr>inserts = ins, deletes = dels, truncates = truncs\<rparr>))))))"

definition mutations_consume :: "('v, 'e, 'r) visitor \<Rightarrow> ('v \<times> byte list, 'e, unit) act" where
  "mutations_consume vis =
     andThen (rd vis decode_varint) (\<lambda>n.
     andThen (repeat_n (unat n) (ops_consume vis (visit_insert vis))) (\<lambda>_.
     andThen (rd vis decode_varint) (\<lambda>n.
     andThen (repeat_n (unat n) (ops_consume vis (visit_delete vis))) (\<lambda>_.
     andThen (rd vis decode_varint) (\<lambda>n.
     andThen (repeat_n (unat n) (andThen (rd vis get_u32) (\<lambda>tid. vs (visit_truncate vis tid)))) (\<lambda>_.
     ret ()))))))"

definition mutations_skip :: "('v, 'e, 'r) visitor \<Rightarrow> ('v \<times> byte list, 'e, unit) act" where
  "mutations_skip vis =
     andThen (rd vis decode_varint) (\<lambda>n.
     andThen (repeat_n (unat n) (ops_consume vis (skip_row vis))) (\<lambda>_.
     andThen (rd vis decode_varint) (\<lambda>n.
     andThen (repeat_n (unat n) (ops_consume vis (skip_row vis))) (\<lambda>_.
     andThen (rd vis decode_varint) (\<lambda>n.
     andThen (repeat_n (unat n) (rd vis get_u32)) (\<lambda>_. ret ()))))))"

subsection \<open>Records\<close>

definition txdata_encode :: "('r \<Rightarrow> byte list) \<Rightarrow> 'r txdata \<Rightarrow> byte list \<Rightarrow> byte list" where
  "txdata_encode enc tx out =
     (let flags = flags_set HAVE_MUTATIONS (tx_mutations tx \<noteq> None)
                    (flags_set HAVE_OUTPUTS (tx_outputs tx \<noteq> None)
                      (flags_set HAVE_INPUTS (tx_inputs tx \<noteq> None) 0));
          out = put_u8 flags out;
          out = (case tx_inputs tx of Some i \<Rightarrow> inputs_encode i out | None \<Rightarrow> out);
          out = (case tx_outputs tx of Some p \<Rightarrow> outputs_encode p out | None \<Rightarrow> out)
      in case tx_mutations tx of Some m \<Rightarrow> mutations_encode enc m out | None \<Rightarrow> out)"

definition optional :: "bool \<Rightarrow> ('s, 'e, 'a) act \<Rightarrow> ('s, 'e, 'a option) act" where
  "optional b m = (if b then map_ok Some m else ret None)"

definition txdata_decode :: "('v, 'e, 'r) visitor \<Rightarrow> ('v \<times> byte list, 'e, 'r txdata) act" where
  "txdata_decode vis =
     andThen (rd vis get_u8) (\<lambda>flags.
     andThen (optional (flags_contains flags HAVE_INPUTS) (rd vis inputs_decode)) (\<lambda>ins.
     andThen (case ins of Some i \<Rightarrow> vs (visit_inputs vis i) | None \<Rightarrow> ret ()) (\<lambda>_.
     andThen (optional (flags_contains flags HAVE_OUTPUTS) (rd vis outputs_decode)) (\<lambda>outs.
     andThen (case outs of Some p \<Rightarrow> vs (visit_outputs vis p) | None \<Rightarrow> ret ()) (\<lambda>_.
     andThen (optional (flags_contains flags HAVE_MUTATIONS) (mutations_decode vis)) (\<lambda>muts.
     ret \<lparr>tx_inputs = ins, tx_outputs = outs, tx_mutations = muts\<rparr>))))))"

definition txdata_consume :: "('v, 'e, 'r) visitor \<Rightarrow> ('v \<times> byte list, 'e, unit) act" where
  "txdata_consume vis =
     andThen (rd vis get_u8) (\<lambda>flags.
     andThen (if flags_contains flags HAVE_INPUTS
              then andThen (rd vis inputs_decode) (\<lambda>i. vs (visit_inputs vis i)) else ret ()) (\<lambda>_.
     andThen (if flags_contains flags HAVE_OUTPUTS
              then andThen (rd vis outputs_decode) (\<lambda>p. vs (visit_outputs vis p)) else ret ()) (\<lambda>_.
     andThen (if flags_contains flags HAVE_MUTATIONS then mutations_consume vis else ret ()) (\<lambda>_.
     ret ()))))"

definition txdata_skip :: "('v, 'e, 'r) visitor \<Rightarrow> ('v \<times> byte list, 'e, unit) act" where
  "txdata_skip vis =
     andThen (rd vis get_u8) (\<lambda>flags.
     andThen (if flags_contains flags HAVE_INPUTS then map_ok (\<lambda>_. ()) (rd vis inputs_decode) else ret ()) (\<lambda>_.
     andThen (if flags_contains flags HAVE_OUTPUTS then map_ok (\<lambda>_. ()) (rd vis outputs_decode) else ret ()) (\<lambda>_.
     andThen (if flags_contains flags HAVE_MUTATIONS then mutations_skip vis else ret ()) (\<lambda>_.
     ret ()))))"

definition TXDATA_VERSION :: u8 where
  "TXDATA_VERSION = 1"

datatype 'e decoder_error =
    UnsupportedVersion u8 u8
  | DecodeErr decode_error
  | VisitorErr 'e

definition skip_record_fn :: "('v, 'e, 'r) visitor \<Rightarrow> u8 \<Rightarrow> ('v \<times> byte list, 'e decoder_error, unit) act" where
  "skip_record_fn vis version =
     (if TXDATA_VERSION < version then fail_with (UnsupportedVersion TXDATA_VERSION version)
      else andThen (map_err VisitorErr (txdata_skip vis)) (\<lambda>_. ret ()))"

definition process_record ::
  "('v, 'e, 'r) visitor \<Rightarrow> u8 \<Rightarrow> u64 \<Rightarrow> ('v \<times> byte list, 'e, 'a) act \<Rightarrow> ('v \<times> byte list, 'e decoder_error, 'a) act" where
  "process_record vis version tx_offset decode_txdata =
     (if TXDATA_VERSION < version then fail_with (UnsupportedVersion TXDATA_VERSION version)
      else andThen (map_err VisitorErr (vs (visit_tx_start vis tx_offset))) (\<lambda>_.
           andThen (map_err VisitorErr decode_txdata) (\<lambda>record.
           andThen (map_err VisitorErr (vs (visit_tx_end vis))) (\<lambda>_. ret record))))"

definition decode_record_fn ::
  "('v, 'e, 'r) visitor \<Rightarrow> u8 \<Rightarrow> u64 \<Rightarrow> ('v \<times> byte list, 'e decoder_error, 'r txdata) act" where
  "decode_record_fn vis version tx_offset = process_record vis version tx_offset (txdata_decode vis)"

definition consume_record_fn ::
  "('v, 'e, 'r) visitor \<Rightarrow> u8 \<Rightarrow> u64 \<Rightarrow> ('v \<times> byte list, 'e decoder_error, unit) act" where
  "consume_record_fn vis version tx_offset = process_record vis version tx_offset (txdata_consume vis)"

subsection \<open>What the encoders append\<close>

lemma encode_varint_out: "encode_varint v out = out @ encode_varint v []"
  using encode_varint_append [of v out "[]"] by simp

lemma fold_appends: "(\<And>x out. f x out = out @ g x) \<Longrightarrow> fold f xs out = out @ concat (map g xs)"
  by (induction xs arbitrary: out) simp_all

lemma ops_encode_out:
  "ops_encode enc op out =
     out @ to_le_bytes 4 (table_id op) @ encode_varint (of_nat (length (rowdata op))) [] @ concat (map enc (rowdata op))"
proof -
  have "fold (\<lambda>row. put_slice (enc row)) rows b = b @ concat (map enc rows)" for rows b
    by (rule fold_appends) (simp add: put_slice_def)
  then show ?thesis using encode_varint_out [of _ "out @ to_le_bytes 4 (table_id op)"]
    by (simp add: ops_encode_def del: to_le_bytes.simps)
qed

definition section_bytes :: "('a \<Rightarrow> byte list) \<Rightarrow> 'a list \<Rightarrow> byte list" where
  "section_bytes f xs = encode_varint (of_nat (length xs)) [] @ concat (map f xs)"

lemma mutations_encode_out:
  "mutations_encode enc m out =
     out @ section_bytes (\<lambda>op. ops_encode enc op []) (inserts m) @ section_bytes (\<lambda>op. ops_encode enc op []) (deletes m) @
     section_bytes (to_le_bytes 4) (truncates m)"
proof -
  have ops: "fold (ops_encode enc) xs b = b @ concat (map (\<lambda>op. ops_encode enc op []) xs)" for xs b
    by (rule fold_appends) (simp add: ops_encode_out)
  have tr: "fold put_u32 xs b = b @ concat (map (to_le_bytes 4) xs)" for xs b
    by (rule fold_appends) (simp del: to_le_bytes.simps)
  show ?thesis
    unfolding mutations_encode_def Let_def tr section_bytes_def
    by (subst encode_varint_out, subst ops, subst encode_varint_out, subst ops, subst encode_varint_out) simp
qed

subsection \<open>Reading back a payload\<close>

lemma reads_as_rd:
  "(\<And>rest. returns m (bs @ rest) x rest) \<Longrightarrow> reads_as (rd vis m) x bs"
  by (simp add: reads_as_def rd_def)

lemma reads_as_vs: "(\<And>v. \<exists>v'. returns m v () v') \<Longrightarrow> reads_as (vs m) () []"
proof -
  assume ok: "\<And>v. \<exists>v'. returns m v () v'"
  have "\<exists>v'. returns (vs m) (v, rest) () (v', rest)" for v rest using ok [of v] by (auto simp: vs_def)
  then show ?thesis by (simp add: reads_as_def)
qed

lemma reads_as_section:
  assumes "\<And>x. x \<in> set xs \<Longrightarrow> reads_as m x (f x)" and "length xs < 2 ^ 64"
    and "reads_as (k xs) y bs"
  shows "reads_as (andThen (rd vis decode_varint) (\<lambda>n. andThen (collect_n (unat n) m) k)) y (section_bytes f xs @ bs)"
proof -
  have "unat (of_nat (length xs) :: u64) = length xs" using assms(2) by (simp add: unat_of_nat)
  then have "reads_as (andThen (collect_n (unat (of_nat (length xs) :: u64)) m) k) y (concat (map f xs) @ bs)"
    using assms by (intro reads_as_andThen [where x = xs]) (simp_all add: reads_as_collect)
  then have "reads_as (andThen (rd vis decode_varint) (\<lambda>n. andThen (collect_n (unat n) m) k)) y
      (encode_varint (of_nat (length xs)) [] @ (concat (map f xs) @ bs))"
    by (rule reads_as_andThen [OF reads_as_rd [OF decode_encode_varint]])
  then show ?thesis by (simp add: section_bytes_def)
qed

definition inputs_ok :: "inputs \<Rightarrow> bool" where
  "inputs_ok i \<longleftrightarrow> utf8_valid (reducer_name i) \<and> length (reducer_name i) \<le> 255 \<and>
     1 + length (reducer_name i) + length (reducer_args i) < 2 ^ 32"

definition outputs_ok :: "outputs \<Rightarrow> bool" where
  "outputs_ok p \<longleftrightarrow> utf8_valid (reducer_output p) \<and> length (reducer_output p) \<le> 255"

lemma unat_len8: "n \<le> 255 \<Longrightarrow> unat (of_nat n :: u8) = n"
  by (simp add: unat_of_nat)

lemma usize_sub_le [simp]: "b \<le> a \<Longrightarrow> a < 2 ^ 64 \<Longrightarrow> usize_sub a b = a - b"
  by (simp add: usize_sub_def usize_wrap_def mod_if)

lemma inputs_encode_out:
  "inputs_ok i \<Longrightarrow> inputs_encode i out = out @ to_le_bytes 4 (of_nat (1 + length (reducer_name i) + length (reducer_args i)) :: u32)
     @ to_le_bytes 1 (of_nat (length (reducer_name i)) :: u8) @ reducer_name i @ reducer_args i"
  by (simp only: inputs_encode_def inputs_ok_def unat_len8 Let_def put_slice_def put_ints append.assoc)

lemma inputs_roundtrip:
  assumes ok: "inputs_ok i"
  shows "returns inputs_decode (inputs_encode i [] @ rest) i rest"
proof -
  let ?n = "length (reducer_name i)" and ?len = "1 + length (reducer_name i) + length (reducer_args i)"
  have n: "unat (of_nat ?n :: u8) = ?n" and utf: "utf8_valid (reducer_name i)" and le: "?n \<le> 255"
    using ok by (simp_all add: inputs_ok_def unat_len8)
  have "unat (of_nat ?len :: u32) = ?len" using ok by (intro unat_of_nat_id) (simp add: inputs_ok_def)
  moreover have "?len < 2 ^ 64" using ok by (simp add: inputs_ok_def)
  ultimately have args: "usize_sub (usize_sub (unat (of_nat ?len :: u32)) 1) ?n = length (reducer_args i)"
    by simp
  show ?thesis
    unfolding inputs_encode_out [OF ok] inputs_decode_def append_Nil append.assoc get_then n
    by (simp only: get_slice_then [OF refl] utf if_True args Let_def) (simp add: ret_def varchar_from_str_def le)
qed

lemma outputs_roundtrip:
  assumes ok: "outputs_ok p"
  shows "returns outputs_decode (outputs_encode p [] @ rest) p rest"
proof -
  let ?n = "length (reducer_output p)"
  have n: "unat (of_nat ?n :: u8) = ?n" and utf: "utf8_valid (reducer_output p)" and le: "?n \<le> 255"
    using ok by (simp_all add: outputs_ok_def unat_len8)
  then show ?thesis
    unfolding outputs_decode_def outputs_encode_def put_slice_def put_ints append_Nil append.assoc get_then n
    by (simp only: get_slice_then [OF refl] utf if_True) (simp add: ret_def varchar_from_str_def)
qed

definition ops_ok :: "'r ops \<Rightarrow> bool" where
  "ops_ok op \<longleftrightarrow> length (rowdata op) < 2 ^ 64"

definition mutations_ok :: "'r mutations \<Rightarrow> bool" where
  "mutations_ok m \<longleftrightarrow> list_all ops_ok (inserts m) \<and> list_all ops_ok (deletes m) \<and>
     length (inserts m) < 2 ^ 64 \<and> length (deletes m) < 2 ^ 64 \<and> length (truncates m) < 2 ^ 64"

definition txdata_ok :: "'r txdata \<Rightarrow> bool" where
  "txdata_ok tx \<longleftrightarrow> pred_option inputs_ok (tx_inputs tx) \<and> pred_option outputs_ok (tx_outputs tx) \<and>
     pred_option mutations_ok (tx_mutations tx)"

text \<open>What the code relies on in a visitor: it reads back the rows the encoder wrote, and its callbacks
  do not fail.\<close>

definition visitor_reads :: "('v, 'e, 'r) visitor \<Rightarrow> ('r \<Rightarrow> byte list) \<Rightarrow> bool" where
  "visitor_reads vis enc \<longleftrightarrow>
     (\<forall>t row. reads_as (visit_insert vis t) row (enc row) \<and> reads_as (visit_delete vis t) row (enc row)) \<and>
     (\<forall>t v. \<exists>v'. returns (visit_truncate vis t) v () v') \<and>
     (\<forall>i v. \<exists>v'. returns (visit_inputs vis i) v () v') \<and> (\<forall>p v. \<exists>v'. returns (visit_outputs vis p) v () v')"

lemma reads_as_u32: "reads_as (f t) y bs \<Longrightarrow> reads_as (andThen (rd vis get_u32) f) y (to_le_bytes 4 t @ bs)"
  by (rule reads_as_andThen [OF reads_as_rd [OF get_ints_append(3)]])

lemma record_etas:
  "\<lparr>table_id = table_id op, rowdata = rowdata op\<rparr> = (op :: 'r ops)"
  "\<lparr>inserts = inserts m, deletes = deletes m, truncates = truncates m\<rparr> = (m :: 'r mutations)"
  "\<lparr>tx_inputs = tx_inputs tx, tx_outputs = tx_outputs tx, tx_mutations = tx_mutations tx\<rparr> = (tx :: 'r txdata)"
  by (cases op, simp) (cases m, simp, cases tx, simp)

lemma ops_roundtrip:
  assumes "\<And>row. reads_as (visit (table_id op)) row (enc row)" and "ops_ok op"
  shows "reads_as (ops_decode vis visit) op (ops_encode enc op [])"
proof -
  have "reads_as (andThen (rd vis decode_varint) (\<lambda>m. andThen (collect_n (unat m) (visit (table_id op)))
      (\<lambda>rows. ret \<lparr>table_id = table_id op, rowdata = rows\<rparr>))) op (section_bytes enc (rowdata op) @ [])"
    using assms by (intro reads_as_section) (simp_all add: ops_ok_def reads_as_ret record_etas)
  from reads_as_u32 [of "\<lambda>t. andThen (rd vis decode_varint) (\<lambda>m. andThen (collect_n (unat m) (visit t))
      (\<lambda>rows. ret \<lparr>table_id = t, rowdata = rows\<rparr>))", OF this]
  show ?thesis by (simp add: ops_decode_def ops_encode_out section_bytes_def del: to_le_bytes.simps)
qed

lemma truncate_roundtrip:
  assumes "visitor_reads vis enc"
  shows "reads_as (truncate_decode vis) t (to_le_bytes 4 t)"
proof -
  have "reads_as (andThen (vs (visit_truncate vis t)) (\<lambda>_. ret t)) t ([] @ [])"
    using assms by (intro reads_as_andThen [where x = "()"] reads_as_ret reads_as_vs) (simp add: visitor_reads_def)
  from reads_as_u32 [of "\<lambda>t. andThen (vs (visit_truncate vis t)) (\<lambda>_. ret t)", OF this]
  show ?thesis by (simp add: truncate_decode_def del: to_le_bytes.simps)
qed

lemma mutations_roundtrip:
  assumes vis: "visitor_reads vis enc" and ok: "mutations_ok m"
  shows "reads_as (mutations_decode vis) m (mutations_encode enc m [])"
proof -
  have ins: "\<And>op. op \<in> set (inserts m) \<Longrightarrow> reads_as (ops_decode vis (visit_insert vis)) op (ops_encode enc op [])"
    and dels: "\<And>op. op \<in> set (deletes m) \<Longrightarrow> reads_as (ops_decode vis (visit_delete vis)) op (ops_encode enc op [])"
    using assms by (auto intro!: ops_roundtrip simp: visitor_reads_def mutations_ok_def list_all_iff)
  have "reads_as (mutations_decode vis) m
     (section_bytes (\<lambda>op. ops_encode enc op []) (inserts m) @ section_bytes (\<lambda>op. ops_encode enc op []) (deletes m) @
      section_bytes (to_le_bytes 4) (truncates m) @ [])"
    unfolding mutations_decode_def using ok
    by (intro reads_as_section ins dels truncate_roundtrip [OF vis]) (simp_all add: mutations_ok_def reads_as_ret record_etas)
  then show ?thesis by (simp add: mutations_encode_out)
qed

lemma flags_contains_set:
  "flags_contains (flags_set HAVE_MUTATIONS c (flags_set HAVE_OUTPUTS b (flags_set HAVE_INPUTS a 0))) HAVE_INPUTS = a"
  "flags_contains (flags_set HAVE_MUTATIONS c (flags_set HAVE_OUTPUTS b (flags_set HAVE_INPUTS a 0))) HAVE_OUTPUTS = b"
  "flags_contains (flags_set HAVE_MUTATIONS c (flags_set HAVE_OUTPUTS b (flags_set HAVE_INPUTS a 0))) HAVE_MUTATIONS = c"
  by (cases a; cases b; cases c;
      simp add: flags_contains_def flags_set_def HAVE_INPUTS_def HAVE_OUTPUTS_def HAVE_MUTATIONS_def)+

lemma reads_as_optional:
  assumes "\<And>x. opt = Some x \<Longrightarrow> reads_as m x (f x)" and "reads_as (k opt) y bs"
  shows "reads_as (andThen (optional (opt \<noteq> None) m) k) y ((case opt of Some x \<Rightarrow> f x | None \<Rightarrow> []) @ bs)"
proof (cases opt)
  case None
  then show ?thesis using assms(2) by (simp add: optional_def)
next
  case (Some x)
  have "reads_as (andThen m (\<lambda>x. k (Some x))) y (f x @ bs)"
    using assms Some by (intro reads_as_andThen [where x = x]) auto
  with Some show ?thesis by (simp add: optional_def andThen_map_ok)
qed

lemma reads_as_visited:
  assumes "\<And>x v. \<exists>v'. returns (g x) v () v'" and "reads_as k y bs"
  shows "reads_as (andThen (case opt of Some x \<Rightarrow> vs (g x) | None \<Rightarrow> ret ()) (\<lambda>_. k)) y bs"
proof (cases opt)
  case (Some x)
  have "reads_as (andThen (vs (g x)) (\<lambda>_. k)) y ([] @ bs)"
    using assms by (intro reads_as_andThen [where x = "()"] reads_as_vs)
  with Some show ?thesis by simp
qed (use assms(2) in simp)

lemma txdata_encode_out:
  assumes "txdata_ok tx"
  shows "txdata_encode enc tx out = out @ to_le_bytes 1 (flags_set HAVE_MUTATIONS (tx_mutations tx \<noteq> None)
      (flags_set HAVE_OUTPUTS (tx_outputs tx \<noteq> None) (flags_set HAVE_INPUTS (tx_inputs tx \<noteq> None) 0)))
    @ (case tx_inputs tx of Some i \<Rightarrow> inputs_encode i [] | None \<Rightarrow> [])
    @ (case tx_outputs tx of Some p \<Rightarrow> outputs_encode p [] | None \<Rightarrow> [])
    @ (case tx_mutations tx of Some m \<Rightarrow> mutations_encode enc m [] | None \<Rightarrow> [])"
proof -
  have "inputs_ok i" if "tx_inputs tx = Some i" for i using assms that by (simp add: txdata_ok_def)
  then show ?thesis
    unfolding txdata_encode_def Let_def
    by (cases "tx_inputs tx"; cases "tx_outputs tx"; cases "tx_mutations tx")
      (simp_all add: inputs_encode_out outputs_encode_def put_slice_def mutations_encode_out
        del: to_le_bytes.simps One_nat_def)
qed

lemma txdata_reads:
  assumes vis: "visitor_reads vis enc" and ok: "txdata_ok tx"
  shows "reads_as (txdata_decode vis) tx (txdata_encode enc tx [])"
proof -
  let ?ins = "tx_inputs tx" and ?outs = "tx_outputs tx" and ?muts = "tx_mutations tx"
  let ?b1 = "case ?ins of Some i \<Rightarrow> inputs_encode i [] | None \<Rightarrow> []"
    and ?b2 = "case ?outs of Some p \<Rightarrow> outputs_encode p [] | None \<Rightarrow> []"
    and ?b3 = "case ?muts of Some m \<Rightarrow> mutations_encode enc m [] | None \<Rightarrow> []"
  let ?k3 = "\<lambda>ins outs. andThen (optional (?muts \<noteq> None) (mutations_decode vis))
      (\<lambda>muts. ret \<lparr>tx_inputs = ins, tx_outputs = outs, tx_mutations = muts\<rparr>)"
  let ?k2 = "\<lambda>ins. andThen (optional (?outs \<noteq> None) (rd vis outputs_decode)) (\<lambda>outs.
      andThen (case outs of Some p \<Rightarrow> vs (visit_outputs vis p) | None \<Rightarrow> ret ()) (\<lambda>_. ?k3 ins outs))"
  let ?k1 = "andThen (optional (?ins \<noteq> None) (rd vis inputs_decode)) (\<lambda>ins.
      andThen (case ins of Some i \<Rightarrow> vs (visit_inputs vis i) | None \<Rightarrow> ret ()) (\<lambda>_. ?k2 ins))"
  have muts: "reads_as (mutations_decode vis) m (mutations_encode enc m [])" if "?muts = Some m" for m
    using mutations_roundtrip [OF vis] ok that by (simp add: txdata_ok_def)
  have k3: "reads_as (?k3 ?ins ?outs) tx (?b3 @ [])"
    by (intro reads_as_optional muts) (simp_all only: record_etas reads_as_ret)
  have outs: "reads_as (rd vis outputs_decode) p (outputs_encode p [])" if "?outs = Some p" for p
    using ok that by (intro reads_as_rd outputs_roundtrip) (simp add: txdata_ok_def)
  have k2: "reads_as (?k2 ?ins) tx (?b2 @ (?b3 @ []))"
    using vis by (intro reads_as_optional outs reads_as_visited k3) (simp_all add: visitor_reads_def)
  have ins: "reads_as (rd vis inputs_decode) i (inputs_encode i [])" if "?ins = Some i" for i
    using ok that by (intro reads_as_rd inputs_roundtrip) (simp add: txdata_ok_def)
  have k1: "reads_as ?k1 tx (?b1 @ (?b2 @ (?b3 @ [])))"
    using vis by (intro reads_as_optional ins reads_as_visited k2) (simp_all add: visitor_reads_def)
  show ?thesis
    unfolding txdata_decode_def txdata_encode_out [OF ok] append_Nil
    using k1 by (intro reads_as_andThen [OF reads_as_rd [OF get_ints_append(1)]])
      (simp only: flags_contains_set append_Nil2)
qed

subsection \<open>Consuming and skipping\<close>

text \<open>\<open>drop_ok m\<close> is \<open>m\<close> with its result dropped.\<close>

abbreviation drop_ok :: "('s, 'e, 'a) act \<Rightarrow> ('s, 'e, unit) act" where
  "drop_ok m \<equiv> map_ok (\<lambda>_. ()) m"

lemma repeat_n_drop: "repeat_n n (drop_ok m) = drop_ok (collect_n n m)"
proof -
  have "repeat_n n (drop_ok m) = repeat_n n m"
    by (rule repeat_n_cong_drop) (simp add: map_ok_def andThen_assoc)
  then show ?thesis by (simp add: repeat_n_collect)
qed

lemma ops_consume_drop: "ops_consume vis visit = drop_ok (ops_decode vis visit)"
  by (simp add: ops_consume_def ops_decode_def map_ok_andThen repeat_n_collect) (simp add: map_ok_def)

lemma truncate_drop: "andThen (rd vis get_u32) (\<lambda>t. vs (visit_truncate vis t)) = drop_ok (truncate_decode vis)"
  by (simp add: truncate_decode_def map_ok_andThen andThen_ret_right)

lemma mutations_consume_drop: "mutations_consume vis = drop_ok (mutations_decode vis)"
  by (simp add: mutations_consume_def mutations_decode_def ops_consume_drop truncate_drop repeat_n_drop
      map_ok_andThen andThen_map_ok)

lemma optional_visited_drop:
  "andThen (optional b m) (\<lambda>x. andThen (case x of Some y \<Rightarrow> g y | None \<Rightarrow> ret ()) (\<lambda>_. k)) =
     andThen (if b then andThen m g else ret ()) (\<lambda>_. k)"
  by (simp add: optional_def andThen_map_ok andThen_assoc)

lemma optional_drop:
  "andThen (optional b m) (\<lambda>x. ret ()) = andThen (if b then drop_ok m else ret ()) (\<lambda>_. ret ())"
  by (simp add: optional_def andThen_map_ok)

lemma txdata_consume_drop: "txdata_consume vis = drop_ok (txdata_decode vis)"
  unfolding txdata_decode_def txdata_consume_def mutations_consume_drop
  by (simp only: map_ok_andThen map_ok_ret optional_visited_drop optional_drop)

text \<open>\<open>spans m m' R\<close>: where \<open>m\<close> succeeds, \<open>m'\<close> succeeds from any state of its visitor, takes the same bytes
  off the reader, and returns a related value.\<close>

definition spans ::
  "('v \<times> byte list, 'e, 'a) act \<Rightarrow> ('v \<times> byte list, 'e, 'b) act \<Rightarrow> ('a \<Rightarrow> 'b \<Rightarrow> bool) \<Rightarrow> bool" where
  "spans m m' R \<longleftrightarrow> (\<forall>v b x v' r w. returns m (v, b) x (v', r) \<longrightarrow> (\<exists>y w'. returns m' (w, b) y (w', r) \<and> R x y))"

lemma spans_ret: "R x y \<Longrightarrow> spans (ret x) (ret y) R"
  by (simp add: spans_def ret_def)

lemma spans_andThen:
  assumes "spans m m' R" and "\<And>x y. R x y \<Longrightarrow> spans (f x) (f' y) S"
  shows "spans (andThen m f) (andThen m' f') S"
  unfolding spans_def
proof (intro allI impI)
  fix v b x v' r w
  assume "returns (andThen m f) (v, b) x (v', r)"
  then obtain x1 v1 b1 where m: "returns m (v, b) x1 (v1, b1)" "returns (f x1) (v1, b1) x (v', r)"
    by (auto simp: andThen_eq_Inr_iff)
  from m(1) assms(1) obtain y1 w1 where y1: "returns m' (w, b) y1 (w1, b1)" "R x1 y1"
    unfolding spans_def by blast
  from m(2) assms(2) [OF y1(2)] obtain y w' where "returns (f' y1) (w1, b1) y (w', r)" "S x y"
    unfolding spans_def by blast
  with y1 show "\<exists>y w'. returns (andThen m' f') (w, b) y (w', r) \<and> S x y"
    by (auto simp: andThen_returns)
qed

lemma spans_rd: "spans (rd vis m) (rd vis m) (=)"
  by (auto simp: spans_def rd_def split: prod.splits sum.splits)

lemma spans_rd_then:
  "(\<And>x. spans (f x) (f' x) S) \<Longrightarrow> spans (andThen (rd vis m) f) (andThen (rd vis m) f') S"
  by (rule spans_andThen [OF spans_rd]) auto

lemma spans_vs: "spans (vs m) (ret ()) (=)"
  by (auto simp: spans_def vs_def ret_def split: prod.splits)

lemma spans_weaken: "spans m m' R \<Longrightarrow> (\<And>x y. R x y \<Longrightarrow> S x y) \<Longrightarrow> spans m m' S"
  unfolding spans_def by meson

lemma spans_repeat:
  fixes m :: "('v \<times> byte list, 'e, 'a) act" and m' :: "('v \<times> byte list, 'e, 'b) act"
  assumes "spans m m' (\<lambda>_ _. True)"
  shows "spans (collect_n n m) (repeat_n n m') (\<lambda>_ _. True)"
proof (induction n)
  case (Suc n)
  have "spans (andThen (collect_n n m) (\<lambda>xs. ret (x # xs))) (repeat_n n m') (\<lambda>_ _. True)" for x
    using Suc unfolding spans_def by (auto simp: andThen_eq_Inr_iff ret_def)
  with assms show ?case by (auto intro!: spans_andThen)
qed (simp add: spans_ret)

definition skips_rows :: "('v, 'e, 'r) visitor \<Rightarrow> bool" where
  "skips_rows vis \<longleftrightarrow> (\<forall>t. spans (visit_insert vis t) (skip_row vis t) (\<lambda>_ _. True) \<and>
     spans (visit_delete vis t) (skip_row vis t) (\<lambda>_ _. True))"

lemma spans_ops:
  assumes "\<And>t. spans (visit t) (skip t) (\<lambda>_ _. True)"
  shows "spans (ops_decode vis visit) (ops_consume vis skip) (\<lambda>_ _. True)"
proof -
  have "spans (andThen (collect_n n (visit t)) (\<lambda>rows. ret \<lparr>table_id = t, rowdata = rows\<rparr>)) (repeat_n n (skip t)) (\<lambda>_ _. True)" for n t
    using spans_repeat [OF assms, of n t] unfolding spans_def by (auto simp: andThen_eq_Inr_iff ret_def)
  then show ?thesis unfolding ops_decode_def ops_consume_def
    by (intro spans_andThen [OF spans_rd]) auto
qed

lemma spans_truncate: "spans (truncate_decode vis) (rd vis get_u32) (\<lambda>_ _. True)"
proof -
  have "rd vis get_u32 = andThen (rd vis get_u32) (\<lambda>t. andThen (ret ()) (\<lambda>_. ret t))"
    by (rule ext) (auto simp: andThen_def ret_def split: prod.split sum.split)
  moreover have "spans (truncate_decode vis) (andThen (rd vis get_u32) (\<lambda>t. andThen (ret ()) (\<lambda>_. ret t))) (\<lambda>_ _. True)"
    unfolding truncate_decode_def by (intro spans_andThen [OF spans_rd] spans_andThen [OF spans_vs] spans_ret) auto
  ultimately show ?thesis by simp
qed

lemma spans_mutations:
  assumes "skips_rows vis"
  shows "spans (mutations_decode vis) (mutations_skip vis) (\<lambda>_ _. True)"
proof -
  have "spans (ops_decode vis (visit_insert vis)) (ops_consume vis (skip_row vis)) (\<lambda>_ _. True)"
    "spans (ops_decode vis (visit_delete vis)) (ops_consume vis (skip_row vis)) (\<lambda>_ _. True)"
    using assms by (auto intro!: spans_ops simp: skips_rows_def)
  then show ?thesis unfolding mutations_decode_def mutations_skip_def
    by (auto intro!: spans_andThen [OF spans_rd] spans_andThen [OF spans_repeat] spans_ret spans_truncate)
qed

lemma spans_optional:
  assumes "spans m m' (\<lambda>_ _. True)"
  shows "spans (optional b m) (if b then m' else ret z) (\<lambda>_ _. True)"
  using assms unfolding spans_def optional_def by (auto simp: map_ok_def andThen_eq_Inr_iff ret_def)

lemma spans_visited: "spans (case opt of Some x \<Rightarrow> vs (g x) | None \<Rightarrow> ret ()) (ret ()) (\<lambda>_ _. True)"
  using spans_vs by (cases opt) (auto intro: spans_weaken spans_ret)

lemma spans_drop: "spans (rd vis m) (drop_ok (rd vis m)) (\<lambda>_ _. True)"
  using spans_rd [of vis m] unfolding spans_def by (simp add: map_ok_def andThen_eq_Inr_iff ret_def) blast

lemma map_err_drop: "map_err f (drop_ok m) = drop_ok (map_err f m)"
  by (rule ext) (auto simp: map_err_def map_ok_def andThen_def ret_def split: prod.splits sum.splits)

lemma spans_txdata:
  assumes "skips_rows vis"
  shows "spans (txdata_decode vis) (txdata_skip vis) (\<lambda>_ _. True)"
proof -
  have skip: "txdata_skip vis = andThen (rd vis get_u8) (\<lambda>flags.
     andThen (if flags_contains flags HAVE_INPUTS then drop_ok (rd vis inputs_decode) else ret ()) (\<lambda>_.
     andThen (ret ()) (\<lambda>_. andThen (if flags_contains flags HAVE_OUTPUTS then drop_ok (rd vis outputs_decode) else ret ()) (\<lambda>_.
     andThen (ret ()) (\<lambda>_. andThen (if flags_contains flags HAVE_MUTATIONS then mutations_skip vis else ret ()) (\<lambda>_.
     ret ()))))))"
    by (simp add: txdata_skip_def)
  show ?thesis unfolding skip txdata_decode_def
    by (intro spans_rd_then spans_andThen [OF spans_optional] spans_andThen [OF spans_visited]
        spans_drop spans_mutations [OF assms] spans_ret) auto
qed

subsection \<open>Properties\<close>

text \<open>Claim C8.  The payload of a transaction round-trips: when the visitor reads back rows as their
  encoder wrote them, decoding an encoded record (names within 255 bytes of UTF-8, arguments that fit the
  32-bit length) returns the record and leaves the reader right behind it.\<close>

theorem txdata_roundtrip:
  assumes "visitor_reads vis enc" and "txdata_ok tx"
  shows "\<exists>v'. txdata_decode vis (v, txdata_encode enc tx [] @ rest) = (Inr tx, (v', rest))"
  using txdata_reads [OF assms] unfolding reads_as_def by blast

text \<open>A visitor that keeps rows of one byte, with the default callbacks.\<close>

definition byte_visitor :: "(unit, decode_error, byte) visitor" where
  "byte_visitor = \<lparr>
     visit_insert = \<lambda>_ s. (case get_u8 (snd s) of (res, r) \<Rightarrow> (res, ((), r))),
     visit_delete = \<lambda>_ s. (case get_u8 (snd s) of (res, r) \<Rightarrow> (res, ((), r))),
     skip_row = \<lambda>_ s. (case map_ok (\<lambda>_. ()) get_u8 (snd s) of (res, r) \<Rightarrow> (res, ((), r))),
     visit_truncate = \<lambda>_. ret (), visit_tx_start = \<lambda>_. ret (), visit_tx_end = ret (),
     visit_inputs = \<lambda>_. ret (), visit_outputs = \<lambda>_. ret (), from_decode_error = id\<rparr>"

definition sample_tx :: "byte txdata" where
  "sample_tx = \<lparr>tx_inputs = Some \<lparr>reducer_name = [0x61], reducer_args = [1, 2]\<rparr>, tx_outputs = None,
     tx_mutations = Some \<lparr>inserts = [\<lparr>table_id = 7, rowdata = [1, 2, 3]\<rparr>], deletes = [], truncates = [9]\<rparr>\<rparr>"

lemma byte_visitor_reads: "visitor_reads byte_visitor (\<lambda>b. [b])"
  by (simp add: visitor_reads_def byte_visitor_def reads_as_def ret_def)

lemma sample_tx_ok: "txdata_ok sample_tx"
  by (simp add: txdata_ok_def sample_tx_def inputs_ok_def mutations_ok_def ops_ok_def
      utf8_valid.simps [of "[0x61]"] utf8_width_def)

theorem txdata_roundtrip_witness:
  "\<exists>v'. txdata_decode byte_visitor ((), txdata_encode (\<lambda>b. [b]) sample_tx [] @ [42]) = (Inr sample_tx, (v', [42]))"
  using txdata_roundtrip [OF byte_visitor_reads sample_tx_ok] by blast




end
