(* ===== verification/Commit_Format.thy ===== *)
theory Commit_Format
  imports Byte_Buffer
begin

text \<open>
  \<^verbatim>\<open>crates/commitlog/src/commit.rs\<close>: the framing of a commit in a segment.  The CRC32C of the bytes
  written or read so far is computed by a library: it is the parameter \<open>crc32c\<close>.  A writer is the bytes
  written, a reader the bytes left.
\<close>

subsection \<open>Input errors and exact reads\<close>

datatype invalid_data = ChecksumMismatch | DecodeFailure decode_error | Message string

datatype io_error =
    UnexpectedEof
  | InvalidData invalid_data
  | InvalidInput string
  | AlreadyExists
  | NotFound
  | OtherIo string

type_synonym 'a io = "(byte list, io_error, 'a) act"

text \<open>\<^verbatim>\<open>Read::read_exact\<close>: a short input is consumed and reported.\<close>

definition read_exact :: "nat \<Rightarrow> byte list io" where
  "read_exact n r = (if n \<le> length r then (Inr (take n r), drop n r) else (Inl UnexpectedEof, []))"

subsection \<open>Headers\<close>

datatype version = V0 | V1

record commit_header =
  hdr_min_tx_offset :: u64
  hdr_epoch :: u64
  hdr_n :: u16
  hdr_len :: u32

definition COMMIT_HEADER_LEN :: nat where
  "COMMIT_HEADER_LEN = 8 + 8 + 2 + 4"

definition DEFAULT_EPOCH :: u64 where
  "DEFAULT_EPOCH = 0"

definition CHECKSUM_CRC32C_LEN :: nat where
  "CHECKSUM_CRC32C_LEN = 4"

definition FRAMING_LEN :: nat where
  "FRAMING_LEN = COMMIT_HEADER_LEN + CHECKSUM_CRC32C_LEN"

definition parse_header_v0 :: "commit_header reader" where
  "parse_header_v0 =
     andThen get_u64 (\<lambda>off. andThen get_u16 (\<lambda>n. andThen get_u32 (\<lambda>len.
       ret \<lparr>hdr_min_tx_offset = off, hdr_epoch = DEFAULT_EPOCH, hdr_n = n, hdr_len = len\<rparr>)))"

definition parse_header_v1 :: "commit_header reader" where
  "parse_header_v1 =
     andThen get_u64 (\<lambda>off. andThen get_u64 (\<lambda>ep. andThen get_u16 (\<lambda>n. andThen get_u32 (\<lambda>len.
       ret \<lparr>hdr_min_tx_offset = off, hdr_epoch = ep, hdr_n = n, hdr_len = len\<rparr>))))"

text \<open>The decoded header comes with the bytes it was read from, which the checksum covers.\<close>

definition header_decode :: "nat \<Rightarrow> commit_header reader \<Rightarrow> (commit_header \<times> byte list) option io" where
  "header_decode n parse r =
     (case read_exact n r of
        (Inl e, r') \<Rightarrow> if e = UnexpectedEof then (Inr None, r') else (Inl e, r')
      | (Inr hdr, r') \<Rightarrow>
          if hdr = replicate 14 0 then (Inr None, r')
          else case fst (parse hdr) of
                 Inl e \<Rightarrow> (Inl (InvalidData (DecodeFailure e)), r')
               | Inr h \<Rightarrow> (Inr (Some (h, hdr)), r'))"

definition header_decode_v0 :: "(commit_header \<times> byte list) option io" where
  "header_decode_v0 = header_decode (COMMIT_HEADER_LEN - 8) parse_header_v0"

definition header_decode_v1 :: "(commit_header \<times> byte list) option io" where
  "header_decode_v1 = header_decode COMMIT_HEADER_LEN parse_header_v1"

definition header_decode_internal :: "version \<Rightarrow> (commit_header \<times> byte list) option io" where
  "header_decode_internal v = (case v of V0 \<Rightarrow> header_decode_v0 | V1 \<Rightarrow> header_decode_v1)"

subsection \<open>Commits\<close>

record commit =
  min_tx_offset :: u64
  epoch :: u64
  n_records :: u16
  records :: "byte list"

record stored_commit = commit +
  checksum :: u32

definition commit_from_stored :: "stored_commit \<Rightarrow> commit" where
  "commit_from_stored sc =
     \<lparr>min_tx_offset = min_tx_offset sc, epoch = epoch sc, n_records = n_records sc, records = records sc\<rparr>"

definition tx_range :: "'a commit_scheme \<Rightarrow> u64 \<times> u64" where
  "tx_range c = (min_tx_offset c, min_tx_offset c + ucast (n_records c))"

definition encoded_len :: "'a commit_scheme \<Rightarrow> nat" where
  "encoded_len c = FRAMING_LEN + length (records c)"

definition commit_write :: "(byte list \<Rightarrow> u32) \<Rightarrow> commit \<Rightarrow> byte list \<Rightarrow> u32 \<times> byte list" where
  "commit_write crc32c c out =
     (let body = put_slice (records c) (put_u32 (of_nat (length (records c))) (put_u16 (n_records c)
                   (put_u64 (epoch c) (put_u64 (min_tx_offset c) []))));
          crc = crc32c body
      in (crc, put_u32 crc (put_slice body out)))"

definition decode_u32 :: "u32 io" where
  "decode_u32 = andThen (read_exact 4) (\<lambda>b. ret (from_le_bytes b))"

definition DEFAULT_LOG_FORMAT_VERSION :: u8 where
  "DEFAULT_LOG_FORMAT_VERSION = 1"

definition stored_commit_decode_internal :: "(byte list \<Rightarrow> u32) \<Rightarrow> u8 \<Rightarrow> stored_commit option io" where
  "stored_commit_decode_internal crc32c log_format_version =
     andThen (header_decode_internal (if log_format_version = 0 then V0 else V1)) (\<lambda>hdr.
       case hdr of
         None \<Rightarrow> ret None
       | Some (h, hdr_bytes) \<Rightarrow>
           andThen (read_exact (unat (hdr_len h))) (\<lambda>recs.
             let chk = crc32c (hdr_bytes @ recs) in
             andThen decode_u32 (\<lambda>crc.
               if chk \<noteq> crc then fail_with (InvalidData ChecksumMismatch)
               else ret (Some \<lparr>min_tx_offset = hdr_min_tx_offset h, epoch = hdr_epoch h, n_records = hdr_n h,
                               records = recs, checksum = crc\<rparr>))))"

definition stored_commit_decode :: "(byte list \<Rightarrow> u32) \<Rightarrow> stored_commit option io" where
  "stored_commit_decode crc32c = stored_commit_decode_internal crc32c DEFAULT_LOG_FORMAT_VERSION"

definition commit_decode :: "(byte list \<Rightarrow> u32) \<Rightarrow> commit option io" where
  "commit_decode crc32c = map_ok (map_option commit_from_stored) (stored_commit_decode crc32c)"

record commit_metadata =
  cm_tx_range :: "u64 \<times> u64"
  cm_size_in_bytes :: u64
  cm_epoch :: u64

definition metadata_from_commit :: "commit \<Rightarrow> commit_metadata" where
  "metadata_from_commit c =
     \<lparr>cm_tx_range = tx_range c, cm_size_in_bytes = of_nat (encoded_len c), cm_epoch = epoch c\<rparr>"

definition commit_metadata_extract :: "(byte list \<Rightarrow> u32) \<Rightarrow> commit_metadata option io" where
  "commit_metadata_extract crc32c = map_ok (map_option metadata_from_commit) (commit_decode crc32c)"

subsection \<open>Transactions of a commit\<close>

record 'r transaction =
  tx_offset :: u64
  txdata :: 'r

text \<open>A decoder of records, over its own state and the bytes of the commit that are left.\<close>

record ('d, 'e, 'r) decoder =
  decode_record :: "u8 \<Rightarrow> u64 \<Rightarrow> ('d \<times> byte list, 'e, 'r) act"
  consume_record :: "u8 \<Rightarrow> u64 \<Rightarrow> ('d \<times> byte list, 'e, unit) act"
  skip_record :: "u8 \<Rightarrow> u64 \<Rightarrow> ('d \<times> byte list, 'e, unit) act"

text \<open>The half-open range \<^verbatim>\<open>a..b\<close> of 64-bit integers.\<close>

definition u64_range :: "u64 \<Rightarrow> u64 \<Rightarrow> u64 list" where
  "u64_range a b = map of_nat [unat a..<unat b]"

fun scan_records ::
  "('d, 'e, 'r) decoder \<Rightarrow> u8 \<Rightarrow> u64 \<Rightarrow> u64 list \<Rightarrow> 'd \<times> byte list \<Rightarrow> ('e + 'r transaction) list \<times> 'd \<times> byte list" where
  "scan_records de version from_offset [] s = ([], s)"
| "scan_records de version from_offset (off # offs) s =
     (if off < from_offset then
        (case skip_record de version off s of
           (Inl e, s') \<Rightarrow> (case scan_records de version from_offset offs s' of (ts, s'') \<Rightarrow> (Inl e # ts, s''))
         | (Inr _, s') \<Rightarrow> scan_records de version from_offset offs s')
      else
        (case decode_record de version off s of
           (res, s') \<Rightarrow>
             (case scan_records de version from_offset offs s' of
                (ts, s'') \<Rightarrow> (map_sum id (\<lambda>r. \<lparr>tx_offset = off, txdata = r\<rparr>) res # ts, s''))))"

definition into_transactions ::
  "('d, 'e, 'r) decoder \<Rightarrow> 'a commit_scheme \<Rightarrow> u8 \<Rightarrow> u64 \<Rightarrow> 'd \<Rightarrow> ('e + 'r transaction) list \<times> 'd" where
  "into_transactions de c version from_offset d =
     (case scan_records de version from_offset (u64_range (fst (tx_range c)) (snd (tx_range c))) (d, records c) of
        (ts, d', _) \<Rightarrow> (ts, d'))"

subsection \<open>The bytes of a commit\<close>

definition commit_body :: "'a commit_scheme \<Rightarrow> byte list" where
  "commit_body c = (to_le_bytes 8 (min_tx_offset c) @ to_le_bytes 8 (epoch c) @ to_le_bytes 2 (n_records c) @
     to_le_bytes 4 (of_nat (length (records c)) :: u32)) @ records c"

definition commit_bytes :: "(byte list \<Rightarrow> u32) \<Rightarrow> 'a commit_scheme \<Rightarrow> byte list" where
  "commit_bytes crc32c c = commit_body c @ to_le_bytes 4 (crc32c (commit_body c))"

lemma commit_write_out: "commit_write crc c out = (crc (commit_body c), out @ commit_bytes crc c)"
  by (simp only: commit_write_def commit_bytes_def commit_body_def Let_def put_slice_def put_ints append_Nil append.assoc)

lemma length_commit_bytes: "length (commit_bytes crc c) = encoded_len c"
  by (simp add: commit_bytes_def commit_body_def encoded_len_def FRAMING_LEN_def COMMIT_HEADER_LEN_def CHECKSUM_CRC32C_LEN_def
      del: to_le_bytes.simps)

definition header_bytes :: "u64 \<Rightarrow> u64 \<Rightarrow> u16 \<Rightarrow> u32 \<Rightarrow> byte list" where
  "header_bytes off ep n len = to_le_bytes 8 off @ to_le_bytes 8 ep @ to_le_bytes 2 n @ to_le_bytes 4 len"

lemma length_header_bytes [simp]: "length (header_bytes off ep n len) = COMMIT_HEADER_LEN"
  by (simp add: header_bytes_def COMMIT_HEADER_LEN_def del: to_le_bytes.simps)

lemma header_bytes_not_v0_zeros: "header_bytes off ep n len \<noteq> replicate 14 0"
proof
  assume "header_bytes off ep n len = replicate 14 0"
  then have "length (header_bytes off ep n len) = 14" by simp
  then show False by (simp add: COMMIT_HEADER_LEN_def)
qed

lemma parse_header_bytes:
  "parse_header_v1 (header_bytes off ep n len @ rest) =
     (Inr \<lparr>hdr_min_tx_offset = off, hdr_epoch = ep, hdr_n = n, hdr_len = len\<rparr>, rest)"
  unfolding parse_header_v1_def header_bytes_def append.assoc get_then by (simp add: ret_def)

lemma header_bytes_surj:
  assumes "length hdr = COMMIT_HEADER_LEN"
  obtains off ep n len where "hdr = header_bytes off ep n len"
proof -
  define a b c d where abcd: "a = take 8 hdr" "b = take 8 (drop 8 hdr)" "c = take 2 (drop 16 hdr)" "d = take 4 (drop 18 hdr)"
  have len: "length a = 8" "length b = 8" "length c = 2" "length d = 4"
    using assms by (simp_all add: abcd COMMIT_HEADER_LEN_def)
  have "drop 18 hdr = d" using assms by (simp add: abcd COMMIT_HEADER_LEN_def)
  moreover have "hdr = take 8 hdr @ take 8 (drop 8 hdr) @ take 2 (drop 8 (drop 8 hdr)) @ drop 2 (drop 8 (drop 8 hdr))"
    by (simp only: append_take_drop_id)
  ultimately have "hdr = a @ b @ c @ d" by (simp add: abcd add.commute)
  then have "hdr = header_bytes (from_le_bytes a) (from_le_bytes b) (from_le_bytes c) (from_le_bytes d)"
    using len by (simp add: header_bytes_def to_le_bytes_from_le_bytes del: to_le_bytes.simps)
  then show ?thesis by (rule that)
qed

lemma read_exact_append: "length c = n \<Longrightarrow> read_exact n (c @ rest) = (Inr c, rest)"
  by (simp add: read_exact_def)

lemma header_decode_v1_bytes:
  "header_decode_v1 (header_bytes off ep n len @ rest) =
     (Inr (Some (\<lparr>hdr_min_tx_offset = off, hdr_epoch = ep, hdr_n = n, hdr_len = len\<rparr>, header_bytes off ep n len)), rest)"
  using parse_header_bytes [of off ep n len "[]"] header_bytes_not_v0_zeros
  by (simp add: header_decode_v1_def header_decode_def read_exact_append)

lemma header_decode_v1_short:
  "length r < COMMIT_HEADER_LEN \<Longrightarrow> header_decode_v1 r = (Inr None, [])"
  by (simp add: header_decode_v1_def header_decode_def read_exact_def)

text \<open>All that decoding does, by the length of the input.\<close>

lemma decode_internal_short:
  "length r < COMMIT_HEADER_LEN \<Longrightarrow> v \<noteq> 0 \<Longrightarrow> stored_commit_decode_internal crc v r = (Inr None, [])"
  by (simp add: stored_commit_decode_internal_def header_decode_internal_def andThen_def header_decode_v1_short ret_def)

lemma decode_internal_header:
  assumes "v \<noteq> 0"
  shows "stored_commit_decode_internal crc v (header_bytes off ep n len @ r) =
     (if length r < unat len + 4 then (Inl UnexpectedEof, [])
      else let recs = take (unat len) r; c = from_le_bytes (take 4 (drop (unat len) r)); rest = drop (unat len + 4) r
           in if crc (header_bytes off ep n len @ recs) \<noteq> c then (Inl (InvalidData ChecksumMismatch), rest)
              else (Inr (Some \<lparr>min_tx_offset = off, epoch = ep, n_records = n, records = recs, checksum = c\<rparr>), rest))"
proof (cases "length r < unat len")
  case True
  then show ?thesis using assms
    by (simp add: stored_commit_decode_internal_def header_decode_internal_def andThen_def header_decode_v1_bytes read_exact_def)
next
  case False
  then show ?thesis using assms
    by (auto simp: stored_commit_decode_internal_def header_decode_internal_def andThen_def header_decode_v1_bytes
        read_exact_def decode_u32_def ret_def fail_with_def Let_def add.commute less_diff_conv2)
qed

lemma commit_body_header:
  "commit_body c = header_bytes (min_tx_offset c) (epoch c) (n_records c) (of_nat (length (records c))) @ records c"
  by (simp add: commit_body_def header_bytes_def del: to_le_bytes.simps)

lemma unat_records_len: "n < 2 ^ 32 \<Longrightarrow> unat (of_nat n :: u32) = n"
  by (rule unat_of_nat_id) simp

lemma decode_internal_bytes:
  assumes "v \<noteq> 0" and "length (records c) < 2 ^ 32"
  shows "stored_commit_decode_internal crc v (commit_bytes crc c @ rest) =
     (Inr (Some \<lparr>min_tx_offset = min_tx_offset c, epoch = epoch c, n_records = n_records c, records = records c,
                 checksum = crc (commit_body c)\<rparr>), rest)"
  using assms
  by (simp add: commit_bytes_def commit_body_header decode_internal_header unat_records_len Let_def
      from_le_bytes_to_le_bytes del: to_le_bytes.simps)

lemma decode_internal_some:
  assumes v: "v \<noteq> 0" and dec: "stored_commit_decode_internal crc v bs = (Inr (Some sc), r)"
  shows "length (records sc) < 2 ^ 32 \<and> checksum sc = crc (commit_body sc) \<and> bs = commit_bytes crc sc @ r"
proof -
  have "\<not> length bs < COMMIT_HEADER_LEN" using dec v by (auto simp: decode_internal_short)
  then have "length (take COMMIT_HEADER_LEN bs) = COMMIT_HEADER_LEN" by simp
  then obtain off ep n len where hdr: "take COMMIT_HEADER_LEN bs = header_bytes off ep n len"
    by (rule header_bytes_surj)
  define b where "b = drop COMMIT_HEADER_LEN bs"
  have bs: "bs = header_bytes off ep n len @ b" by (metis hdr b_def append_take_drop_id)
  define recs where "recs = take (unat len) b"
  have enough: "\<not> length b < unat len + 4"
    using dec v unfolding bs by (auto simp: decode_internal_header)
  have sc: "crc (header_bytes off ep n len @ recs) = from_le_bytes (take 4 (drop (unat len) b))"
    "sc = \<lparr>min_tx_offset = off, epoch = ep, n_records = n, records = recs, checksum = from_le_bytes (take 4 (drop (unat len) b))\<rparr>"
    "r = drop (unat len + 4) b"
    using dec v enough unfolding bs decode_internal_header [OF v] recs_def by (auto simp: Let_def split: if_splits)
  have recs: "length recs = unat len" using enough by (simp add: recs_def)
  have "unat len < 2 ^ LENGTH(32)" by (rule unsigned_less)
  then have lt: "unat len < 2 ^ 32" by simp
  have "length (take 4 (drop (unat len) b)) = 4" using enough by simp
  then have "to_le_bytes 4 (crc (header_bytes off ep n len @ recs)) = take 4 (drop (unat len) b)"
    by (simp only: sc(1)) (rule to_le_bytes_from_le_bytes, simp_all)
  moreover have "b = recs @ take 4 (drop (unat len) b) @ drop (unat len + 4) b"
    unfolding recs_def by (metis add.commute append_take_drop_id drop_drop)
  ultimately show ?thesis
    using sc recs lt by (simp add: commit_bytes_def commit_body_header bs)
qed

lemma decode_internal_prefix:
  assumes "v \<noteq> 0" and "length (records c) < 2 ^ 32" and "k < length (commit_bytes crc c)"
  shows "stored_commit_decode_internal crc v (take k (commit_bytes crc c)) =
     (if k < COMMIT_HEADER_LEN then Inr None else Inl UnexpectedEof, [])"
proof (cases "k < COMMIT_HEADER_LEN")
  case True
  then show ?thesis using assms by (simp add: decode_internal_short)
next
  case False
  let ?h = "header_bytes (min_tx_offset c) (epoch c) (n_records c) (of_nat (length (records c)))"
  have "take k (commit_bytes crc c) = ?h @ take (k - COMMIT_HEADER_LEN) (records c @ to_le_bytes 4 (crc (commit_body c)))"
    using False by (simp add: commit_bytes_def commit_body_header del: to_le_bytes.simps)
  moreover have "length (take (k - COMMIT_HEADER_LEN) (records c @ to_le_bytes 4 (crc (commit_body c)))) < length (records c) + 4"
    using assms(3) False by (simp add: length_commit_bytes encoded_len_def FRAMING_LEN_def CHECKSUM_CRC32C_LEN_def del: to_le_bytes.simps)
  ultimately show ?thesis
    by (simp only: decode_internal_header [OF assms(1)] unat_records_len [OF assms(2)] False if_True if_False)
qed

subsection \<open>Properties\<close>


text \<open>Preallocated space does not read as the end of a segment in the current format: a header of zeros
  is accepted, because the all-zero pattern is the shorter one of the old format.\<close>

lemma zero_header_accepted:
  "header_decode_v1 (replicate COMMIT_HEADER_LEN 0 @ rest) =
     (Inr (Some (\<lparr>hdr_min_tx_offset = 0, hdr_epoch = 0, hdr_n = 0, hdr_len = 0\<rparr>, replicate COMMIT_HEADER_LEN 0)), rest)"
proof -
  have "replicate COMMIT_HEADER_LEN 0 = header_bytes 0 0 0 0"
    by (simp add: header_bytes_def COMMIT_HEADER_LEN_def numeral_eq_Suc)
  then show ?thesis by (simp add: header_decode_v1_bytes)
qed

lemma zero_header_v0_ends: "header_decode_v0 (replicate 14 0 @ rest) = (Inr None, rest)"
  by (simp add: header_decode_v0_def header_decode_def read_exact_append COMMIT_HEADER_LEN_def)

subsection \<open>Reading the transactions of a commit\<close>

text \<open>What the log relies on in a decoder: it reads back, and skips, the given records as they were
  encoded.\<close>

definition decodes_records :: "('d, 'e, 'r) decoder \<Rightarrow> u8 \<Rightarrow> ('r \<Rightarrow> byte list) \<Rightarrow> 'r list \<Rightarrow> bool" where
  "decodes_records de v enc rs \<longleftrightarrow> (\<forall>off. \<forall>r\<in>set rs. reads_as (decode_record de v off) r (enc r) \<and>
     reads_as (skip_record de v off) () (enc r))"

lemma scan_records_reads:
  "decodes_records de v enc rs \<Longrightarrow> length offs = length rs \<Longrightarrow>
    \<exists>d'. scan_records de v from offs (d, concat (map enc rs) @ rest) =
      (map (\<lambda>(off, r). Inr \<lparr>tx_offset = off, txdata = r\<rparr>) (filter (\<lambda>(off, _). \<not> off < from) (zip offs rs)), (d', rest))"
proof (induction offs arbitrary: rs d)
  case (Cons off offs)
  then obtain r rs' where rs: "rs = r # rs'" "length offs = length rs'" by (cases rs) auto
  let ?b = "concat (map enc rs') @ rest"
  have "\<exists>d'. returns (skip_record de v off) (d, enc r @ ?b) () (d', ?b)"
    "\<exists>d'. returns (decode_record de v off) (d, enc r @ ?b) r (d', ?b)"
    using Cons.prems by (auto simp: rs decodes_records_def reads_as_def)
  then obtain d1 d2 where "skip_record de v off (d, enc r @ ?b) = (Inr (), (d1, ?b))"
    "decode_record de v off (d, enc r @ ?b) = (Inr r, (d2, ?b))" by blast
  moreover have "decodes_records de v enc rs'" using Cons.prems by (simp add: rs decodes_records_def)
  ultimately show ?case using Cons.IH [OF _ rs(2), of d1] Cons.IH [OF _ rs(2), of d2]
    by (auto simp: rs)
qed simp

lemma u64_range_commit:
  assumes "unat a + n < 2 ^ 64"
  shows "u64_range a (a + of_nat n) = map (\<lambda>i. a + of_nat i) [0..<n]"
proof -
  have "unat (of_nat n :: u64) = n" using assms by (intro unat_of_nat_id) simp
  then have "unat (a + of_nat n) = unat a + n" using assms by (simp add: unat_word_ariths)
  then have "[unat a..<unat (a + of_nat n)] = map (\<lambda>i. i + unat a) [0..<n]" by (simp add: map_add_upt add.commute)
  then show ?thesis by (simp add: u64_range_def add.commute)
qed

lemma length_u64_range: "unat a + n < 2 ^ 64 \<Longrightarrow> length (u64_range a (a + of_nat n)) = n"
  by (simp add: u64_range_commit)


text \<open>The decoder of fixed-size records of the code (\<^verbatim>\<open>payload.rs\<close>).\<close>

definition array_decoder :: "nat \<Rightarrow> (unit, decode_error, byte list) decoder" where
  "array_decoder n = \<lparr>
     decode_record = \<lambda>_ _ s. (case get_array n (snd s) of (res, r) \<Rightarrow> (res, ((), r))),
     consume_record = \<lambda>_ _ s. (case map_ok (\<lambda>_. ()) (get_array n) (snd s) of (res, r) \<Rightarrow> (res, ((), r))),
     skip_record = \<lambda>_ _ s. (case map_ok (\<lambda>_. ()) (get_array n) (snd s) of (res, r) \<Rightarrow> (res, ((), r)))\<rparr>"

lemma array_decoder_reads: "list_all (\<lambda>r. length r = n) rs \<Longrightarrow> decodes_records (array_decoder n) v id rs"
  by (auto simp: decodes_records_def array_decoder_def reads_as_def get_array_append map_ok_returns list_all_iff)


end
