(* ===== verification/Offset_Index.thy ===== *)
theory Offset_Index
  imports Commit_Format
begin

text \<open>
  \<^verbatim>\<open>crates/commitlog/src/index/indexfile.rs\<close>: the offset index of a segment, a memory-mapped array of
  (transaction offset, byte offset) pairs in ascending order, ended by a zero key.  Flushing the mapping
  has no effect on the bytes.
\<close>

subsection \<open>Operations\<close>

definition KEY_SIZE :: nat where "KEY_SIZE = 8"

definition ENTRY_SIZE :: nat where "ENTRY_SIZE = KEY_SIZE + 8"

datatype index_error =
    IndexIo io_error
  | OutOfRange
  | KeyNotFound
  | InvalidKeyInput u64 u64
  | InvalidFormat

record index_file =
  mmap :: "byte list"
  num_entries :: nat

definition index_entry :: "byte list \<Rightarrow> nat \<Rightarrow> u64 \<times> u64" where
  "index_entry m start =
     (from_le_bytes (take KEY_SIZE (drop start m)), from_le_bytes (take 8 (drop (start + KEY_SIZE) m)))"

definition index_lookup :: "index_file \<Rightarrow> nat \<Rightarrow> index_error + (u64 \<times> u64)" where
  "index_lookup ix index =
     (let start = index * ENTRY_SIZE
      in if start + ENTRY_SIZE > length (mmap ix) then Inl OutOfRange else Inr (index_entry (mmap ix) start))"

text \<open>Counting the entries up to the first zero key.\<close>

function count_entries :: "index_file \<Rightarrow> nat \<Rightarrow> index_error + nat" where
  "count_entries ix index =
     (case index_lookup ix index of
        Inr (key, _) \<Rightarrow> if key = 0 then Inr index else count_entries ix (index + 1)
      | Inl OutOfRange \<Rightarrow> Inr index
      | Inl e \<Rightarrow> Inl e)"
  by pat_completeness auto

termination count_entries
  by (relation "measure (\<lambda>(ix, i). length (mmap ix) - i)")
    (auto simp: index_lookup_def ENTRY_SIZE_def KEY_SIZE_def Let_def split: if_splits)

declare count_entries.simps [simp del]

definition open_index :: "byte list \<Rightarrow> index_error + index_file" where
  "open_index m =
     (case count_entries \<lparr>mmap = m, num_entries = 0\<rparr> 0 of
        Inl e \<Rightarrow> Inl e
      | Inr n \<Rightarrow> Inr \<lparr>mmap = m, num_entries = n\<rparr>)"

text \<open>\<^verbatim>\<open>create_index_file\<close> sizes the file for \<open>cap\<close> entries; a fresh file is zero.\<close>

definition create_index :: "nat \<Rightarrow> index_file" where
  "create_index cap = \<lparr>mmap = replicate (cap * ENTRY_SIZE) 0, num_entries = 0\<rparr>"

function find_loop :: "index_file \<Rightarrow> u64 \<Rightarrow> nat \<Rightarrow> nat \<Rightarrow> index_error + nat" where
  "find_loop ix key low high =
     (if low < high then
        (let mid = low + (high - low) div 2
         in case index_lookup ix mid of
              Inl e \<Rightarrow> Inl e
            | Inr (mid_key, _) \<Rightarrow>
                if mid_key > key
                then (if mid - low = 1 then Inr low else find_loop ix key low mid)
                else (if high - mid = 1 then Inr mid else find_loop ix key mid high))
      else Inr low)"
  by pat_completeness auto

lemma upper_half_shrinks:
  "low < high \<Longrightarrow> high - (low + (high - low) div 2) \<noteq> Suc 0 \<Longrightarrow> high - (low + (high - low) div 2) < high - low"
  by (cases "high - low = 1") auto

termination find_loop
  by (relation "measure (\<lambda>(_, _, low, high). high - low)") (auto intro!: upper_half_shrinks)

declare find_loop.simps [simp del]

definition find_index :: "index_file \<Rightarrow> u64 \<Rightarrow> index_error + (u64 \<times> nat)" where
  "find_index ix key =
     (case find_loop ix key 0 (num_entries ix) of
        Inl e \<Rightarrow> Inl e
      | Inr low \<Rightarrow>
          (case index_lookup ix low of
             Inl e \<Rightarrow> Inl e
           | Inr (low_key, _) \<Rightarrow>
               if low = 0 \<and> key < low_key then Inl KeyNotFound
               else if low_key = 0 then Inl KeyNotFound
               else Inr (low_key, low)))"

definition last_key :: "index_file \<Rightarrow> u64" where
  "last_key ix = (if num_entries ix = 0 then 0 else fst (index_entry (mmap ix) ((num_entries ix - 1) * ENTRY_SIZE)))"

definition key_lookup :: "index_file \<Rightarrow> u64 \<Rightarrow> index_error + (u64 \<times> u64)" where
  "key_lookup ix key = (case find_index ix key of Inl e \<Rightarrow> Inl e | Inr (_, idx) \<Rightarrow> index_lookup ix idx)"

text \<open>\<^verbatim>\<open>copy_from_slice\<close> and \<^verbatim>\<open>fill\<close> on a range of the mapping.\<close>

definition blit :: "nat \<Rightarrow> byte list \<Rightarrow> byte list \<Rightarrow> byte list" where
  "blit start bytes m = take start m @ bytes @ drop (start + length bytes) m"

definition index_append :: "index_file \<Rightarrow> u64 \<Rightarrow> u64 \<Rightarrow> (index_error + unit) \<times> index_file" where
  "index_append ix key val =
     (let last = last_key ix
      in if key \<le> last then (Inl (InvalidKeyInput last key), ix)
         else let start = num_entries ix * ENTRY_SIZE
              in if start + ENTRY_SIZE > length (mmap ix) then (Inl OutOfRange, ix)
                 else (Inr (), ix\<lparr>mmap := blit (start + KEY_SIZE) (to_le_bytes 8 val) (blit start (to_le_bytes 8 key) (mmap ix)),
                                 num_entries := num_entries ix + 1\<rparr>))"

definition index_truncate :: "index_file \<Rightarrow> u64 \<Rightarrow> (index_error + unit) \<times> index_file" where
  "index_truncate ix key =
     (case find_index ix key of
        Inl e \<Rightarrow> (Inl e, ix)
      | Inr (found_key, index) \<Rightarrow>
          let n = (if found_key = key then index else index + 1);
              start = n * ENTRY_SIZE
          in (Inr (), ix\<lparr>num_entries := n,
                mmap := (if start < length (mmap ix)
                         then blit start (replicate (length (mmap ix) - start) 0) (mmap ix) else mmap ix)\<rparr>))"

text \<open>The iterator over the entries, run to its end.\<close>

definition index_entries :: "index_file \<Rightarrow> (u64 \<times> u64) list" where
  "index_entries ix = map (\<lambda>i. index_entry (mmap ix) (i * ENTRY_SIZE)) [0..<num_entries ix]"

text \<open>Whatever the bytes are, a key that is found is neither zero nor above the key searched for.\<close>

lemma find_loop_not_above:
  "find_loop ix key low high = Inr p \<Longrightarrow> p = low \<or> (\<exists>k v. index_lookup ix p = Inr (k, v) \<and> k \<le> key)"
proof (induction ix key low high rule: find_loop.induct)
  case (1 ix key low high)
  show ?case
  proof (cases "low < high")
    case True
    define mid where "mid = low + (high - low) div 2"
    show ?thesis
    proof (cases "index_lookup ix mid")
      case (Inl e)
      then show ?thesis using "1.prems" True by (subst (asm) find_loop.simps) (simp add: mid_def Let_def)
    next
      case (Inr kv)
      obtain mk mv where kv: "kv = (mk, mv)" by (cases kv)
      have unf: "find_loop ix key low high =
          (if mk > key then (if mid - low = 1 then Inr low else find_loop ix key low mid)
           else (if high - mid = 1 then Inr mid else find_loop ix key mid high))"
        using True Inr kv unfolding mid_def by (subst find_loop.simps) (simp add: Let_def)
      show ?thesis
        using "1.IH"(1) [OF True mid_def Inr kv [symmetric]] "1.IH"(2) [OF True mid_def Inr kv [symmetric]] "1.prems" Inr kv
        unfolding unf by (auto simp: not_less split: if_splits)
    qed
  next
    case False
    then show ?thesis using "1.prems" by (subst (asm) find_loop.simps) simp
  qed
qed

lemma key_lookup_not_above:
  assumes "key_lookup ix key = Inr (k, v)"
  shows "0 < k \<and> k \<le> key"
proof -
  obtain k' p where p: "find_index ix key = Inr (k', p)" "index_lookup ix p = Inr (k, v)"
    using assms by (auto simp: key_lookup_def split: sum.splits)
  then have low: "find_loop ix key 0 (num_entries ix) = Inr p" and k: "k' = k" "k \<noteq> 0" "\<not> (p = 0 \<and> key < k)"
    by (auto simp: find_index_def split: sum.splits if_splits)
  from find_loop_not_above [OF low] p k show ?thesis by (auto simp: not_less word_gt_0)
qed

subsection \<open>Slots of the mapping\<close>

abbreviation slot :: "index_file \<Rightarrow> nat \<Rightarrow> u64 \<times> u64" where
  "slot ix i \<equiv> index_entry (mmap ix) (i * ENTRY_SIZE)"

lemmas sizes = ENTRY_SIZE_def KEY_SIZE_def

lemma length_blit [simp]: "start + length bytes \<le> length m \<Longrightarrow> length (blit start bytes m) = length m"
  by (simp add: blit_def)

lemma nth_blit:
  "start + length bytes \<le> length m \<Longrightarrow> i < length m \<Longrightarrow>
     blit start bytes m ! i = (if start \<le> i \<and> i < start + length bytes then bytes ! (i - start) else m ! i)"
  by (auto simp: blit_def nth_append min_def)

lemma take_drop_eq:
  "i + n \<le> length m \<Longrightarrow> take n (drop i m) = map (\<lambda>k. m ! (i + k)) [0..<n]"
  by (rule nth_equalityI) auto

lemma take_drop_blit_same:
  "start + length bytes \<le> length m \<Longrightarrow> take (length bytes) (drop start (blit start bytes m)) = bytes"
  by (simp add: blit_def)

lemma take_drop_blit_other:
  assumes "start + length bytes \<le> length m" and "i + n \<le> length m" and "i + n \<le> start \<or> start + length bytes \<le> i"
  shows "take n (drop i (blit start bytes m)) = take n (drop i m)"
proof -
  have "take n (drop i (blit start bytes m)) = map (\<lambda>k. blit start bytes m ! (i + k)) [0..<n]"
    using assms by (intro take_drop_eq) simp
  also have "\<dots> = map (\<lambda>k. m ! (i + k)) [0..<n]"
    using assms by (intro map_cong refl) (auto simp: nth_blit)
  also have "\<dots> = take n (drop i m)" using assms by (simp add: take_drop_eq)
  finally show ?thesis .
qed

definition idx_ok :: "index_file \<Rightarrow> bool" where
  "idx_ok ix \<longleftrightarrow> length (mmap ix) mod ENTRY_SIZE = 0 \<and> num_entries ix * ENTRY_SIZE \<le> length (mmap ix) \<and>
     sorted_wrt (<) (0 # map fst (index_entries ix)) \<and>
     (\<forall>i. num_entries ix \<le> i \<longrightarrow> (i + 1) * ENTRY_SIZE \<le> length (mmap ix) \<longrightarrow> fst (slot ix i) = 0)"

lemma slot_less_cap: "i < n \<Longrightarrow> n * ENTRY_SIZE \<le> len \<Longrightarrow> i * ENTRY_SIZE + ENTRY_SIZE \<le> len"
proof -
  assume "i < n" "n * ENTRY_SIZE \<le> len"
  then have "(i + 1) * ENTRY_SIZE \<le> n * ENTRY_SIZE" by (intro mult_right_mono) auto
  with \<open>n * ENTRY_SIZE \<le> len\<close> show ?thesis by (simp add: algebra_simps)
qed

lemma idx_ok_zero:
  "idx_ok ix \<Longrightarrow> num_entries ix \<le> i \<Longrightarrow> i * ENTRY_SIZE + ENTRY_SIZE \<le> length (mmap ix) \<Longrightarrow> fst (slot ix i) = 0"
  by (auto simp: idx_ok_def add.commute)

lemma index_lookup_ok: "idx_ok ix \<Longrightarrow> i < num_entries ix \<Longrightarrow> index_lookup ix i = Inr (slot ix i)"
  using slot_less_cap [of i "num_entries ix" "length (mmap ix)"]
  by (auto simp: index_lookup_def idx_ok_def Let_def)

lemma index_keys_sorted:
  "idx_ok ix \<Longrightarrow> i < j \<Longrightarrow> j < num_entries ix \<Longrightarrow> fst (slot ix i) < fst (slot ix j)"
  using sorted_wrt_nth_less [of "(<)" "map fst (index_entries ix)" i j]
  by (simp add: idx_ok_def index_entries_def)

lemma index_keys_pos: "idx_ok ix \<Longrightarrow> i < num_entries ix \<Longrightarrow> 0 < fst (slot ix i)"
  unfolding idx_ok_def index_entries_def by auto

text \<open>The search ends at the last entry not above the key, or at the first entry.\<close>

lemma find_loop_spec:
  "idx_ok ix \<Longrightarrow> low < num_entries ix \<Longrightarrow> high \<le> num_entries ix \<Longrightarrow> low \<le> high \<Longrightarrow>
    low = 0 \<or> fst (slot ix low) \<le> key \<Longrightarrow> (\<forall>i. high \<le> i \<longrightarrow> i < num_entries ix \<longrightarrow> key < fst (slot ix i)) \<Longrightarrow>
    \<exists>p. find_loop ix key low high = Inr p \<and> p < num_entries ix \<and> (p = 0 \<or> fst (slot ix p) \<le> key) \<and>
      (\<forall>i. p < i \<longrightarrow> i < num_entries ix \<longrightarrow> key < fst (slot ix i))"
proof (induction ix key low high rule: find_loop.induct)
  case (1 ix key low high)
  show ?case
  proof (cases "low < high")
    case False
    with "1.prems" show ?thesis by (subst find_loop.simps) auto
  next
    case True
    define mid where "mid = low + (high - low) div 2"
    obtain mk mv where mkv: "slot ix mid = (mk, mv)" by (cases "slot ix mid")
    have mid: "low \<le> mid" "mid < high" using True by (auto simp: mid_def)
    have lk: "index_lookup ix mid = Inr (mk, mv)"
      using mid "1.prems" mkv by (simp add: index_lookup_ok)
    have unf: "find_loop ix key low high =
        (if mk > key then (if mid - low = 1 then Inr low else find_loop ix key low mid)
         else (if high - mid = 1 then Inr mid else find_loop ix key mid high))"
      using True lk unfolding mid_def by (subst find_loop.simps) (simp add: Let_def)
    have above: "key < fst (slot ix i)" if "key < mk" "mid \<le> i" "i < num_entries ix" for i
      using that index_keys_sorted [OF "1.prems"(1), of mid i] mkv by (cases "i = mid") auto
    show ?thesis
    proof (cases "key < mk")
      case gt: True
      have high: "\<forall>i. mid \<le> i \<longrightarrow> i < num_entries ix \<longrightarrow> key < fst (slot ix i)" using above gt by blast
      show ?thesis
      proof (cases "mid - low = 1")
        case one: True
        have "key < fst (slot ix i)" if "low < i" "i < num_entries ix" for i
          using one that high by auto
        with gt one unf "1.prems" show ?thesis by auto
      next
        case False
        have "mid \<le> num_entries ix" using mid "1.prems" by simp
        with "1.IH"(1) [OF True mid_def lk refl gt False] "1.prems" mid high gt False unf show ?thesis by auto
      qed
    next
      case le: False
      show ?thesis
      proof (cases "high - mid = 1")
        case one: True
        have "key < fst (slot ix i)" if "mid < i" "i < num_entries ix" for i
          using one that "1.prems"(6) by auto
        moreover have "mid < num_entries ix" using mid "1.prems" by simp
        ultimately show ?thesis using le one unf mkv by auto
      next
        case False
        have "mid < num_entries ix" "mk \<le> key" using mid le "1.prems" by simp_all
        with "1.IH"(2) [OF True mid_def lk refl le False] "1.prems" mid le False unf mkv show ?thesis by auto
      qed
    qed
  qed
qed

definition floor_count :: "u64 \<Rightarrow> (u64 \<times> u64) list \<Rightarrow> nat" where
  "floor_count key es = length (takeWhile (\<lambda>e. fst e \<le> key) es)"

lemma length_index_entries [simp]: "length (index_entries ix) = num_entries ix"
  by (simp add: index_entries_def)

lemma nth_index_entries [simp]: "i < num_entries ix \<Longrightarrow> index_entries ix ! i = slot ix i"
  by (simp add: index_entries_def)

lemma floor_count_eqI:
  assumes "n \<le> num_entries ix" and "\<And>i. i < n \<Longrightarrow> fst (slot ix i) \<le> key"
    and "n < num_entries ix \<Longrightarrow> key < fst (slot ix n)"
  shows "floor_count key (index_entries ix) = n"
proof -
  have "takeWhile (\<lambda>e. fst e \<le> key) (index_entries ix) = take n (index_entries ix)"
    using assms by (intro takeWhile_eq_take_P_nth) auto
  then show ?thesis using assms(1) by (simp add: floor_count_def)
qed

text \<open>What a search without a result reports: a file without room for an entry is out of range.\<close>

definition not_found :: "index_file \<Rightarrow> index_error" where
  "not_found ix = (if mmap ix = [] then OutOfRange else KeyNotFound)"

lemma find_index_spec:
  fixes key :: u64
  assumes ok: "idx_ok ix"
  defines "c \<equiv> floor_count key (index_entries ix)"
  shows "find_index ix key = (if c = 0 then Inl (not_found ix) else Inr (fst (slot ix (c - 1)), c - 1)) \<and> c \<le> num_entries ix"
proof (cases "num_entries ix = 0")
  case True
  then have "c = 0" by (simp add: c_def floor_count_def index_entries_def)
  have "find_loop ix key 0 0 = Inr 0" by (simp add: find_loop.simps)
  moreover have "fst (slot ix 0) = 0" if "mmap ix \<noteq> []"
  proof -
    have "0 < length (mmap ix)" "ENTRY_SIZE dvd length (mmap ix)" using that ok by (auto simp: idx_ok_def dvd_eq_mod_eq_0)
    then have "ENTRY_SIZE \<le> length (mmap ix)" by (intro dvd_imp_le) auto
    then show ?thesis using ok True by (auto simp: idx_ok_def dest!: spec [of _ 0])
  qed
  moreover have "ENTRY_SIZE \<le> length (mmap ix)" if "mmap ix \<noteq> []"
    using that ok by (intro dvd_imp_le) (auto simp: idx_ok_def dvd_eq_mod_eq_0)
  ultimately show ?thesis
    using True \<open>c = 0\<close>
    by (cases "slot ix 0"; cases "mmap ix = []") (auto simp: find_index_def index_lookup_def not_found_def sizes Let_def)
next
  case False
  obtain p where p: "find_loop ix key 0 (num_entries ix) = Inr p" "p < num_entries ix"
    "p = 0 \<or> fst (slot ix p) \<le> key" "\<forall>i. p < i \<longrightarrow> i < num_entries ix \<longrightarrow> key < fst (slot ix i)"
    using find_loop_spec [OF ok, of 0 "num_entries ix" key] False by auto
  have lk: "index_lookup ix p = Inr (slot ix p)" by (rule index_lookup_ok [OF ok p(2)])
  have ne: "mmap ix \<noteq> []" using ok False by (auto simp: idx_ok_def sizes)
  have pos: "fst (slot ix p) \<noteq> 0" using index_keys_pos [OF ok p(2)] by auto
  show ?thesis
  proof (cases "fst (slot ix p) \<le> key")
    case True
    have "fst (slot ix i) \<le> key" if "i < Suc p" for i
      using that True index_keys_sorted [OF ok, of i p] p(2) by (cases "i = p") auto
    then have "c = Suc p" unfolding c_def using p by (intro floor_count_eqI) auto
    then show ?thesis using True p lk pos by (cases "slot ix p") (auto simp: find_index_def)
  next
    case above: False
    then have "p = 0" using p by auto
    then have "c = 0" unfolding c_def using above by (intro floor_count_eqI) auto
    then show ?thesis using above p lk pos ne \<open>p = 0\<close>
      by (cases "slot ix 0") (auto simp: find_index_def not_found_def)
  qed
qed

lemma from_le_bytes_zeros [simp]: "from_le_bytes (replicate n 0) = 0"
  by (induction n) auto

lemma entry_blit_other:
  assumes "s + length b \<le> length m" and "i * ENTRY_SIZE + ENTRY_SIZE \<le> length m"
    and "i * ENTRY_SIZE + ENTRY_SIZE \<le> s \<or> s + length b \<le> i * ENTRY_SIZE"
  shows "index_entry (blit s b m) (i * ENTRY_SIZE) = index_entry m (i * ENTRY_SIZE)"
  using assms take_drop_blit_other [of s b m "i * ENTRY_SIZE" KEY_SIZE]
    take_drop_blit_other [of s b m "i * ENTRY_SIZE + KEY_SIZE" 8]
  by (auto simp: index_entry_def sizes)

lemma entry_written:
  fixes key val :: u64
  assumes "n * ENTRY_SIZE + ENTRY_SIZE \<le> length m" and "i * ENTRY_SIZE + ENTRY_SIZE \<le> length m"
  defines "m' \<equiv> blit (n * ENTRY_SIZE + KEY_SIZE) (to_le_bytes 8 val) (blit (n * ENTRY_SIZE) (to_le_bytes 8 key) m)"
  shows "length m' = length m" and "index_entry m' (i * ENTRY_SIZE) = (if i = n then (key, val) else index_entry m (i * ENTRY_SIZE))"
proof -
  let ?m1 = "blit (n * ENTRY_SIZE) (to_le_bytes 8 key) m"
  have len1: "length ?m1 = length m" using assms by (simp add: sizes del: to_le_bytes.simps)
  then show "length m' = length m" using assms by (simp add: m'_def sizes del: to_le_bytes.simps)
  show "index_entry m' (i * ENTRY_SIZE) = (if i = n then (key, val) else index_entry m (i * ENTRY_SIZE))"
  proof (cases "i = n")
    case True
    have "take 8 (drop (n * ENTRY_SIZE) m') = take 8 (drop (n * ENTRY_SIZE) ?m1)"
      unfolding m'_def using assms len1 by (intro take_drop_blit_other) (auto simp: sizes simp del: to_le_bytes.simps)
    also have "\<dots> = to_le_bytes 8 key"
      using take_drop_blit_same [of "n * ENTRY_SIZE" "to_le_bytes 8 key" m] assms by (simp add: sizes del: to_le_bytes.simps)
    finally have k: "take 8 (drop (n * ENTRY_SIZE) m') = to_le_bytes 8 key" .
    have v: "take 8 (drop (n * ENTRY_SIZE + KEY_SIZE) m') = to_le_bytes 8 val"
      unfolding m'_def using take_drop_blit_same [of "n * ENTRY_SIZE + KEY_SIZE" "to_le_bytes 8 val" ?m1] assms len1
      by (simp add: sizes del: to_le_bytes.simps)
    show ?thesis using k v True by (simp add: index_entry_def KEY_SIZE_def from_le_bytes_to_le_bytes del: to_le_bytes.simps)
  next
    case False
    then have "i * ENTRY_SIZE + ENTRY_SIZE \<le> n * ENTRY_SIZE \<or> n * ENTRY_SIZE + ENTRY_SIZE \<le> i * ENTRY_SIZE"
      using slot_less_cap [of i n "n * ENTRY_SIZE"] slot_less_cap [of n i "i * ENTRY_SIZE"] by linarith
    then have "index_entry m' (i * ENTRY_SIZE) = index_entry ?m1 (i * ENTRY_SIZE)"
      "index_entry ?m1 (i * ENTRY_SIZE) = index_entry m (i * ENTRY_SIZE)"
      unfolding m'_def using assms(1,2) len1
      by (intro entry_blit_other; auto simp: sizes simp del: to_le_bytes.simps)+
    with False show ?thesis by simp
  qed
qed

subsection \<open>The operations on the list of entries\<close>

lemma idx_okI:
  assumes "length (mmap ix) mod ENTRY_SIZE = 0" and "num_entries ix * ENTRY_SIZE \<le> length (mmap ix)"
    and "sorted_wrt (<) (0 # map fst (index_entries ix))"
    and "\<And>i. num_entries ix \<le> i \<Longrightarrow> i * ENTRY_SIZE + ENTRY_SIZE \<le> length (mmap ix) \<Longrightarrow> fst (slot ix i) = 0"
  shows "idx_ok ix"
  using assms by (auto simp: idx_ok_def algebra_simps)

lemma last_key_entries: "last_key ix = last (0 # map fst (index_entries ix))"
  by (auto simp: last_key_def index_entries_def last_map)

lemma sorted_wrt_less_snoc:
  "sorted_wrt (<) (z # ks) \<Longrightarrow> last (z # ks) < k \<Longrightarrow> sorted_wrt (<) (z # ks @ [k])" for z :: "'a::order"
proof (induction ks arbitrary: z)
  case (Cons a ks)
  have "sorted_wrt (<) (a # ks)" "last (a # ks) < k" using Cons.prems by simp_all
  then have "sorted_wrt (<) (a # ks @ [k])" by (rule Cons.IH)
  moreover from this have "a < k" by simp
  ultimately show ?case using Cons.prems by (auto intro: order_less_trans)
qed simp

lemma index_append_spec:
  assumes ok: "idx_ok ix" and key: "last_key ix < key" and room: "num_entries ix * ENTRY_SIZE + ENTRY_SIZE \<le> length (mmap ix)"
  shows "\<exists>ix'. index_append ix key val = (Inr (), ix') \<and> idx_ok ix' \<and> index_entries ix' = index_entries ix @ [(key, val)] \<and>
    length (mmap ix') = length (mmap ix)"
proof -
  define ix' where "ix' = ix\<lparr>mmap := blit (num_entries ix * ENTRY_SIZE + KEY_SIZE) (to_le_bytes 8 val)
      (blit (num_entries ix * ENTRY_SIZE) (to_le_bytes 8 key) (mmap ix)), num_entries := num_entries ix + 1\<rparr>"
  have ap: "index_append ix key val = (Inr (), ix')"
    using key room by (simp add: index_append_def ix'_def Let_def)
  have slots: "slot ix' i = (if i = num_entries ix then (key, val) else slot ix i)" if "i * ENTRY_SIZE + ENTRY_SIZE \<le> length (mmap ix)" for i
    using entry_written(2) [OF room that, of val key] by (simp add: ix'_def)
  have len: "length (mmap ix') = length (mmap ix)"
    using entry_written(1) [OF room, of 0 val key] room by (simp add: ix'_def sizes)
  have inr: "i * ENTRY_SIZE + ENTRY_SIZE \<le> length (mmap ix)" if "i < num_entries ix" for i
    using that ok slot_less_cap by (auto simp: idx_ok_def)
  have es: "index_entries ix' = index_entries ix @ [(key, val)]"
    using slots inr room by (auto simp: index_entries_def ix'_def)
  have "sorted_wrt (<) (0 # map fst (index_entries ix'))"
    using ok key sorted_wrt_less_snoc [of 0 "map fst (index_entries ix)" key]
    by (simp add: es last_key_entries idx_ok_def del: last.simps sorted_wrt.simps)
  moreover have "fst (slot ix' i) = 0" if "num_entries ix' \<le> i" "i * ENTRY_SIZE + ENTRY_SIZE \<le> length (mmap ix')" for i
  proof -
    have "num_entries ix \<le> i" "i \<noteq> num_entries ix" "i * ENTRY_SIZE + ENTRY_SIZE \<le> length (mmap ix)"
      using that len by (simp_all add: ix'_def)
    then show ?thesis using slots [of i] idx_ok_zero [OF ok, of i] by simp
  qed
  ultimately have "idx_ok ix'"
    using ok room len by (intro idx_okI) (auto simp: idx_ok_def ix'_def)
  with ap es len show ?thesis by blast
qed

lemma floor_below:
  assumes "i < floor_count key (index_entries ix)"
  shows "i < num_entries ix \<and> fst (slot ix i) \<le> key"
proof -
  let ?tw = "takeWhile (\<lambda>e. fst e \<le> key) (index_entries ix)"
  have i: "i < length ?tw" using assms by (simp add: floor_count_def)
  then have "i < num_entries ix" using length_takeWhile_le [of "\<lambda>e. fst e \<le> key" "index_entries ix"] by simp
  moreover have "?tw ! i \<in> set ?tw" using i by (rule nth_mem)
  moreover have "?tw ! i = index_entries ix ! i" using i by (rule takeWhile_nth)
  ultimately show ?thesis using set_takeWhileD [of "?tw ! i" "\<lambda>e. fst e \<le> key" "index_entries ix"] by simp
qed

lemma floor_above:
  "floor_count key (index_entries ix) < num_entries ix \<Longrightarrow> key < fst (slot ix (floor_count key (index_entries ix)))"
  using nth_length_takeWhile [of "\<lambda>e. fst e \<le> key" "index_entries ix"] by (simp add: floor_count_def not_le)

text \<open>The entries below a key, in terms of the last entry not above it.\<close>

lemma floor_cut:
  fixes key :: u64
  assumes ok: "idx_ok ix"
  defines "c \<equiv> floor_count key (index_entries ix)"
  assumes "0 < c"
  shows "takeWhile (\<lambda>e. fst e < key) (index_entries ix) = take (if fst (slot ix (c - 1)) = key then c - 1 else c) (index_entries ix)"
    (is "_ = take ?n _")
proof (rule takeWhile_eq_take_P_nth)
  have c: "c - 1 < num_entries ix" "fst (slot ix (c - 1)) \<le> key"
    using floor_below [of "c - 1" key ix] \<open>0 < c\<close> by (auto simp: c_def)
  {
    fix i assume i: "i < ?n" "i < length (index_entries ix)"
    then have "i < c" by (auto split: if_splits)
    then have "i = c - 1 \<or> fst (slot ix i) < fst (slot ix (c - 1))"
      using index_keys_sorted [OF ok, of i "c - 1"] c by (cases "i = c - 1") auto
    then show "fst (index_entries ix ! i) < key" using i c by (auto split: if_splits)
  }
  assume "?n < length (index_entries ix)"
  then show "\<not> fst (index_entries ix ! ?n) < key"
    using floor_above [of key ix] c by (auto simp: c_def split: if_splits)
qed

lemma index_truncate_spec:
  assumes ok: "idx_ok ix"
  shows "index_truncate ix key =
      (if floor_count key (index_entries ix) = 0 then (Inl (not_found ix), ix) else (Inr (), snd (index_truncate ix key))) \<and>
    (0 < floor_count key (index_entries ix) \<longrightarrow> idx_ok (snd (index_truncate ix key)) \<and>
       index_entries (snd (index_truncate ix key)) = takeWhile (\<lambda>e. fst e < key) (index_entries ix))"
proof (cases "floor_count key (index_entries ix) = 0")
  case True
  with find_index_spec [OF ok, of key] show ?thesis by (simp add: index_truncate_def)
next
  case False
  define c where "c = floor_count key (index_entries ix)"
  define n where "n = (if fst (slot ix (c - 1)) = key then c - 1 else c)"
  define ix' where "ix' = snd (index_truncate ix key)"
  have c: "0 < c" "c \<le> num_entries ix" and find: "find_index ix key = Inr (fst (slot ix (c - 1)), c - 1)"
    using False find_index_spec [OF ok, of key] by (auto simp: c_def)
  have n: "n \<le> num_entries ix" using c by (auto simp: n_def)
  then have "n * ENTRY_SIZE \<le> num_entries ix * ENTRY_SIZE" by (rule mult_le_mono1)
  also have "\<dots> \<le> length (mmap ix)" using ok by (simp add: idx_ok_def)
  finally have nlen: "n * ENTRY_SIZE \<le> length (mmap ix)" .
  let ?z = "replicate (length (mmap ix) - n * ENTRY_SIZE) 0 :: byte list"
  have ix': "index_truncate ix key = (Inr (), ix')" "num_entries ix' = n"
    "mmap ix' = (if n * ENTRY_SIZE < length (mmap ix) then blit (n * ENTRY_SIZE) ?z (mmap ix) else mmap ix)"
    using find c by (auto simp: ix'_def index_truncate_def n_def Let_def)
  have len: "length (mmap ix') = length (mmap ix)" using nlen by (simp add: ix'(3))
  have low: "slot ix' i = slot ix i" if "i < n" for i
    using slot_less_cap [OF that nlen] slot_less_cap [OF that order_refl] nlen
    by (auto simp: ix'(3) intro!: entry_blit_other)
  have high: "fst (slot ix' i) = 0" if "n \<le> i" "i * ENTRY_SIZE + ENTRY_SIZE \<le> length (mmap ix)" for i
  proof -
    have le: "n * ENTRY_SIZE \<le> i * ENTRY_SIZE" using that by simp
    have "n * ENTRY_SIZE < length (mmap ix)" using le that(2) by (simp add: sizes)
    then have "mmap ix' = take (n * ENTRY_SIZE) (mmap ix) @ ?z" by (simp add: ix'(3) blit_def)
    then have "take KEY_SIZE (drop (i * ENTRY_SIZE) (mmap ix')) = replicate KEY_SIZE 0"
      using le that(2) nlen by (simp add: sizes)
    then show ?thesis by (simp add: index_entry_def)
  qed
  have es: "index_entries ix' = take n (index_entries ix)"
    using n low by (auto simp: index_entries_def ix'(2) take_map)
  have "takeWhile (\<lambda>e. fst e < key) (index_entries ix) = take n (index_entries ix)"
    unfolding n_def c_def using False by (intro floor_cut [OF ok]) simp
  then have tw: "index_entries ix' = takeWhile (\<lambda>e. fst e < key) (index_entries ix)" by (simp add: es)
  have "sorted_wrt (<) (0 # map fst (index_entries ix'))"
    using ok sorted_wrt_take [of "(<)" "0 # map fst (index_entries ix)" "Suc n"]
    by (simp add: es idx_ok_def take_map)
  then have "idx_ok ix'" using ok high len nlen by (intro idx_okI) (auto simp: idx_ok_def ix'(2))
  with tw ix'(1) False show ?thesis by simp
qed

lemma count_entries_spec:
  "idx_ok ix \<Longrightarrow> mmap jx = mmap ix \<Longrightarrow> i \<le> num_entries ix \<Longrightarrow> count_entries jx i = Inr (num_entries ix)"
proof (induction "num_entries ix - i" arbitrary: i)
  case 0
  then have i: "i = num_entries ix" by simp
  have "i * ENTRY_SIZE + ENTRY_SIZE \<le> length (mmap ix) \<Longrightarrow> fst (slot ix i) = 0"
    using 0 i by (auto intro: idx_ok_zero)
  then have "index_lookup jx i = Inl OutOfRange \<or> (\<exists>v. index_lookup jx i = Inr (0, v))"
    using 0 by (cases "slot ix i") (auto simp: index_lookup_def Let_def not_less)
  then show ?case using i by (subst count_entries.simps) auto
next
  case (Suc d)
  then have i: "i < num_entries ix" by simp
  have "index_lookup jx i = Inr (slot ix i)"
    using index_lookup_ok [OF Suc.prems(1) i] unfolding index_lookup_def Suc.prems(2) .
  with index_keys_pos [OF Suc.prems(1) i] Suc.hyps(1) [of "Suc i"] Suc.prems Suc.hyps(2) i show ?case
    by (subst count_entries.simps) (cases "slot ix i", auto)
qed

lemma key_lookup_spec:
  assumes ok: "idx_ok ix"
  shows "key_lookup ix key = (let es = takeWhile (\<lambda>e. fst e \<le> key) (index_entries ix)
     in if es = [] then Inl (not_found ix) else Inr (last es))"
proof (cases "takeWhile (\<lambda>e. fst e \<le> key) (index_entries ix) = []")
  case True
  then show ?thesis using find_index_spec [OF ok, of key] by (simp add: key_lookup_def floor_count_def)
next
  case False
  let ?es = "takeWhile (\<lambda>e. fst e \<le> key) (index_entries ix)" and ?c = "floor_count key (index_entries ix)"
  have c: "0 < ?c" using False by (simp add: floor_count_def)
  then have lt: "?c - 1 < num_entries ix" using floor_below [of "?c - 1" key ix] by simp
  have "last ?es = ?es ! (?c - 1)" using False by (simp add: last_conv_nth floor_count_def)
  also have "\<dots> = index_entries ix ! (?c - 1)" using c by (intro takeWhile_nth) (simp add: floor_count_def)
  finally have "last ?es = slot ix (?c - 1)" using lt by simp
  then show ?thesis using find_index_spec [OF ok, of key] c False index_lookup_ok [OF ok lt]
    by (auto simp: key_lookup_def)
qed

lemma floor_count_pos:
  assumes ok: "idx_ok ix"
  shows "0 < floor_count key (index_entries ix) \<longleftrightarrow> (\<exists>e\<in>set (index_entries ix). fst e \<le> key)"
proof
  assume "0 < floor_count key (index_entries ix)"
  then show "\<exists>e\<in>set (index_entries ix). fst e \<le> key"
    using floor_below [of 0 key ix] nth_mem [of 0 "index_entries ix"] by auto
next
  assume "\<exists>e\<in>set (index_entries ix). fst e \<le> key"
  then obtain i where i: "i < num_entries ix" "fst (slot ix i) \<le> key" by (auto simp: in_set_conv_nth)
  have "fst (slot ix 0) \<le> key"
    using index_keys_sorted [OF ok, of 0 i] i by (cases "i = 0") auto
  then show "0 < floor_count key (index_entries ix)"
    using floor_above [of key ix] i by (cases "floor_count key (index_entries ix) = 0") auto
qed

lemma open_index_spec: "idx_ok ix \<Longrightarrow> open_index (mmap ix) = Inr ix"
  using count_entries_spec [of ix "\<lparr>mmap = mmap ix, num_entries = 0\<rparr>" 0] by (simp add: open_index_def)

subsection \<open>Properties\<close>


definition sample_index :: index_file where
  "sample_index = snd (index_append (snd (index_append (create_index 3) 5 10)) 9 300)"

lemma create_index_ok: "idx_ok (create_index cap)"
proof (rule idx_okI)
  fix i
  assume "i * ENTRY_SIZE + ENTRY_SIZE \<le> length (mmap (create_index cap))"
  then show "fst (slot (create_index cap) i) = 0" by (simp add: create_index_def index_entry_def sizes)
qed (simp_all add: create_index_def index_entries_def)

lemma sample_index_ok: "idx_ok sample_index" "index_entries sample_index = [(5, 10), (9, 300)]"
proof -
  let ?a = "snd (index_append (create_index 3) 5 10)"
  have "last_key (create_index 3) < 5" "num_entries (create_index 3) * ENTRY_SIZE + ENTRY_SIZE \<le> length (mmap (create_index 3))"
    by (simp_all add: last_key_def create_index_def sizes)
  from index_append_spec [OF create_index_ok this, of 10]
  have a: "idx_ok ?a" "index_entries ?a = [(5, 10)]" "length (mmap ?a) = 48"
    by (auto simp: index_entries_def create_index_def sizes)
  then have "num_entries ?a = 1" by (metis length_index_entries length_Cons list.size(3) One_nat_def)
  with a have "last_key ?a < 9" "num_entries ?a * ENTRY_SIZE + ENTRY_SIZE \<le> length (mmap ?a)"
    by (simp_all add: last_key_entries sizes)
  from index_append_spec [OF a(1) this, of 300] a(2)
  show "idx_ok sample_index" "index_entries sample_index = [(5, 10), (9, 300)]"
    by (auto simp: sample_index_def)
qed


end
