(* ===== verification/Segment.thy ===== *)
theory Segment
  imports Offset_Index Std_Collections
begin

text \<open>
  \<^verbatim>\<open>crates/commitlog/src/segment.rs\<close> and the \<^verbatim>\<open>Options\<close> of \<^verbatim>\<open>lib.rs\<close>: segments of the log, their
  writer with its offset index, their readers, and the metadata found by traversing one.  The storage of
  a segment is its bytes; writes append, as the files are opened, and succeed.
\<close>

subsection \<open>Segment header\<close>

definition MAGIC :: "byte list" where
  "MAGIC = [0x28, 0x64, 0x73, 0x29, 0x5E, 0x32]"

definition CHECKSUM_ALGORITHM_CRC32C :: u8 where
  "CHECKSUM_ALGORITHM_CRC32C = 0"

record seg_header =
  log_format_version :: u8
  checksum_algorithm :: u8

definition SEG_HEADER_LEN :: nat where
  "SEG_HEADER_LEN = length MAGIC + 4"

definition seg_header_write :: "seg_header \<Rightarrow> byte list \<Rightarrow> byte list" where
  "seg_header_write h out = put_slice [log_format_version h, checksum_algorithm h, 0, 0] (put_slice MAGIC out)"

definition seg_header_decode :: "seg_header io" where
  "seg_header_decode =
     andThen (read_exact SEG_HEADER_LEN) (\<lambda>b.
       if take (length MAGIC) b \<noteq> MAGIC
       then fail_with (InvalidData (Message ''segment header does not start with magic''))
       else ret \<lparr>log_format_version = b ! length MAGIC, checksum_algorithm = b ! (length MAGIC + 1)\<rparr>)"

definition ensure_compatible :: "seg_header \<Rightarrow> u8 \<Rightarrow> u8 \<Rightarrow> string + unit" where
  "ensure_compatible h max_version algorithm =
     (if log_format_version h > max_version then Inl ''unsupported log format version''
      else if checksum_algorithm h \<noteq> algorithm then Inl ''unsupported checksum algorithm''
      else Inr ())"

definition seg_header_default :: seg_header where
  "seg_header_default = \<lparr>log_format_version = DEFAULT_LOG_FORMAT_VERSION, checksum_algorithm = CHECKSUM_ALGORITHM_CRC32C\<rparr>"

subsection \<open>Options\<close>

record options =
  opt_log_format_version :: u8
  max_segment_size :: u64
  max_records_in_commit :: u16
  offset_index_interval_bytes :: u64
  offset_index_require_segment_fsync :: bool

definition options_default :: options where
  "options_default = \<lparr>opt_log_format_version = DEFAULT_LOG_FORMAT_VERSION, max_segment_size = 1024 * 1024 * 1024,
     max_records_in_commit = 0xFFFF, offset_index_interval_bytes = 4096,
     offset_index_require_segment_fsync = False\<rparr>"

definition offset_index_len :: "options \<Rightarrow> u64" where
  "offset_index_len opts = max_segment_size opts div offset_index_interval_bytes opts"

subsection \<open>Offset index of the segment being written\<close>

record index_writer =
  iw_head :: index_file
  require_segment_fsync :: bool
  min_write_interval :: u64
  candidate_min_tx_offset :: u64
  candidate_byte_offset :: u64
  bytes_since_last_index :: u64

definition index_writer_new :: "index_file \<Rightarrow> options \<Rightarrow> index_writer" where
  "index_writer_new head opts =
     \<lparr>iw_head = head, require_segment_fsync = offset_index_require_segment_fsync opts,
      min_write_interval = offset_index_interval_bytes opts, candidate_min_tx_offset = 0,
      candidate_byte_offset = 0, bytes_since_last_index = 0\<rparr>"

definition index_writer_reset :: "index_writer \<Rightarrow> index_writer" where
  "index_writer_reset iw = iw\<lparr>candidate_byte_offset := 0, candidate_min_tx_offset := 0, bytes_since_last_index := 0\<rparr>"

definition append_internal :: "(index_writer, index_error, unit) act" where
  "append_internal iw =
     (if candidate_min_tx_offset iw = 0 then (Inr (), iw)
      else if bytes_since_last_index iw < min_write_interval iw then (Inr (), iw)
      else case index_append (iw_head iw) (candidate_min_tx_offset iw) (candidate_byte_offset iw) of
             (Inl e, head) \<Rightarrow> (Inl e, iw\<lparr>iw_head := head\<rparr>)
           | (Inr _, head) \<Rightarrow> (Inr (), index_writer_reset (iw\<lparr>iw_head := head\<rparr>)))"

definition append_after_commit :: "u64 \<Rightarrow> u64 \<Rightarrow> u64 \<Rightarrow> (index_writer, index_error, unit) act" where
  "append_after_commit min_off byte_offset commit_len iw =
     (let iw = iw\<lparr>bytes_since_last_index := bytes_since_last_index iw + commit_len\<rparr>;
          iw = (if candidate_min_tx_offset iw = 0
                then iw\<lparr>candidate_byte_offset := byte_offset, candidate_min_tx_offset := min_off\<rparr> else iw)
      in if \<not> require_segment_fsync iw then append_internal iw else (Inr (), iw))"

definition index_writer_fsync :: "index_writer \<Rightarrow> index_writer" where
  "index_writer_fsync iw = snd (append_internal iw)"

definition index_writer_ftruncate :: "u64 \<Rightarrow> index_writer \<Rightarrow> index_writer" where
  "index_writer_ftruncate off iw =
     (let iw = index_writer_reset iw in iw\<lparr>iw_head := snd (index_truncate (iw_head iw) off)\<rparr>)"

subsection \<open>Segment writer\<close>

record committed =
  cd_tx_range :: "u64 \<times> u64"
  cd_checksum :: u32

record seg_writer =
  w_commit :: commit
  w_storage :: "byte list"
  w_min_tx_offset :: u64
  w_bytes_written :: u64
  w_max_records_in_commit :: u16
  w_index :: "index_writer option"

text \<open>A record comes with the bytes its encoder puts; a full buffer gives it back.\<close>

definition writer_append :: "('r \<Rightarrow> byte list) \<Rightarrow> 'r \<Rightarrow> (seg_writer, 'r, unit) act" where
  "writer_append enc record w =
     (let c = w_commit w
      in if n_records c = 0xFFFF \<or> n_records c + 1 > w_max_records_in_commit w then (Inl record, w)
         else (Inr (), w\<lparr>w_commit := c\<lparr>n_records := n_records c + 1, records := put_slice (enc record) (records c)\<rparr>\<rparr>))"

definition writer_commit :: "(byte list \<Rightarrow> u32) \<Rightarrow> seg_writer \<Rightarrow> committed option \<times> seg_writer" where
  "writer_commit crc32c w =
     (if n_records (w_commit w) = 0 then (None, w)
      else
        let c = w_commit w;
            (chk, storage) = commit_write crc32c c (w_storage w);
            commit_len = of_nat (encoded_len c) :: u64;
            ix = map_option (\<lambda>iw. snd (append_after_commit (min_tx_offset c) (w_bytes_written w) commit_len iw)) (w_index w);
            next_off = min_tx_offset c + ucast (n_records c)
        in (Some \<lparr>cd_tx_range = (min_tx_offset c, next_off), cd_checksum = chk\<rparr>,
            w\<lparr>w_storage := storage, w_index := ix, w_bytes_written := w_bytes_written w + commit_len,
              w_commit := c\<lparr>min_tx_offset := next_off, n_records := 0, records := []\<rparr>\<rparr>))"

definition writer_epoch :: "seg_writer \<Rightarrow> u64" where
  "writer_epoch w = epoch (w_commit w)"

definition writer_set_epoch :: "u64 \<Rightarrow> seg_writer \<Rightarrow> seg_writer" where
  "writer_set_epoch e w = w\<lparr>w_commit := (w_commit w)\<lparr>epoch := e\<rparr>\<rparr>"

definition next_tx_offset :: "seg_writer \<Rightarrow> u64" where
  "next_tx_offset w = min_tx_offset (w_commit w)"

definition writer_is_empty :: "seg_writer \<Rightarrow> bool" where
  "writer_is_empty w \<longleftrightarrow> w_bytes_written w \<le> of_nat SEG_HEADER_LEN"

definition writer_len :: "seg_writer \<Rightarrow> u64" where
  "writer_len w = w_bytes_written w"

definition writer_fsync :: "seg_writer \<Rightarrow> seg_writer" where
  "writer_fsync w = w\<lparr>w_index := map_option index_writer_fsync (w_index w)\<rparr>"

text \<open>Resizing a file: cut, or padded with zeros.\<close>

definition set_len :: "nat \<Rightarrow> byte list \<Rightarrow> byte list" where
  "set_len n b = take n b @ replicate (n - length b) 0"

definition writer_ftruncate :: "u64 \<Rightarrow> u64 \<Rightarrow> seg_writer \<Rightarrow> seg_writer" where
  "writer_ftruncate off n w =
     w\<lparr>w_storage := set_len (unat n) (w_storage w), w_index := map_option (index_writer_ftruncate off) (w_index w)\<rparr>"

subsection \<open>Segment readers\<close>

record seg_reader =
  r_header :: seg_header
  r_min_tx_offset :: u64
  r_storage :: "byte list"
  r_pos :: nat

definition reader_new :: "u8 \<Rightarrow> u64 \<Rightarrow> byte list \<Rightarrow> io_error + seg_reader" where
  "reader_new max_version min_off storage =
     (case fst (seg_header_decode storage) of
        Inl e \<Rightarrow> Inl e
      | Inr h \<Rightarrow>
          (case ensure_compatible h max_version CHECKSUM_ALGORITHM_CRC32C of
             Inl msg \<Rightarrow> Inl (InvalidData (Message msg))
           | Inr _ \<Rightarrow> Inr \<lparr>r_header = h, r_min_tx_offset = min_off, r_storage = storage, r_pos = SEG_HEADER_LEN\<rparr>))"

definition validate_commit_header :: "byte list \<Rightarrow> nat \<Rightarrow> io_error + commit_header" where
  "validate_commit_header storage byte_offset =
     (case fst (header_decode_v1 (drop byte_offset storage)) of
        Inl e \<Rightarrow> Inl e
      | Inr None \<Rightarrow> Inl UnexpectedEof
      | Inr (Some (h, _)) \<Rightarrow> Inr h)"

definition seek_to_offset :: "index_file \<Rightarrow> u64 \<Rightarrow> seg_reader \<Rightarrow> (index_error + unit) \<times> seg_reader" where
  "seek_to_offset ix start_tx_offset r =
     (case key_lookup ix start_tx_offset of
        Inl e \<Rightarrow> (Inl e, r)
      | Inr (index_key, byte_offset) \<Rightarrow>
          if index_key = 0 then (Inl KeyNotFound, r)
          else case validate_commit_header (r_storage r) (unat byte_offset) of
                 Inl e \<Rightarrow> (Inl (IndexIo e), r)
               | Inr h \<Rightarrow>
                   if hdr_min_tx_offset h = index_key then (Inr (), r\<lparr>r_pos := unat byte_offset\<rparr>)
                   else (Inl (IndexIo (InvalidData (Message ''mismatch key in index offset file''))), r))"

text \<open>Each commit takes bytes off the input, so the iterator over the commits of a segment ends.\<close>

lemma read_exact_shrinks: "read_exact n r = (Inr b, r') \<Longrightarrow> length r' + n = length r"
  by (auto simp: read_exact_def split: if_splits)

lemma header_decode_shrinks: "header_decode n p r = (Inr (Some h), r') \<Longrightarrow> length r' + n = length r"
  by (auto simp: header_decode_def dest: read_exact_shrinks split: prod.splits sum.splits if_splits)

lemma decode_internal_shrinks:
  assumes "stored_commit_decode_internal crc v bs = (Inr (Some sc), r)"
  shows "length r < length bs"
proof -
  obtain h hb r1 recs r2 where h: "header_decode_internal (if v = 0 then V0 else V1) bs = (Inr (Some (h, hb)), r1)"
    "read_exact (unat (hdr_len h)) r1 = (Inr recs, r2)" and u: "\<exists>c. decode_u32 r2 = (Inr c, r)"
    using assms unfolding stored_commit_decode_internal_def
    by (auto simp: andThen_eq_Inr_iff Let_def ret_def fail_with_def split: option.splits if_splits)
  have "length r1 < length bs"
    using h(1) by (auto simp: header_decode_internal_def header_decode_v0_def header_decode_v1_def COMMIT_HEADER_LEN_def
        dest: header_decode_shrinks split: if_splits)
  moreover have "length r2 \<le> length r1" using read_exact_shrinks [OF h(2)] by simp
  moreover have "length r \<le> length r2"
    using u by (auto simp: decode_u32_def andThen_eq_Inr_iff ret_def dest: read_exact_shrinks)
  ultimately show ?thesis by simp
qed

text \<open>The commits read up to the end of the segment or up to an error.\<close>

function read_commits :: "(byte list \<Rightarrow> u32) \<Rightarrow> u8 \<Rightarrow> byte list \<Rightarrow> stored_commit list \<times> io_error option" where
  "read_commits crc32c version bs =
     (case stored_commit_decode_internal crc32c version bs of
        (Inl e, _) \<Rightarrow> ([], Some e)
      | (Inr None, _) \<Rightarrow> ([], None)
      | (Inr (Some c), r) \<Rightarrow> (case read_commits crc32c version r of (cs, e) \<Rightarrow> (c # cs, e)))"
  by pat_completeness auto

termination read_commits
  by (relation "measure (\<lambda>(_, _, bs). length bs)") (auto dest!: decode_internal_shrinks [OF sym])

declare read_commits.simps [simp del]

definition reader_commits :: "(byte list \<Rightarrow> u32) \<Rightarrow> seg_reader \<Rightarrow> stored_commit list \<times> io_error option" where
  "reader_commits crc32c r = read_commits crc32c (log_format_version (r_header r)) (drop (r_pos r) (r_storage r))"

subsection \<open>Metadata\<close>

record seg_metadata =
  md_header :: seg_header
  md_tx_range :: "u64 \<times> u64"
  md_size_in_bytes :: u64
  md_max_epoch :: u64
  md_max_commit_offset :: u64

datatype segment_metadata_error =
    InvalidCommit seg_metadata io_error
  | MetadataIo io_error

definition validate_commit_at_offset ::
  "(byte list \<Rightarrow> u32) \<Rightarrow> byte list \<Rightarrow> u64 \<Rightarrow> u64 \<Rightarrow> io_error + commit_metadata" where
  "validate_commit_at_offset crc32c storage off byte_offset =
     (case fst (commit_metadata_extract crc32c (drop (unat byte_offset) storage)) of
        Inl e \<Rightarrow> Inl e
      | Inr None \<Rightarrow> Inl (InvalidData (Message ''failed to decode commit''))
      | Inr (Some m) \<Rightarrow>
          if fst (cm_tx_range m) \<noteq> off then Inl (InvalidData (Message ''mismatch key in index offset file''))
          else Inr m)"

text \<open>The loop over the index, from the last key down: a candidate that does not validate is followed by
  the key below it.  The keys found descend whatever the index holds, so the loop ends (\<open>None\<close> is the
  error of the code).\<close>

function find_valid_indexed_commit ::
  "(byte list \<Rightarrow> u32) \<Rightarrow> u64 \<Rightarrow> seg_header \<Rightarrow> byte list \<Rightarrow> index_file \<Rightarrow> u64 \<Rightarrow> seg_metadata option" where
  "find_valid_indexed_commit crc32c min_off h storage ix candidate =
     (case key_lookup ix candidate of
        Inl _ \<Rightarrow> None
      | Inr (key, byte_offset) \<Rightarrow>
          (case validate_commit_at_offset crc32c storage key byte_offset of
             Inr m \<Rightarrow> Some \<lparr>md_header = h, md_tx_range = (min_off, snd (cm_tx_range m)),
                            md_size_in_bytes = byte_offset + cm_size_in_bytes m, md_max_epoch = cm_epoch m,
                            md_max_commit_offset = fst (cm_tx_range m)\<rparr>
           | Inl _ \<Rightarrow>
               let candidate' = (if key = 0 then 0 else key - 1)
               in if candidate' = 0 then None
                  else find_valid_indexed_commit crc32c min_off h storage ix candidate'))"
  by pat_completeness auto

lemma candidate_descends: "key_lookup ix c = Inr (key, v) \<Longrightarrow> key - 1 < c" for c :: u64
proof -
  assume "key_lookup ix c = Inr (key, v)"
  then have "0 < key" "key \<le> c" using key_lookup_not_above by blast+
  from \<open>0 < key\<close> have "unat (key - 1) = unat key - 1" "0 < unat key"
    by (simp_all add: unat_minus_one word_gt_0 unat_gt_0)
  then have "key - 1 < key" by (simp add: word_less_nat_alt)
  with \<open>key \<le> c\<close> show ?thesis by simp
qed

termination find_valid_indexed_commit
  by (relation "measure (\<lambda>(_, _, _, _, _, c). unat c)")
    (auto simp: Let_def word_less_nat_alt [symmetric] split: if_splits dest: candidate_descends [OF sym] candidate_descends)

declare find_valid_indexed_commit.simps [simp del]

definition metadata_step :: "seg_metadata \<Rightarrow> commit_metadata \<Rightarrow> seg_metadata" where
  "metadata_step sofar m =
     sofar\<lparr>md_tx_range := (fst (md_tx_range sofar), snd (cm_tx_range m)),
       md_size_in_bytes := md_size_in_bytes sofar + cm_size_in_bytes m,
       md_max_epoch := max (cm_epoch m) (md_max_epoch sofar),
       md_max_commit_offset := fst (cm_tx_range m)\<rparr>"

definition commit_meta ::
  "(byte list \<Rightarrow> u32) \<Rightarrow> seg_metadata \<Rightarrow> (byte list, segment_metadata_error, commit_metadata option) act" where
  "commit_meta crc32c sofar =
     map_err (\<lambda>e. case e of
         InvalidData _ \<Rightarrow> InvalidCommit sofar e
       | UnexpectedEof \<Rightarrow> InvalidCommit sofar e
       | _ \<Rightarrow> MetadataIo e) (commit_metadata_extract crc32c)"

lemma commit_meta_shrinks: "commit_meta crc sofar bs = (Inr (Some m), r) \<Longrightarrow> length r < length bs"
  by (auto simp: commit_meta_def map_err_def commit_metadata_extract_def commit_decode_def stored_commit_decode_def
      map_ok_def andThen_eq_Inr_iff ret_def dest: decode_internal_shrinks split: prod.splits sum.splits)

function metadata_loop :: "(byte list \<Rightarrow> u32) \<Rightarrow> seg_metadata \<Rightarrow> byte list \<Rightarrow> segment_metadata_error + seg_metadata" where
  "metadata_loop crc32c sofar bs =
     (case commit_meta crc32c sofar bs of
        (Inl e, _) \<Rightarrow> Inl e
      | (Inr None, _) \<Rightarrow> Inr sofar
      | (Inr (Some m), r) \<Rightarrow>
          if fst (cm_tx_range m) \<noteq> snd (md_tx_range sofar)
          then Inl (MetadataIo (InvalidData (Message ''out-of-order offset'')))
          else metadata_loop crc32c (metadata_step sofar m) r)"
  by pat_completeness auto

termination metadata_loop
  by (relation "measure (\<lambda>(_, _, bs). length bs)") (auto dest!: commit_meta_shrinks [OF sym])

declare metadata_loop.simps [simp del]

definition metadata_with_header ::
  "(byte list \<Rightarrow> u32) \<Rightarrow> u64 \<Rightarrow> seg_header \<Rightarrow> byte list \<Rightarrow> index_file option \<Rightarrow> segment_metadata_error + seg_metadata" where
  "metadata_with_header crc32c min_off h storage ix =
     (let start = \<lparr>md_header = h, md_tx_range = (min_off, min_off), md_size_in_bytes = of_nat SEG_HEADER_LEN,
                   md_max_epoch = 0, md_max_commit_offset = min_off\<rparr>;
          indexed = Option.bind ix (\<lambda>ix. find_valid_indexed_commit crc32c min_off h storage ix (- 1));
          sofar = (case indexed of Some md \<Rightarrow> md | None \<Rightarrow> start)
      in metadata_loop crc32c sofar (drop (unat (md_size_in_bytes sofar)) storage))"

definition metadata_extract ::
  "(byte list \<Rightarrow> u32) \<Rightarrow> u64 \<Rightarrow> byte list \<Rightarrow> index_file option \<Rightarrow> segment_metadata_error + seg_metadata" where
  "metadata_extract crc32c min_off storage ix =
     (case fst (seg_header_decode storage) of
        Inl e \<Rightarrow> Inl (MetadataIo e)
      | Inr h \<Rightarrow> metadata_with_header crc32c min_off h storage ix)"

subsection \<open>Segments as lists of commits\<close>

definition as_stored :: "(byte list \<Rightarrow> u32) \<Rightarrow> commit \<Rightarrow> stored_commit" where
  "as_stored crc32c c = \<lparr>min_tx_offset = min_tx_offset c, epoch = epoch c, n_records = n_records c, records = records c,
     checksum = crc32c (commit_body c)\<rparr>"

definition commits_bytes :: "(byte list \<Rightarrow> u32) \<Rightarrow> commit list \<Rightarrow> byte list" where
  "commits_bytes crc32c cs = concat (map (commit_bytes crc32c) cs)"

definition commit_fits :: "commit \<Rightarrow> bool" where
  "commit_fits c \<longleftrightarrow> length (records c) < 2 ^ 32"

lemma commits_bytes_simps [simp]:
  "commits_bytes crc [] = []" "commits_bytes crc (c # cs) = commit_bytes crc c @ commits_bytes crc cs"
  "commits_bytes crc (cs @ ds) = commits_bytes crc cs @ commits_bytes crc ds"
  by (simp_all add: commits_bytes_def)

lemma decode_stored:
  "v \<noteq> 0 \<Longrightarrow> commit_fits c \<Longrightarrow> stored_commit_decode_internal crc v (commit_bytes crc c @ rest) = (Inr (Some (as_stored crc c)), rest)"
  by (simp add: decode_internal_bytes commit_fits_def as_stored_def)

lemma read_commits_append:
  "v \<noteq> 0 \<Longrightarrow> list_all commit_fits cs \<Longrightarrow>
     read_commits crc v (commits_bytes crc cs @ tail) =
       (map (as_stored crc) cs @ fst (read_commits crc v tail), snd (read_commits crc v tail))"
proof (induction cs)
  case (Cons c cs)
  then show ?case
    by (subst read_commits.simps) (simp add: decode_stored case_prod_unfold)
qed simp

lemma read_commits_Nil [simp]: "v \<noteq> 0 \<Longrightarrow> read_commits crc v [] = ([], None)"
  by (subst read_commits.simps) (simp add: decode_internal_short COMMIT_HEADER_LEN_def)

lemma read_commits_torn:
  "v \<noteq> 0 \<Longrightarrow> commit_fits c \<Longrightarrow> k < length (commit_bytes crc c) \<Longrightarrow>
     read_commits crc v (take k (commit_bytes crc c)) = ([], if k < COMMIT_HEADER_LEN then None else Some UnexpectedEof)"
  by (subst read_commits.simps) (simp add: decode_internal_prefix commit_fits_def)

text \<open>Reading a segment that was cut off anywhere.\<close>

lemma read_commits_prefix:
  "v \<noteq> 0 \<Longrightarrow> list_all commit_fits cs \<Longrightarrow> k \<le> length (commits_bytes crc cs) \<Longrightarrow>
     \<exists>j e. j \<le> length cs \<and> read_commits crc v (take k (commits_bytes crc cs)) = (map (as_stored crc) (take j cs), e) \<and>
       e \<in> {None, Some UnexpectedEof} \<and> length (commits_bytes crc (take j cs)) \<le> k \<and>
       (j < length cs \<longrightarrow> k < length (commits_bytes crc (take (Suc j) cs)))"
proof (induction cs arbitrary: k)
  case Nil
  then show ?case by simp
next
  case (Cons c cs)
  let ?b = "commit_bytes crc c"
  show ?case
  proof (cases "k < length ?b")
    case True
    then show ?thesis using Cons.prems read_commits_torn [of v c k crc] by (intro exI [of _ 0]) auto
  next
    case False
    then have take: "take k (commits_bytes crc (c # cs)) = ?b @ take (k - length ?b) (commits_bytes crc cs)" by simp
    have fits: "list_all commit_fits cs" and kle: "k - length ?b \<le> length (commits_bytes crc cs)"
      using Cons.prems by auto
    obtain j e where j: "j \<le> length cs"
      "read_commits crc v (take (k - length ?b) (commits_bytes crc cs)) = (map (as_stored crc) (take j cs), e)"
      "e \<in> {None, Some UnexpectedEof}" "length (commits_bytes crc (take j cs)) \<le> k - length ?b"
      "j < length cs \<longrightarrow> k - length ?b < length (commits_bytes crc (take (Suc j) cs))"
      using Cons.IH [OF Cons.prems(1) fits kle] by blast
    have "read_commits crc v (take k (commits_bytes crc (c # cs))) = (map (as_stored crc) (take (Suc j) (c # cs)), e)"
      unfolding take using read_commits_append [of v "[c]" crc] Cons.prems j(2) by simp
    with j False show ?thesis by (intro exI [of _ "Suc j"]) auto
  qed
qed

subsection \<open>The segment header\<close>

lemma length_seg_header [simp]: "length (seg_header_write h []) = SEG_HEADER_LEN"
  by (simp add: seg_header_write_def put_slice_def SEG_HEADER_LEN_def MAGIC_def)

lemma seg_header_roundtrip: "seg_header_decode (seg_header_write h [] @ rest) = (Inr h, rest)"
proof -
  have "read_exact SEG_HEADER_LEN (seg_header_write h [] @ rest) = (Inr (seg_header_write h []), rest)"
    by (rule read_exact_append) simp
  then show ?thesis
    by (simp add: seg_header_decode_def andThen_def seg_header_write_def put_slice_def ret_def nth_append)
qed

subsection \<open>Metadata of a written segment\<close>

text \<open>The offsets of the commits run from one offset to the other without a gap.\<close>

fun offsets_chain :: "u64 \<Rightarrow> commit list \<Rightarrow> u64 \<Rightarrow> bool" where
  "offsets_chain a [] b \<longleftrightarrow> a = b"
| "offsets_chain a (c # cs) b \<longleftrightarrow> min_tx_offset c = a \<and> offsets_chain (a + ucast (n_records c)) cs b"

lemma offsets_chain_append:
  "offsets_chain a (cs @ ds) b \<longleftrightarrow> (\<exists>m. offsets_chain a cs m \<and> offsets_chain m ds b)"
  by (induction cs arbitrary: a) auto

lemma commit_meta_bytes:
  "commit_fits c \<Longrightarrow> commit_meta crc sofar (commit_bytes crc c @ rest) = (Inr (Some (metadata_from_commit c)), rest)"
proof -
  assume "commit_fits c"
  then have "stored_commit_decode crc (commit_bytes crc c @ rest) = (Inr (Some (as_stored crc c)), rest)"
    unfolding stored_commit_decode_def by (intro decode_stored) (simp add: DEFAULT_LOG_FORMAT_VERSION_def)
  moreover have "commit_from_stored (as_stored crc c) = c" by (simp add: commit_from_stored_def as_stored_def)
  ultimately show ?thesis
    by (simp add: commit_meta_def map_err_def commit_metadata_extract_def commit_decode_def map_ok_def andThen_def ret_def)
qed

lemma metadata_loop_append:
  "list_all commit_fits cs \<Longrightarrow> offsets_chain (snd (md_tx_range sofar)) cs b \<Longrightarrow>
     metadata_loop crc sofar (commits_bytes crc cs @ tail) =
     metadata_loop crc (foldl metadata_step sofar (map metadata_from_commit cs)) tail"
proof (induction cs arbitrary: sofar)
  case (Cons c cs)
  have "snd (md_tx_range (metadata_step sofar (metadata_from_commit c))) = min_tx_offset c + ucast (n_records c)"
    by (simp add: metadata_step_def metadata_from_commit_def tx_range_def)
  then have "metadata_loop crc (metadata_step sofar (metadata_from_commit c)) (commits_bytes crc cs @ tail) =
      metadata_loop crc (foldl metadata_step sofar (map metadata_from_commit (c # cs))) tail"
    using Cons.prems Cons.IH [of "metadata_step sofar (metadata_from_commit c)"] by simp
  with Cons.prems show ?case
    by (subst metadata_loop.simps) (simp add: commit_meta_bytes metadata_from_commit_def tx_range_def)
qed simp

lemma metadata_loop_Nil [simp]: "metadata_loop crc sofar [] = Inr sofar"
  by (subst metadata_loop.simps)
    (simp add: commit_meta_def map_err_def commit_metadata_extract_def commit_decode_def stored_commit_decode_def map_ok_def
      andThen_def decode_internal_short COMMIT_HEADER_LEN_def DEFAULT_LOG_FORMAT_VERSION_def ret_def)

lemma foldl_metadata:
  "offsets_chain (snd (md_tx_range sofar)) cs b \<Longrightarrow>
   foldl metadata_step sofar (map metadata_from_commit cs) =
     sofar\<lparr>md_tx_range := (fst (md_tx_range sofar), b),
       md_size_in_bytes := md_size_in_bytes sofar + of_nat (length (commits_bytes crc cs)),
       md_max_epoch := foldl max (md_max_epoch sofar) (map epoch cs),
       md_max_commit_offset := (if cs = [] then md_max_commit_offset sofar else min_tx_offset (last cs))\<rparr>"
proof (induction cs arbitrary: sofar)
  case (Cons c cs)
  have "offsets_chain (snd (md_tx_range (metadata_step sofar (metadata_from_commit c)))) cs b"
    using Cons.prems by (simp add: metadata_step_def metadata_from_commit_def tx_range_def)
  from Cons.IH [OF this] show ?case
    by (simp add: metadata_step_def metadata_from_commit_def tx_range_def length_commit_bytes max.commute add.assoc)
qed (simp add: prod_eq_iff)

subsection \<open>The writer keeps a list of commits\<close>

definition writer_holds :: "(byte list \<Rightarrow> u32) \<Rightarrow> seg_header \<Rightarrow> commit list \<Rightarrow> seg_writer \<Rightarrow> bool" where
  "writer_holds crc32c h cs w \<longleftrightarrow>
     log_format_version h \<noteq> 0 \<and> list_all commit_fits cs \<and>
     w_storage w = seg_header_write h [] @ commits_bytes crc32c cs \<and>
     w_bytes_written w = of_nat (length (w_storage w)) \<and>
     offsets_chain (w_min_tx_offset w) cs (next_tx_offset w)"

lemma writer_append_holds: "writer_holds crc h cs w \<Longrightarrow> writer_holds crc h cs (snd (writer_append enc r w))"
  by (simp add: writer_holds_def writer_append_def next_tx_offset_def Let_def)

lemma writer_set_epoch_holds: "writer_holds crc h cs w \<Longrightarrow> writer_holds crc h cs (writer_set_epoch e w)"
  by (simp add: writer_holds_def writer_set_epoch_def next_tx_offset_def)

lemma writer_commit_holds:
  assumes "writer_holds crc h cs w" and "commit_fits (w_commit w)" and "n_records (w_commit w) \<noteq> 0"
  shows "writer_holds crc h (cs @ [w_commit w]) (snd (writer_commit crc w))"
  using assms
  by (auto simp: writer_holds_def writer_commit_def commit_write_out next_tx_offset_def offsets_chain_append
      length_commit_bytes Let_def)

lemma writer_commit_result:
  "fst (writer_commit crc w) = (if n_records (w_commit w) = 0 then None
     else Some \<lparr>cd_tx_range = tx_range (w_commit w), cd_checksum = crc (commit_body (w_commit w))\<rparr>)"
  by (simp add: writer_commit_def commit_write_out tx_range_def Let_def)

lemma metadata_extract_written:
  assumes "writer_holds crc32c h cs w"
  shows "metadata_extract crc32c (w_min_tx_offset w) (w_storage w) None =
    Inr \<lparr>md_header = h, md_tx_range = (w_min_tx_offset w, next_tx_offset w), md_size_in_bytes = writer_len w,
         md_max_epoch = foldl max 0 (map epoch cs),
         md_max_commit_offset = (if cs = [] then w_min_tx_offset w else min_tx_offset (last cs))\<rparr>"
proof -
  let ?start = "\<lparr>md_header = h, md_tx_range = (w_min_tx_offset w, w_min_tx_offset w), md_size_in_bytes = of_nat SEG_HEADER_LEN,
      md_max_epoch = 0, md_max_commit_offset = w_min_tx_offset w\<rparr>"
  have w: "w_storage w = seg_header_write h [] @ commits_bytes crc32c cs" "list_all commit_fits cs"
    "offsets_chain (w_min_tx_offset w) cs (next_tx_offset w)" "w_bytes_written w = of_nat (length (w_storage w))"
    using assms(1) by (auto simp: writer_holds_def)
  have ten: "unat (of_nat SEG_HEADER_LEN :: u64) = SEG_HEADER_LEN" by (simp add: SEG_HEADER_LEN_def MAGIC_def)
  have "metadata_loop crc32c ?start (commits_bytes crc32c cs @ []) = Inr (foldl metadata_step ?start (map metadata_from_commit cs))"
    using w metadata_loop_append [of cs ?start "next_tx_offset w" crc32c "[]"] by simp
  also have "foldl metadata_step ?start (map metadata_from_commit cs) =
      \<lparr>md_header = h, md_tx_range = (w_min_tx_offset w, next_tx_offset w), md_size_in_bytes = writer_len w,
       md_max_epoch = foldl max 0 (map epoch cs),
       md_max_commit_offset = (if cs = [] then w_min_tx_offset w else min_tx_offset (last cs))\<rparr>"
    using foldl_metadata [of ?start cs "next_tx_offset w" crc32c] w by (simp add: writer_len_def)
  finally show ?thesis
    by (simp add: metadata_extract_def metadata_with_header_def w(1) seg_header_roundtrip ten)
qed

subsection \<open>Properties\<close>

text \<open>Claim C27.  Crash safety of a segment: if only the first \<open>k\<close> bytes of the file survive, the reader still opens
  it and returns, unchanged and in order, every commit that lies within those bytes, and then reports the
  end of the segment or an unexpected end of file; nothing about the checksum function is needed.\<close>

theorem segment_prefix_reads_prefix:
  assumes "writer_holds crc32c h cs w" and "ensure_compatible h maxv CHECKSUM_ALGORITHM_CRC32C = Inr ()"
    and "SEG_HEADER_LEN \<le> k" and "k \<le> length (w_storage w)"
  shows "\<exists>r j e. reader_new maxv off (take k (w_storage w)) = Inr r \<and>
    reader_commits crc32c r = (map (as_stored crc32c) (take j cs), e) \<and> e \<in> {None, Some UnexpectedEof} \<and>
    j \<le> length cs \<and> SEG_HEADER_LEN + length (commits_bytes crc32c (take j cs)) \<le> k \<and>
    (j < length cs \<longrightarrow> k < SEG_HEADER_LEN + length (commits_bytes crc32c (take (Suc j) cs)))"
proof -
  have st: "take k (w_storage w) = seg_header_write h [] @ take (k - SEG_HEADER_LEN) (commits_bytes crc32c cs)"
    and fits: "list_all commit_fits cs" and v: "log_format_version h \<noteq> 0"
    using assms by (auto simp: writer_holds_def)
  define r where "r = \<lparr>r_header = h, r_min_tx_offset = off, r_storage = take k (w_storage w), r_pos = SEG_HEADER_LEN\<rparr>"
  have new: "reader_new maxv off (take k (w_storage w)) = Inr r"
    unfolding r_def st using assms(2) by (simp add: reader_new_def seg_header_roundtrip)
  have len: "k - SEG_HEADER_LEN \<le> length (commits_bytes crc32c cs)"
    using assms(1,4) by (simp add: writer_holds_def)
  have "reader_commits crc32c r = read_commits crc32c (log_format_version h) (take (k - SEG_HEADER_LEN) (commits_bytes crc32c cs))"
    by (simp add: reader_commits_def r_def st)
  with read_commits_prefix [OF v fits len] obtain j e where j: "j \<le> length cs"
    "reader_commits crc32c r = (map (as_stored crc32c) (take j cs), e)" "e \<in> {None, Some UnexpectedEof}"
    "length (commits_bytes crc32c (take j cs)) \<le> k - SEG_HEADER_LEN"
    "j < length cs \<longrightarrow> k - SEG_HEADER_LEN < length (commits_bytes crc32c (take (Suc j) cs))"
    by auto
  with new assms(3) show ?thesis by (intro exI [of _ r] exI [of _ j] exI [of _ e]) auto
qed

definition sample_writer :: "(byte list \<Rightarrow> u32) \<Rightarrow> seg_writer" where
  "sample_writer crc32c = snd (writer_commit crc32c (snd (writer_append id [7, 8]
     \<lparr>w_commit = \<lparr>min_tx_offset = 0, epoch = 0, n_records = 0, records = []\<rparr>,
      w_storage = seg_header_write seg_header_default [], w_min_tx_offset = 0,
      w_bytes_written = of_nat SEG_HEADER_LEN, w_max_records_in_commit = 0xFFFF, w_index = None\<rparr>)))"

lemma sample_writer_holds:
  "writer_holds crc seg_header_default [\<lparr>min_tx_offset = 0, epoch = 0, n_records = 1, records = [7, 8]\<rparr>] (sample_writer crc)"
proof -
  let ?w = "\<lparr>w_commit = \<lparr>min_tx_offset = 0, epoch = 0, n_records = 0, records = []\<rparr>,
      w_storage = seg_header_write seg_header_default [], w_min_tx_offset = 0,
      w_bytes_written = of_nat SEG_HEADER_LEN, w_max_records_in_commit = 0xFFFF, w_index = None\<rparr>"
  have "writer_holds crc seg_header_default [] ?w"
    by (simp add: writer_holds_def seg_header_default_def DEFAULT_LOG_FORMAT_VERSION_def next_tx_offset_def)
  then have "writer_holds crc seg_header_default [] (snd (writer_append id [7, 8] ?w))" by (rule writer_append_holds)
  moreover have "w_commit (snd (writer_append id [7, 8] ?w)) = \<lparr>min_tx_offset = 0, epoch = 0, n_records = 1, records = [7, 8]\<rparr>"
    by (simp add: writer_append_def put_slice_def)
  ultimately show ?thesis
    using writer_commit_holds [of crc seg_header_default "[]" "snd (writer_append id [7, 8] ?w)"]
    by (simp add: sample_writer_def commit_fits_def)
qed

theorem segment_prefix_reads_prefix_witness:
  "\<exists>r e. reader_new 1 0 (take 30 (w_storage (sample_writer (\<lambda>_. 5)))) = Inr r \<and> reader_commits (\<lambda>_. 5) r = ([], e)"
proof -
  have len: "length (w_storage (sample_writer (\<lambda>_. 5))) = 38"
    using sample_writer_holds [of "\<lambda>_. 5"]
    by (simp add: writer_holds_def length_commit_bytes encoded_len_def FRAMING_LEN_def COMMIT_HEADER_LEN_def
        CHECKSUM_CRC32C_LEN_def SEG_HEADER_LEN_def MAGIC_def)
  have comp: "ensure_compatible seg_header_default 1 CHECKSUM_ALGORITHM_CRC32C = Inr ()"
    by (simp add: ensure_compatible_def seg_header_default_def DEFAULT_LOG_FORMAT_VERSION_def CHECKSUM_ALGORITHM_CRC32C_def)
  have "SEG_HEADER_LEN \<le> 30" "30 \<le> length (w_storage (sample_writer (\<lambda>_. 5)))"
    by (simp_all add: len) (simp add: SEG_HEADER_LEN_def MAGIC_def)
  from segment_prefix_reads_prefix [OF sample_writer_holds comp this, of 0]
  obtain r j e where "reader_new 1 0 (take 30 (w_storage (sample_writer (\<lambda>_. 5)))) = Inr r"
    "reader_commits (\<lambda>_. 5) r = (map (as_stored (\<lambda>_. 5)) (take j [\<lparr>min_tx_offset = 0, epoch = 0, n_records = 1, records = [7, 8]\<rparr>]), e)"
    "SEG_HEADER_LEN + length (commits_bytes (\<lambda>_. 5) (take j [\<lparr>min_tx_offset = 0, epoch = 0, n_records = 1, records = [7, 8]\<rparr>])) \<le> 30"
    by blast
  moreover from this(3) have "j = 0"
    by (cases j) (simp_all add: length_commit_bytes encoded_len_def FRAMING_LEN_def COMMIT_HEADER_LEN_def
        CHECKSUM_CRC32C_LEN_def SEG_HEADER_LEN_def MAGIC_def)
  ultimately show ?thesis by auto
qed

text \<open>Claim C31.  Traversing a segment recovers what its writer knows: the range of transaction offsets ends
  at the writer's next offset, the size is the number of bytes written, and the epoch is the largest
  one of the commits.\<close>

theorem metadata_of_written_segment:
  assumes "writer_holds crc32c h cs w"
  shows "metadata_extract crc32c (w_min_tx_offset w) (w_storage w) None =
    Inr \<lparr>md_header = h, md_tx_range = (w_min_tx_offset w, next_tx_offset w), md_size_in_bytes = writer_len w,
         md_max_epoch = foldl max 0 (map epoch cs),
         md_max_commit_offset = (if cs = [] then w_min_tx_offset w else min_tx_offset (last cs))\<rparr>"
  using assms by (rule metadata_extract_written)

theorem metadata_of_written_segment_witness:
  "metadata_extract (\<lambda>_. 5) 0 (w_storage (sample_writer (\<lambda>_. 5))) None =
    Inr \<lparr>md_header = seg_header_default, md_tx_range = (0, 1), md_size_in_bytes = 38, md_max_epoch = 0, md_max_commit_offset = 0\<rparr>"
proof -
  have "w_min_tx_offset (sample_writer (\<lambda>_. 5)) = 0"
    "next_tx_offset (sample_writer (\<lambda>_. 5)) = 1" "writer_len (sample_writer (\<lambda>_. 5)) = 38"
    by (simp_all add: sample_writer_def writer_append_def writer_commit_def put_slice_def commit_write_out Let_def next_tx_offset_def
        writer_len_def length_commit_bytes encoded_len_def FRAMING_LEN_def COMMIT_HEADER_LEN_def CHECKSUM_CRC32C_LEN_def
        SEG_HEADER_LEN_def MAGIC_def)
  then show ?thesis using metadata_of_written_segment [OF sample_writer_holds [of "\<lambda>_. 5"]] by simp
qed

end
