(* ===== verification/Commit_Log.thy ===== *)
theory Commit_Log
  imports Segment
begin

text \<open>
  \<^verbatim>\<open>crates/commitlog/src/commitlog.rs\<close> with \<^verbatim>\<open>repo/mod.rs\<close>, \<^verbatim>\<open>repo/mem.rs\<close> and \<^verbatim>\<open>error.rs\<close>: the log as
  a list of segments in a repository.  A repository maps offsets to the bytes of segments; the file-backed
  one also keeps offset indexes, the in-memory one (\<open>repo_indexes = None\<close>) does not.  Operating-system
  failures are not modelled, so the operations that only the system can make fail succeed.
\<close>

subsection \<open>Repositories\<close>

record repo =
  repo_segments :: "(u64, byte list) btree"
  repo_indexes :: "(u64 \<Rightarrow> byte list option) option"

definition create_segment :: "u64 \<Rightarrow> (repo, io_error, byte list) act" where
  "create_segment off repo =
     (case bt_get (repo_segments repo) off of
        Some b \<Rightarrow> if b = [] then (Inr b, repo) else (Inl AlreadyExists, repo)
      | None \<Rightarrow> (Inr [], repo\<lparr>repo_segments := bt_insert off [] (repo_segments repo)\<rparr>))"

definition open_segment :: "repo \<Rightarrow> u64 \<Rightarrow> io_error + byte list" where
  "open_segment repo off = (case bt_get (repo_segments repo) off of Some b \<Rightarrow> Inr b | None \<Rightarrow> Inl NotFound)"

definition remove_segment :: "u64 \<Rightarrow> (repo, io_error, unit) act" where
  "remove_segment off repo =
     (case bt_get (repo_segments repo) off of
        None \<Rightarrow> (Inl NotFound, repo\<lparr>repo_indexes := map_option (\<lambda>m. m(off := None)) (repo_indexes repo)\<rparr>)
      | Some _ \<Rightarrow> (Inr (), repo\<lparr>repo_segments := bt_remove off (repo_segments repo),
                               repo_indexes := map_option (\<lambda>m. m(off := None)) (repo_indexes repo)\<rparr>))"

definition existing_offsets :: "repo \<Rightarrow> u64 list" where
  "existing_offsets repo = map fst (repo_segments repo)"

definition index_io :: "index_error + 'a \<Rightarrow> io_error + 'a" where
  "index_io r = map_sum (\<lambda>_. OtherIo ''index'') id r"

definition create_offset_index :: "u64 \<Rightarrow> u64 \<Rightarrow> (repo, io_error, index_file) act" where
  "create_offset_index off cap repo =
     (case repo_indexes repo of
        None \<Rightarrow> (Inl (OtherIo ''not implemented''), repo)
      | Some m \<Rightarrow>
          let len = unat cap * ENTRY_SIZE;
              bytes = (case m off of None \<Rightarrow> replicate len 0 | Some b \<Rightarrow> set_len len b)
          in (index_io (open_index bytes), repo\<lparr>repo_indexes := Some (m(off \<mapsto> bytes))\<rparr>))"

definition get_offset_index :: "repo \<Rightarrow> u64 \<Rightarrow> io_error + index_file" where
  "get_offset_index repo off =
     (case repo_indexes repo of
        None \<Rightarrow> Inl (OtherIo ''not implemented'')
      | Some m \<Rightarrow> (case m off of None \<Rightarrow> Inl NotFound | Some b \<Rightarrow> index_io (open_index b)))"

definition ok_of :: "'e + 'a \<Rightarrow> 'a option" where
  "ok_of r = (case r of Inl _ \<Rightarrow> None | Inr x \<Rightarrow> Some x)"

definition create_offset_index_writer :: "u64 \<Rightarrow> options \<Rightarrow> repo \<Rightarrow> index_writer option \<times> repo" where
  "create_offset_index_writer off opts repo =
     (case create_offset_index off (offset_index_len opts) repo of
        (res, repo') \<Rightarrow> (map_option (\<lambda>ix. index_writer_new ix opts) (ok_of res), repo'))"

definition create_segment_writer :: "options \<Rightarrow> u64 \<Rightarrow> u64 \<Rightarrow> (repo, io_error, seg_writer) act" where
  "create_segment_writer opts ep off =
     andThen (create_segment off) (\<lambda>storage repo.
       let storage = seg_header_write \<lparr>log_format_version = opt_log_format_version opts,
                       checksum_algorithm = CHECKSUM_ALGORITHM_CRC32C\<rparr> storage;
           repo = repo\<lparr>repo_segments := bt_insert off storage (repo_segments repo)\<rparr>;
           (ix, repo) = create_offset_index_writer off opts repo
       in (Inr \<lparr>w_commit = \<lparr>min_tx_offset = off, epoch = ep, n_records = 0, records = []\<rparr>, w_storage = storage,
                w_min_tx_offset = off, w_bytes_written = of_nat SEG_HEADER_LEN,
                w_max_records_in_commit = max_records_in_commit opts, w_index = ix\<rparr>, repo))"

text \<open>Resuming returns a writer, or the metadata of the readable part of the segment.\<close>

definition resume_segment_writer ::
  "(byte list \<Rightarrow> u32) \<Rightarrow> options \<Rightarrow> u64 \<Rightarrow> (repo, io_error, seg_metadata + seg_writer) act" where
  "resume_segment_writer crc32c opts off repo =
     (case open_segment repo off of
        Inl e \<Rightarrow> (Inl e, repo)
      | Inr storage \<Rightarrow>
          (case metadata_extract crc32c off storage (ok_of (get_offset_index repo off)) of
             Inl (InvalidCommit sofar _) \<Rightarrow> (Inr (Inl sofar), repo)
           | Inl (MetadataIo e) \<Rightarrow> (Inl e, repo)
           | Inr md \<Rightarrow>
               (case ensure_compatible (md_header md) (opt_log_format_version opts) CHECKSUM_ALGORITHM_CRC32C of
                  Inl msg \<Rightarrow> (Inl (InvalidData (Message msg)), repo)
                | Inr _ \<Rightarrow>
                    if log_format_version (md_header md) \<noteq> opt_log_format_version opts
                    then (Inl (InvalidData (Message ''log format version mismatch'')), repo)
                    else case create_offset_index_writer off opts repo of
                      (ix, repo') \<Rightarrow>
                        (Inr (Inr \<lparr>w_commit = \<lparr>min_tx_offset = snd (md_tx_range md), epoch = md_max_epoch md,
                                      n_records = 0, records = []\<rparr>,
                                   w_storage = storage, w_min_tx_offset = fst (md_tx_range md),
                                   w_bytes_written = md_size_in_bytes md,
                                   w_max_records_in_commit = max_records_in_commit opts, w_index = ix\<rparr>), repo'))))"

definition open_segment_reader :: "repo \<Rightarrow> u8 \<Rightarrow> u64 \<Rightarrow> io_error + seg_reader" where
  "open_segment_reader repo maxv off =
     (case open_segment repo off of Inl e \<Rightarrow> Inl e | Inr storage \<Rightarrow> reader_new maxv off storage)"

subsection \<open>The log\<close>

record commitlog =
  log_repo :: repo
  log_head :: seg_writer
  log_tail :: "u64 list"
  log_opts :: options

text \<open>The head writes through to its files in the repository.\<close>

definition write_back :: "commitlog \<Rightarrow> commitlog" where
  "write_back log =
     (let w = log_head log; repo = log_repo log
      in log\<lparr>log_repo := repo\<lparr>
           repo_segments := bt_insert (w_min_tx_offset w) (w_storage w) (repo_segments repo),
           repo_indexes := (case w_index w of
               None \<Rightarrow> repo_indexes repo
             | Some iw \<Rightarrow> map_option (\<lambda>m. m(w_min_tx_offset w \<mapsto> mmap (iw_head iw))) (repo_indexes repo))\<rparr>\<rparr>)"

definition log_open :: "(byte list \<Rightarrow> u32) \<Rightarrow> options \<Rightarrow> repo \<Rightarrow> (io_error + commitlog) \<times> repo" where
  "log_open crc32c opts repo =
     (let tail = existing_offsets repo;
          mk = (\<lambda>tail res. case res of
                  (Inl e, repo) \<Rightarrow> (Inl e, repo)
                | (Inr w, repo) \<Rightarrow> (Inr \<lparr>log_repo = repo, log_head = w, log_tail = tail, log_opts = opts\<rparr>, repo))
      in if tail = [] then mk [] (create_segment_writer opts DEFAULT_EPOCH 0 repo)
         else case resume_segment_writer crc32c opts (last tail) repo of
                (Inl e, repo) \<Rightarrow> (Inl e, repo)
              | (Inr (Inr w), repo) \<Rightarrow> mk (butlast tail) (Inr w, repo)
              | (Inr (Inl md), repo) \<Rightarrow>
                  mk (butlast tail @ [fst (md_tx_range md)])
                     (create_segment_writer opts (md_max_epoch md) (snd (md_tx_range md)) repo))"

definition log_epoch :: "commitlog \<Rightarrow> u64" where
  "log_epoch log = epoch (w_commit (log_head log))"

definition start_new_segment :: "(commitlog, io_error, unit) act" where
  "start_new_segment log =
     (case create_segment_writer (log_opts log) (writer_epoch (log_head log)) (next_tx_offset (log_head log)) (log_repo log) of
        (Inl e, repo) \<Rightarrow> (Inl e, log\<lparr>log_repo := repo\<rparr>)
      | (Inr new, repo) \<Rightarrow>
          (Inr (), log\<lparr>log_repo := repo, log_tail := log_tail log @ [w_min_tx_offset (log_head log)],
                       log_head := new\<lparr>w_commit := w_commit (log_head log)\<rparr>\<rparr>))"

definition log_sync :: "commitlog \<Rightarrow> commitlog" where
  "log_sync log = write_back (log\<lparr>log_head := writer_fsync (log_head log)\<rparr>)"

definition should_rotate :: "commitlog \<Rightarrow> bool" where
  "should_rotate log \<longleftrightarrow> \<not> writer_is_empty (log_head log) \<and>
     writer_len (log_head log) + of_nat (encoded_len (w_commit (log_head log))) > max_segment_size (log_opts log)"

text \<open>The storage takes a number of bytes (\<open>None\<close>: any number) and then fails: a write that does not fit leaves
  its first bytes behind, and the commit stays in the buffer.\<close>

definition head_commit :: "(byte list \<Rightarrow> u32) \<Rightarrow> nat option \<Rightarrow> (seg_writer, io_error, committed option) act" where
  "head_commit crc32c quota w =
     (case quota of
        Some k \<Rightarrow>
          if n_records (w_commit w) \<noteq> 0 \<and> k < encoded_len (w_commit w)
          then (Inl (OtherIo ''write''), w\<lparr>w_storage := w_storage w @ take k (snd (commit_write crc32c (w_commit w) []))\<rparr>)
          else (case writer_commit crc32c w of (res, w) \<Rightarrow> (Inr res, w))
      | None \<Rightarrow> (case writer_commit crc32c w of (res, w) \<Rightarrow> (Inr res, w)))"

definition log_commit :: "(byte list \<Rightarrow> u32) \<Rightarrow> nat option \<Rightarrow> (commitlog, io_error, committed option) act" where
  "log_commit crc32c quota log =
     andThen (if should_rotate log then (\<lambda>l. start_new_segment (log_sync l)) else ret ()) (\<lambda>_ l.
       case head_commit crc32c quota (log_head l) of
         (Inr res, w) \<Rightarrow> (Inr res, write_back (l\<lparr>log_head := w\<rparr>))
       | (Inl e, w) \<Rightarrow> andThen start_new_segment (\<lambda>_. fail_with e) (write_back (l\<lparr>log_head := w\<rparr>))) log"

definition log_set_epoch :: "(byte list \<Rightarrow> u32) \<Rightarrow> nat option \<Rightarrow> u64 \<Rightarrow> (commitlog, io_error, committed option) act" where
  "log_set_epoch crc32c quota ep log =
     (if ep < writer_epoch (log_head log)
      then (Inl (InvalidInput ''new epoch is smaller than current epoch''), log)
      else if ep = writer_epoch (log_head log) then (Inr None, log)
      else andThen (log_commit crc32c quota) (\<lambda>res l. (Inr res, l\<lparr>log_head := writer_set_epoch ep (log_head l)\<rparr>)) log)"

definition log_append :: "('r \<Rightarrow> byte list) \<Rightarrow> 'r \<Rightarrow> (commitlog, 'r, unit) act" where
  "log_append enc record log =
     (case writer_append enc record (log_head log) of (res, w) \<Rightarrow> (res, log\<lparr>log_head := w\<rparr>))"

definition append_maybe_flush ::
  "(byte list \<Rightarrow> u32) \<Rightarrow> nat option \<Rightarrow> ('r \<Rightarrow> byte list) \<Rightarrow> 'r \<Rightarrow> (commitlog, 'r \<times> io_error, unit) act" where
  "append_maybe_flush crc32c quota enc record log =
     (case log_append enc record log of
        (Inr _, l) \<Rightarrow> (Inr (), l)
      | (Inl record, l) \<Rightarrow>
          (case log_commit crc32c quota l of
             (Inl e, l) \<Rightarrow> (Inl (record, e), l)
           | (Inr _, l) \<Rightarrow> (Inr (), snd (log_append enc record l))))"

definition max_committed_offset :: "commitlog \<Rightarrow> u64 option" where
  "max_committed_offset log =
     (if next_tx_offset (log_head log) = 0 then None else Some (next_tx_offset (log_head log) - 1))"

definition min_committed_offset :: "commitlog \<Rightarrow> u64 option" where
  "min_committed_offset log =
     (case log_tail log of
        off # _ \<Rightarrow> Some off
      | [] \<Rightarrow> if writer_is_empty (log_head log) then None else Some (w_min_tx_offset (log_head log)))"

text \<open>The suffix from the last offset that is not above the given one (\<^verbatim>\<open>rposition\<close>).\<close>

fun from_last_le :: "u64 \<Rightarrow> u64 list \<Rightarrow> u64 list option" where
  "from_last_le offset [] = None"
| "from_last_le offset (a # as) =
     (case from_last_le offset as of Some s \<Rightarrow> Some s | None \<Rightarrow> if a \<le> offset then Some (a # as) else None)"

definition segment_offsets_from :: "commitlog \<Rightarrow> u64 \<Rightarrow> u64 list" where
  "segment_offsets_from log offset =
     (if w_min_tx_offset (log_head log) \<le> offset then [w_min_tx_offset (log_head log)]
      else case from_last_le offset (log_tail log) of
             Some offs \<Rightarrow> offs @ [w_min_tx_offset (log_head log)]
           | None \<Rightarrow> [])"

subsection \<open>Traversal\<close>

datatype traversal =
    OutOfOrder u64 u64 "traversal option"
  | Forked u64
  | TraversalDecode u64 decode_error
  | Checksum u64
  | TraversalIo io_error

datatype commit_info = Initial u64 | LastSeen "u64 \<times> u64" u32

definition same_offset_as :: "commit_info \<Rightarrow> stored_commit \<Rightarrow> bool" where
  "same_offset_as ci c = (case ci of Initial _ \<Rightarrow> False | LastSeen r _ \<Rightarrow> fst r = min_tx_offset c)"

definition same_checksum_as :: "commit_info \<Rightarrow> stored_commit \<Rightarrow> bool" where
  "same_checksum_as ci c = (case ci of Initial _ \<Rightarrow> False | LastSeen _ chk \<Rightarrow> chk = checksum c)"

definition expected_offset :: "commit_info \<Rightarrow> u64" where
  "expected_offset ci = (case ci of Initial off \<Rightarrow> off | LastSeen r _ \<Rightarrow> snd r)"

definition adjust_initial_offset :: "commit_info \<Rightarrow> stored_commit \<Rightarrow> bool \<times> commit_info" where
  "adjust_initial_offset ci c =
     (case ci of
        Initial next_offset \<Rightarrow>
          let last_tx_offset = min_tx_offset c + ucast (n_records c) - 1
          in if next_offset > last_tx_offset then (True, ci) else (False, Initial (min_tx_offset c))
      | LastSeen _ _ \<Rightarrow> (False, ci))"

text \<open>The iterator: the header and the rest of the current segment, and the segments to come.\<close>

record commits_iter =
  ci_inner :: "(seg_header \<times> byte list) option"
  ci_repo :: repo
  ci_offs :: "u64 list"
  ci_max_version :: u8
  ci_last_commit :: commit_info
  ci_last_error :: "traversal option"

definition commits_from :: "commitlog \<Rightarrow> u64 \<Rightarrow> commits_iter" where
  "commits_from log offset =
     \<lparr>ci_inner = None, ci_repo = log_repo log, ci_offs = segment_offsets_from log offset,
      ci_max_version = opt_log_format_version (log_opts log), ci_last_commit = Initial offset, ci_last_error = None\<rparr>"

definition repo_commits_from :: "repo \<Rightarrow> u8 \<Rightarrow> u64 \<Rightarrow> commits_iter" where
  "repo_commits_from repo maxv offset =
     (let offs = existing_offsets repo
      in \<lparr>ci_inner = None, ci_repo = repo,
          ci_offs = (case from_last_le offset offs of Some s \<Rightarrow> s | None \<Rightarrow> offs),
          ci_max_version = maxv, ci_last_commit = Initial offset, ci_last_error = None\<rparr>)"

definition set_last_error :: "io_error \<Rightarrow> commits_iter \<Rightarrow> commits_iter" where
  "set_last_error e it =
     it\<lparr>ci_last_error := Some (if e = InvalidData ChecksumMismatch then Checksum (expected_offset (ci_last_commit it))
                               else TraversalIo e)\<rparr>"

text \<open>One round of the loop: another round, or what the function returns.\<close>

definition next_commit_round ::
  "(byte list \<Rightarrow> u32) \<Rightarrow> commits_iter \<Rightarrow> commits_iter + (traversal + stored_commit) option \<times> commits_iter" where
  "next_commit_round crc32c it =
     (case ci_inner it of
        None \<Rightarrow> Inr (None, it)
      | Some (h, bs) \<Rightarrow>
          (case stored_commit_decode_internal crc32c (log_format_version h) bs of
             (Inr None, r) \<Rightarrow> Inr (None, it\<lparr>ci_inner := Some (h, r)\<rparr>)
           | (Inl e, r) \<Rightarrow> Inr (None, set_last_error e (it\<lparr>ci_inner := Some (h, r)\<rparr>))
           | (Inr (Some c), r) \<Rightarrow>
               let prev_error = ci_last_error it;
                   (skip, lc) = adjust_initial_offset (ci_last_commit it) c;
                   it = it\<lparr>ci_inner := Some (h, r), ci_last_error := None, ci_last_commit := lc\<rparr>
               in if skip then Inl it
                  else if same_offset_as lc c then
                    (if \<not> same_checksum_as lc c then Inr (Some (Inl (Forked (min_tx_offset c))), it) else Inl it)
                  else if expected_offset lc \<noteq> min_tx_offset c
                  then Inr (Some (Inl (OutOfOrder (expected_offset lc) (min_tx_offset c) prev_error)), it)
                  else Inr (Some (Inr c), it\<lparr>ci_last_commit := LastSeen (tx_range c) (checksum c)\<rparr>)))"

definition iter_rest :: "commits_iter \<Rightarrow> nat" where
  "iter_rest it = (case ci_inner it of None \<Rightarrow> 0 | Some (_, bs) \<Rightarrow> length bs)"

lemma next_commit_round_again:
  "next_commit_round crc it = Inl it' \<Longrightarrow> iter_rest it' < iter_rest it \<and> ci_offs it' = ci_offs it"
  by (auto simp: next_commit_round_def iter_rest_def Let_def dest!: decode_internal_shrinks
      split: option.splits prod.splits sum.splits if_splits)

function next_commit ::
  "(byte list \<Rightarrow> u32) \<Rightarrow> commits_iter \<Rightarrow> (traversal + stored_commit) option \<times> commits_iter" where
  "next_commit crc32c it =
     (case next_commit_round crc32c it of Inl it' \<Rightarrow> next_commit crc32c it' | Inr result \<Rightarrow> result)"
  by pat_completeness auto

termination next_commit
  by (relation "measure (\<lambda>(_, it). iter_rest it)") (auto dest: next_commit_round_again)

declare next_commit.simps [simp del]

lemma next_commit_round_item:
  "next_commit_round crc it = Inr (Some x, it') \<Longrightarrow> iter_rest it' < iter_rest it \<and> ci_offs it' = ci_offs it"
  by (auto simp: next_commit_round_def iter_rest_def Let_def dest!: decode_internal_shrinks
      split: option.splits prod.splits sum.splits if_splits)

lemma next_commit_item:
  "next_commit crc it = (Some x, it') \<Longrightarrow> iter_rest it' < iter_rest it \<and> ci_offs it' = ci_offs it"
proof (induction crc it rule: next_commit.induct)
  case (1 crc it)
  show ?case
  proof (cases "next_commit_round crc it")
    case (Inl it1)
    with 1 have "iter_rest it' < iter_rest it1 \<and> ci_offs it' = ci_offs it1"
      by (simp add: next_commit.simps [of crc it])
    with next_commit_round_again [OF Inl] show ?thesis by simp
  next
    case (Inr res)
    with 1 show ?thesis using next_commit_round_item [of crc it x it'] by (simp add: next_commit.simps [of crc it])
  qed
qed

lemma decode_internal_len:
  "stored_commit_decode_internal crc v bs = (x, r) \<Longrightarrow> x = Inr None \<and> length r \<le> length bs \<or> length r < length bs"
  unfolding stored_commit_decode_internal_def andThen_def header_decode_internal_def header_decode_v0_def
    header_decode_v1_def header_decode_def read_exact_def decode_u32_def COMMIT_HEADER_LEN_def
  by (auto simp: ret_def fail_with_def Let_def split: if_splits sum.splits option.splits prod.splits)

lemma next_commit_round_end:
  assumes "next_commit_round crc it = Inr (None, it')"
  shows "ci_offs it' = ci_offs it \<and> iter_rest it' \<le> iter_rest it \<and>
    (ci_last_error it' = ci_last_error it \<or> iter_rest it' < iter_rest it)"
  using assms unfolding next_commit_round_def set_last_error_def iter_rest_def
  by (auto simp: Let_def dest!: decode_internal_len split: option.splits prod.splits sum.splits if_splits)

lemma next_commit_end:
  "next_commit crc it = (None, it') \<Longrightarrow> ci_offs it' = ci_offs it \<and> iter_rest it' \<le> iter_rest it \<and>
    (ci_last_error it' = ci_last_error it \<or> iter_rest it' < iter_rest it)"
proof (induction crc it rule: next_commit.induct)
  case (1 crc it)
  show ?case
  proof (cases "next_commit_round crc it")
    case (Inl it1)
    with 1 have "ci_offs it' = ci_offs it1 \<and> iter_rest it' \<le> iter_rest it1"
      by (simp add: next_commit.simps [of crc it])
    with next_commit_round_again [OF Inl] show ?thesis by simp
  next
    case (Inr res)
    with 1 show ?thesis using next_commit_round_end [of crc it it'] by (simp add: next_commit.simps [of crc it])
  qed
qed

definition try_seek_to_initial_offset :: "commits_iter \<Rightarrow> seg_reader \<Rightarrow> seg_reader" where
  "try_seek_to_initial_offset it r =
     (case ci_last_commit it of
        LastSeen _ _ \<Rightarrow> r
      | Initial next_offset \<Rightarrow>
          (case get_offset_index (ci_repo it) (r_min_tx_offset r) of
             Inl _ \<Rightarrow> r
           | Inr ix \<Rightarrow> snd (seek_to_offset ix next_offset r)))"

definition enter_segment :: "u64 \<Rightarrow> commits_iter \<Rightarrow> io_error + commits_iter" where
  "enter_segment off it =
     (case open_segment_reader (ci_repo it) (ci_max_version it) off of
        Inl e \<Rightarrow> Inl e
      | Inr r \<Rightarrow>
          let r = try_seek_to_initial_offset it r
          in Inr (it\<lparr>ci_inner := Some (r_header r, drop (r_pos r) (r_storage r))\<rparr>))"

lemma enter_segment_offs [simp]: "enter_segment off it = Inr it' \<Longrightarrow> ci_offs it' = ci_offs it"
  by (auto simp: enter_segment_def Let_def split: sum.splits)

function commits_next ::
  "(byte list \<Rightarrow> u32) \<Rightarrow> commits_iter \<Rightarrow> (traversal + stored_commit) option \<times> commits_iter" where
  "commits_next crc32c it =
     (case next_commit crc32c it of
        (Some item, it) \<Rightarrow> (Some item, it)
      | (None, it) \<Rightarrow>
          (case ci_offs it of
             [] \<Rightarrow> (map_option Inl (ci_last_error it), it\<lparr>ci_last_error := None\<rparr>)
           | off # offs \<Rightarrow>
               (case enter_segment off (it\<lparr>ci_offs := offs\<rparr>) of
                  Inl e \<Rightarrow> (Some (Inl (TraversalIo e)), it\<lparr>ci_offs := offs\<rparr>)
                | Inr it' \<Rightarrow> commits_next crc32c it')))"
  by pat_completeness auto

lemma next_commit_end_offs:
  "(None, it1) = next_commit crc it \<Longrightarrow> ci_offs it = ci_offs it1"
  using next_commit_end [of crc it it1] by simp

termination commits_next
  by (relation "measure (\<lambda>(_, it). length (ci_offs it))") (auto dest!: next_commit_end_offs)

declare commits_next.simps [simp del]

text \<open>Every item the iterator gives takes segments, bytes or the stored error off it, so it ends.\<close>

definition iter_measure :: "(commits_iter \<times> commits_iter) set" where
  "iter_measure = measures [\<lambda>it. length (ci_offs it), iter_rest, \<lambda>it. of_bool (ci_last_error it \<noteq> None)]"

lemma commits_next_decreases:
  "commits_next crc it = (Some x, it') \<Longrightarrow> (it', it) \<in> iter_measure"
proof (induction crc it rule: commits_next.induct)
  case (1 crc it)
  show ?case
  proof (cases "next_commit crc it")
    case (Pair res it1)
    show ?thesis
    proof (cases res)
      case (Some item)
      with Pair 1 show ?thesis
        using next_commit_item [of crc it item it1] by (simp add: commits_next.simps [of crc it] iter_measure_def)
    next
      case None
      note end_ = next_commit_end [of crc it it1, OF Pair [unfolded None]]
      show ?thesis
      proof (cases "ci_offs it1")
        case Nil
        with Pair None 1 end_ show ?thesis
          by (auto simp: commits_next.simps [of crc it] iter_measure_def iter_rest_def)
      next
        case (Cons off offs)
        then have offs: "ci_offs it = off # offs" using end_ by simp
        show ?thesis
        proof (cases "enter_segment off (it1\<lparr>ci_offs := offs\<rparr>)")
          case (Inl e)
          with Pair None 1(2) Cons have "it' = it1\<lparr>ci_offs := offs\<rparr>" by (simp add: commits_next.simps [of crc it])
          with offs show ?thesis by (simp add: iter_measure_def)
        next
          case (Inr it2)
          with Pair None 1(2) Cons have "commits_next crc it2 = (Some x, it')" by (simp add: commits_next.simps [of crc it])
          with 1(1) Pair None Cons Inr have "(it', it2) \<in> iter_measure" by simp
          moreover have "length (ci_offs it2) < length (ci_offs it)" using Inr offs by simp
          ultimately show ?thesis by (auto simp: iter_measure_def)
        qed
      qed
    qed
  qed
qed

function commits_all :: "(byte list \<Rightarrow> u32) \<Rightarrow> commits_iter \<Rightarrow> (traversal + stored_commit) list" where
  "commits_all crc32c it =
     (case commits_next crc32c it of (None, _) \<Rightarrow> [] | (Some x, it') \<Rightarrow> x # commits_all crc32c it')"
  by pat_completeness auto

termination commits_all
proof (relation "inv_image iter_measure snd")
  show "wf (inv_image iter_measure snd)" by (simp add: iter_measure_def)
qed (auto dest!: commits_next_decreases [OF sym])

declare commits_all.simps [simp del]

definition commits_with_version_next ::
  "(byte list \<Rightarrow> u32) \<Rightarrow> commits_iter \<Rightarrow> ((traversal + u8 \<times> commit) option \<times> commits_iter) option" where
  "commits_with_version_next crc32c it =
     (case commits_next crc32c it of
        (None, it) \<Rightarrow> Some (None, it)
      | (Some (Inl e), it) \<Rightarrow> Some (Some (Inl e), it)
      | (Some (Inr c), it) \<Rightarrow>
          map_option (\<lambda>(h, _). (Some (Inr (log_format_version h, commit_from_stored c)), it)) (ci_inner it))"

lemma commits_with_version_next_decreases:
  "commits_with_version_next crc it = Some (Some x, it') \<Longrightarrow> (it', it) \<in> iter_measure"
  by (auto simp: commits_with_version_next_def dest: commits_next_decreases split: prod.splits option.splits sum.splits)

function transactions_from_internal ::
  "(byte list \<Rightarrow> u32) \<Rightarrow> (traversal \<Rightarrow> 'e) \<Rightarrow> ('d, 'e, 'r) decoder \<Rightarrow> u64 \<Rightarrow> commits_iter \<Rightarrow> 'd \<Rightarrow>
    (('e + 'r transaction) list \<times> 'd) option" where
  "transactions_from_internal crc32c from_traversal de offset it d =
     (case commits_with_version_next crc32c it of
        None \<Rightarrow> None
      | Some (None, _) \<Rightarrow> Some ([], d)
      | Some (Some (Inl e), it') \<Rightarrow>
          map_option (\<lambda>(ts, d'). (Inl (from_traversal e) # ts, d')) (transactions_from_internal crc32c from_traversal de offset it' d)
      | Some (Some (Inr (version, c)), it') \<Rightarrow>
          (case into_transactions de c version offset d of
             (ts, d') \<Rightarrow>
               map_option (\<lambda>(us, d''). (ts @ us, d'')) (transactions_from_internal crc32c from_traversal de offset it' d')))"
  by pat_completeness auto

lemma wf_iter_measure: "wf iter_measure"
  by (simp add: iter_measure_def)

termination transactions_from_internal
proof (relation "inv_image iter_measure (\<lambda>(_, _, _, _, it, _). it)")
qed (auto intro: wf_iter_measure dest!: commits_with_version_next_decreases)

declare transactions_from_internal.simps [simp del]

fun fold_records :: "('d, 'e, 'r) decoder \<Rightarrow> u8 \<Rightarrow> u64 \<Rightarrow> u64 list \<Rightarrow> ('d \<times> byte list, 'e, unit) act" where
  "fold_records de version from [] = ret ()"
| "fold_records de version from (off # offs) =
     andThen (if off < from then skip_record de version off else consume_record de version off)
       (\<lambda>_. fold_records de version from offs)"

function fold_transactions_internal ::
  "(byte list \<Rightarrow> u32) \<Rightarrow> (traversal \<Rightarrow> 'e) \<Rightarrow> ('d, 'e, 'r) decoder \<Rightarrow> u64 \<Rightarrow> commits_iter \<Rightarrow> 'd \<Rightarrow>
    (('e + unit) \<times> 'd) option" where
  "fold_transactions_internal crc32c from_traversal de from it d =
     (case commits_with_version_next crc32c it of
        None \<Rightarrow> None
      | Some (None, _) \<Rightarrow> Some (Inr (), d)
      | Some (Some (Inl e), it') \<Rightarrow>
          map_option (\<lambda>(next, _). (if next = None then Inr () else Inl (from_traversal e), d))
            (commits_with_version_next crc32c it')
      | Some (Some (Inr (version, c)), it') \<Rightarrow>
          if min_tx_offset c + ucast (n_records c) \<le> from
          then fold_transactions_internal crc32c from_traversal de from it' d
          else (case fold_records de version from (map (\<lambda>n. min_tx_offset c + of_nat n) [0..<unat (n_records c)]) (d, records c) of
                  (Inl e, (d', _)) \<Rightarrow> Some (Inl e, d')
                | (Inr _, (d', _)) \<Rightarrow> fold_transactions_internal crc32c from_traversal de from it' d'))"
  by pat_completeness auto

termination fold_transactions_internal
proof (relation "inv_image iter_measure (\<lambda>(_, _, _, _, it, _). it)")
qed (auto intro: wf_iter_measure dest!: commits_with_version_next_decreases)

declare fold_transactions_internal.simps [simp del]

definition transactions_from ::
  "(byte list \<Rightarrow> u32) \<Rightarrow> (traversal \<Rightarrow> 'e) \<Rightarrow> ('d, 'e, 'r) decoder \<Rightarrow> u64 \<Rightarrow> commitlog \<Rightarrow> 'd \<Rightarrow>
    (('e + 'r transaction) list \<times> 'd) option" where
  "transactions_from crc32c from_traversal de offset log =
     transactions_from_internal crc32c from_traversal de offset (commits_from log offset)"

definition fold_transactions_from ::
  "(byte list \<Rightarrow> u32) \<Rightarrow> (traversal \<Rightarrow> 'e) \<Rightarrow> ('d, 'e, 'r) decoder \<Rightarrow> u64 \<Rightarrow> commitlog \<Rightarrow> 'd \<Rightarrow>
    (('e + unit) \<times> 'd) option" where
  "fold_transactions_from crc32c from_traversal de offset log =
     fold_transactions_internal crc32c from_traversal de offset (commits_from log offset)"

text \<open>Dropping a log writes the commit in its buffer.\<close>

definition log_drop :: "(byte list \<Rightarrow> u32) \<Rightarrow> nat option \<Rightarrow> commitlog \<Rightarrow> repo" where
  "log_drop crc32c quota log = log_repo (write_back (log\<lparr>log_head := snd (head_commit crc32c quota (log_head log))\<rparr>))"

subsection \<open>Resetting\<close>

fun remove_segments :: "u64 list \<Rightarrow> (repo, io_error, unit) act" where
  "remove_segments [] = ret ()"
| "remove_segments (segment # segments) = andThen (remove_segment segment) (\<lambda>_. remove_segments segments)"

definition log_reset :: "(byte list \<Rightarrow> u32) \<Rightarrow> commitlog \<Rightarrow> (io_error + commitlog) \<times> repo" where
  "log_reset crc32c log =
     (case remove_segments (rev (log_tail log @ [w_min_tx_offset (log_head log)])) (log_repo log) of
        (Inl e, repo) \<Rightarrow> (Inl e, repo)
      | (Inr _, repo) \<Rightarrow> log_open crc32c (log_opts log) repo)"

text \<open>The number of bytes of the leading commits that start at or before the offset; a commit that cannot
  be decoded ends the scan with its error.\<close>

fun kept_bytes :: "u64 \<Rightarrow> stored_commit list \<times> io_error option \<Rightarrow> io_error + nat" where
  "kept_bytes offset ([], None) = Inr 0"
| "kept_bytes offset ([], Some e) = Inl e"
| "kept_bytes offset (c # cs, e) =
     (if offset < min_tx_offset c then Inr 0
      else map_sum id (\<lambda>n. encoded_len (commit_from_stored c) + n) (kept_bytes offset (cs, e)))"

text \<open>Where the scan starts: at the position the index gives if it can be used, else behind the header.\<close>

definition reset_start :: "repo \<Rightarrow> u64 \<Rightarrow> u64 \<Rightarrow> seg_reader \<Rightarrow> index_file option \<times> u64 \<times> seg_reader" where
  "reset_start repo segment offset r =
     (case get_offset_index repo segment of
        Inl _ \<Rightarrow> (None, of_nat SEG_HEADER_LEN, r)
      | Inr ix \<Rightarrow>
          (case key_lookup ix offset of
             Inl _ \<Rightarrow> (None, of_nat SEG_HEADER_LEN, r)
           | Inr (key, byte_offset) \<Rightarrow>
               (case seek_to_offset ix key r of
                  (Inl _, r') \<Rightarrow> (None, of_nat SEG_HEADER_LEN, r')
                | (Inr _, r') \<Rightarrow> (Some ix, byte_offset, r'))))"

definition truncate_index :: "u64 \<Rightarrow> u64 \<Rightarrow> index_file option \<Rightarrow> (repo, io_error, unit) act" where
  "truncate_index segment offset ix repo =
     (case ix of
        None \<Rightarrow> (Inr (), repo)
      | Some ix \<Rightarrow>
          (case index_truncate ix (offset + 1) of
             (res, ix') \<Rightarrow>
               (map_sum (\<lambda>_. InvalidData (Message ''Failed to truncate offset index'')) id res,
                repo\<lparr>repo_indexes := map_option (\<lambda>m. m(segment \<mapsto> mmap ix')) (repo_indexes repo)\<rparr>)))"

fun reset_to_segments :: "(byte list \<Rightarrow> u32) \<Rightarrow> u64 \<Rightarrow> u64 list \<Rightarrow> (repo, io_error, unit) act" where
  "reset_to_segments crc32c offset [] repo = (Inr (), repo)"
| "reset_to_segments crc32c offset (segment # segments) repo =
     (if offset < segment then andThen (remove_segment segment) (\<lambda>_. reset_to_segments crc32c offset segments) repo
      else case open_segment_reader repo DEFAULT_LOG_FORMAT_VERSION segment of
        Inl e \<Rightarrow> (Inl e, repo)
      | Inr r \<Rightarrow>
          (case reset_start repo segment offset r of
             (ix, start, r) \<Rightarrow>
               (case kept_bytes offset (reader_commits crc32c r) of
                  Inl e \<Rightarrow> (Inl e, repo)
                | Inr kept \<Rightarrow>
                    let byte_offset = start + of_nat kept
                    in if byte_offset = of_nat SEG_HEADER_LEN
                       then andThen (remove_segment segment) (\<lambda>_. reset_to_segments crc32c offset segments) repo
                       else andThen (truncate_index segment offset ix) (\<lambda>_ repo.
                         case open_segment repo segment of
                           Inl e \<Rightarrow> (Inl e, repo)
                         | Inr file \<Rightarrow>
                             (Inr (), repo\<lparr>repo_segments := bt_insert segment (set_len (unat byte_offset) file) (repo_segments repo)\<rparr>))
                         repo)))"

definition reset_to_internal :: "(byte list \<Rightarrow> u32) \<Rightarrow> u64 list \<Rightarrow> u64 \<Rightarrow> (repo, io_error, unit) act" where
  "reset_to_internal crc32c segments offset = reset_to_segments crc32c offset (rev segments)"

definition repo_reset_to :: "(byte list \<Rightarrow> u32) \<Rightarrow> u64 \<Rightarrow> (repo, io_error, unit) act" where
  "repo_reset_to crc32c offset repo = reset_to_internal crc32c (existing_offsets repo) offset repo"

definition log_reset_to :: "(byte list \<Rightarrow> u32) \<Rightarrow> u64 \<Rightarrow> commitlog \<Rightarrow> (io_error + commitlog) \<times> repo" where
  "log_reset_to crc32c offset log =
     (case reset_to_internal crc32c (log_tail log @ [w_min_tx_offset (log_head log)]) offset (log_repo log) of
        (Inl e, repo) \<Rightarrow> (Inl e, repo)
      | (Inr _, repo) \<Rightarrow> log_open crc32c (log_opts log) repo)"

definition committed_meta ::
  "(byte list \<Rightarrow> u32) \<Rightarrow> repo \<Rightarrow> segment_metadata_error + seg_metadata option" where
  "committed_meta crc32c repo =
     (if existing_offsets repo = [] then Inr None
      else let last = last (existing_offsets repo)
           in case open_segment repo last of
                Inl e \<Rightarrow> Inl (MetadataIo e)
              | Inr storage \<Rightarrow> map_sum id Some (metadata_extract crc32c last storage (ok_of (get_offset_index repo last))))"

subsection \<open>The interface of the log\<close>

definition flush :: "(byte list \<Rightarrow> u32) \<Rightarrow> nat option \<Rightarrow> (commitlog, io_error, u64 option) act" where
  "flush crc32c quota = andThen (log_commit crc32c quota) (\<lambda>_ l. (Inr (max_committed_offset l), l))"

definition flush_and_sync :: "(byte list \<Rightarrow> u32) \<Rightarrow> nat option \<Rightarrow> (commitlog, io_error, u64 option) act" where
  "flush_and_sync crc32c quota =
     andThen (log_commit crc32c quota) (\<lambda>_ l. let l = log_sync l in (Inr (max_committed_offset l), l))"

definition set_epoch_and_offset :: "(byte list \<Rightarrow> u32) \<Rightarrow> nat option \<Rightarrow> u64 \<Rightarrow> (commitlog, io_error, u64 option) act" where
  "set_epoch_and_offset crc32c quota ep =
     andThen (log_set_epoch crc32c quota ep) (\<lambda>_ l. (Inr (max_committed_offset l), l))"

end
