(* ===== verification/Log_Traversal.thy ===== *)
theory Log_Traversal
  imports Commit_Log
begin

text \<open>
  What traversing a commit log gives: lemmas on the iterator of \<^verbatim>\<open>commitlog.rs\<close> over segments that hold
  commits without a gap, each followed by a torn write, and the properties of logs that were written by
  appends, commits, failing commits and changes of epoch.
\<close>

subsection \<open>Files of a log\<close>

text \<open>What is left behind by a write that failed: a proper prefix of a commit.\<close>

definition torn :: "(byte list \<Rightarrow> u32) \<Rightarrow> byte list \<Rightarrow> bool" where
  "torn crc32c t \<longleftrightarrow> (\<exists>(c :: commit) k. commit_fits c \<and> k < length (commit_bytes crc32c c) \<and> t = take k (commit_bytes crc32c c))"

definition seg_bytes :: "(byte list \<Rightarrow> u32) \<Rightarrow> seg_header \<Rightarrow> commit list \<Rightarrow> byte list \<Rightarrow> byte list" where
  "seg_bytes crc32c h cs t = seg_header_write h [] @ commits_bytes crc32c cs @ t"

type_synonym seg_file = "u64 \<times> commit list \<times> byte list"

definition commit_ok :: "commit \<Rightarrow> bool" where
  "commit_ok c \<longleftrightarrow> commit_fits c \<and> n_records c \<noteq> 0"

fun files_chain :: "(byte list \<Rightarrow> u32) \<Rightarrow> u64 \<Rightarrow> seg_file list \<Rightarrow> u64 \<Rightarrow> bool" where
  "files_chain crc32c a [] b \<longleftrightarrow> a = b"
| "files_chain crc32c a ((off, cs, t) # files) b \<longleftrightarrow>
     off = a \<and> list_all commit_ok cs \<and> torn crc32c t \<and> (\<exists>m. offsets_chain a cs m \<and> files_chain crc32c m files b)"

abbreviation file_commits :: "seg_file list \<Rightarrow> commit list" where
  "file_commits files \<equiv> concat (map (\<lambda>f. fst (snd f)) files)"

lemma torn_Nil [simp]: "torn crc []"
  unfolding torn_def
  by (rule exI [of _ "\<lparr>min_tx_offset = 0, epoch = 0, n_records = 0, records = []\<rparr>"], rule exI [of _ 0])
    (simp add: commit_fits_def length_commit_bytes encoded_len_def FRAMING_LEN_def COMMIT_HEADER_LEN_def)

lemma torn_decode:
  "torn crc t \<Longrightarrow> v \<noteq> 0 \<Longrightarrow> stored_commit_decode_internal crc v t \<in> {(Inr None, []), (Inl UnexpectedEof, [])}"
  by (auto simp: torn_def commit_fits_def decode_internal_prefix split: if_splits)

lemma empty_decode [simp]: "v \<noteq> 0 \<Longrightarrow> stored_commit_decode_internal crc v [] = (Inr None, [])"
  by (simp add: decode_internal_short COMMIT_HEADER_LEN_def)

lemma files_chain_append:
  "files_chain crc a (fs @ gs) b \<longleftrightarrow> (\<exists>m. files_chain crc a fs m \<and> files_chain crc m gs b)"
proof (induction fs arbitrary: a)
  case (Cons f fs)
  obtain off cs t where "f = (off, cs, t)" by (cases f)
  then show ?case by (auto simp: Cons.IH)
qed simp

subsection \<open>The iterator within a segment\<close>

definition expects :: "commit_info \<Rightarrow> u64 \<Rightarrow> bool" where
  "expects lc a \<longleftrightarrow> lc = Initial 0 \<and> a = 0 \<or> (\<exists>p chk. lc = LastSeen (p, a) chk \<and> p \<noteq> a)"

lemma ucast_n_nonzero: "n \<noteq> 0 \<Longrightarrow> (ucast n :: u64) \<noteq> 0" for n :: u16
proof
  assume "n \<noteq> 0" "(ucast n :: u64) = 0"
  then have "ucast (ucast n :: u64) = (0 :: u16)" by simp
  then have "n = 0" by (simp add: ucast_up_ucast_id is_up)
  with \<open>n \<noteq> 0\<close> show False by simp
qed

lemma expects_seen: "commit_ok c \<Longrightarrow> expects (LastSeen (tx_range c) chk) (min_tx_offset c + ucast (n_records c))"
  using ucast_n_nonzero [of "n_records c"] by (simp add: expects_def tx_range_def commit_ok_def)

lemma tx_range_stored [simp]: "tx_range (as_stored crc c) = tx_range c"
  by (simp add: tx_range_def as_stored_def)

lemma adjust_expected:
  "expects lc (min_tx_offset c) \<Longrightarrow> adjust_initial_offset lc c = (False, lc)"
  by (auto simp: expects_def adjust_initial_offset_def Let_def)

lemma next_commit_reads:
  assumes "ci_inner it = Some (h, commit_bytes crc c @ rest)" and "log_format_version h \<noteq> 0" and "commit_ok c"
    and "expects (ci_last_commit it) (min_tx_offset c)"
  shows "next_commit crc it = (Some (Inr (as_stored crc c)), it\<lparr>ci_inner := Some (h, rest), ci_last_error := None,
    ci_last_commit := LastSeen (tx_range c) (crc (commit_body c))\<rparr>)"
proof -
  have st: "min_tx_offset (as_stored crc c) = min_tx_offset c" "checksum (as_stored crc c) = crc (commit_body c)"
    by (simp_all add: as_stored_def)
  have dec: "stored_commit_decode_internal crc (log_format_version h) (commit_bytes crc c @ rest) = (Inr (Some (as_stored crc c)), rest)"
    using assms by (intro decode_stored) (simp_all add: commit_ok_def)
  have adj: "adjust_initial_offset (ci_last_commit it) (as_stored crc c) = (False, ci_last_commit it)"
    using assms(4) by (intro adjust_expected) (simp add: st)
  have "\<not> same_offset_as (ci_last_commit it) (as_stored crc c)" "expected_offset (ci_last_commit it) = min_tx_offset c"
    using assms(4) by (auto simp: expects_def same_offset_as_def expected_offset_def st)
  then have "next_commit_round crc it = Inr (Some (Inr (as_stored crc c)), it\<lparr>ci_inner := Some (h, rest), ci_last_error := None,
      ci_last_commit := LastSeen (tx_range c) (crc (commit_body c))\<rparr>)"
    by (simp add: next_commit_round_def assms(1) dec adj st Let_def)
  then show ?thesis by (simp add: next_commit.simps [of crc it])
qed

lemma commits_all_reads:
  "ci_inner it = Some (h, commits_bytes crc cs @ rest) \<Longrightarrow> log_format_version h \<noteq> 0 \<Longrightarrow> list_all commit_ok cs \<Longrightarrow>
   expects (ci_last_commit it) a \<Longrightarrow> offsets_chain a cs b \<Longrightarrow>
   \<exists>lc. expects lc b \<and> commits_all crc it = map (\<lambda>c. Inr (as_stored crc c)) cs @
     commits_all crc (it\<lparr>ci_inner := Some (h, rest), ci_last_commit := lc,
       ci_last_error := (if cs = [] then ci_last_error it else None)\<rparr>)"
proof (induction cs arbitrary: it a)
  case Nil
  then show ?case by (intro exI [of _ "ci_last_commit it"]) (cases it, simp)
next
  case (Cons c cs)
  let ?it = "it\<lparr>ci_inner := Some (h, commits_bytes crc cs @ rest), ci_last_error := None,
    ci_last_commit := LastSeen (tx_range c) (crc (commit_body c))\<rparr>"
  have c: "commit_ok c" "min_tx_offset c = a" using Cons.prems by simp_all
  have "next_commit crc it = (Some (Inr (as_stored crc c)), ?it)"
    using Cons.prems c by (intro next_commit_reads) simp_all
  then have all: "commits_all crc it = Inr (as_stored crc c) # commits_all crc ?it"
    by (simp add: commits_all.simps [of crc it] commits_next.simps [of crc it])
  have "\<exists>lc. expects lc b \<and> commits_all crc ?it = map (\<lambda>c. Inr (as_stored crc c)) cs @
      commits_all crc (?it\<lparr>ci_inner := Some (h, rest), ci_last_commit := lc, ci_last_error := (if cs = [] then ci_last_error ?it else None)\<rparr>)"
    using Cons.prems expects_seen [OF c(1)] c(2) by (intro Cons.IH [of ?it "a + ucast (n_records c)"]) simp_all
  then show ?case by (auto simp: all)
qed

subsection \<open>The iterator across segments\<close>

lemma commits_all_cong: "commits_next crc it = commits_next crc it' \<Longrightarrow> commits_all crc it = commits_all crc it'"
  by (simp add: commits_all.simps [of crc it] commits_all.simps [of crc it'])

text \<open>The iterator has read the commits of the current segment.\<close>

definition at_end :: "(byte list \<Rightarrow> u32) \<Rightarrow> commits_iter \<Rightarrow> bool" where
  "at_end crc32c it \<longleftrightarrow> (case ci_inner it of None \<Rightarrow> True | Some (h, t) \<Rightarrow> log_format_version h \<noteq> 0 \<and> torn crc32c t)"

lemma next_commit_at_end:
  assumes "at_end crc it"
  shows "\<exists>inner le. next_commit crc it = (None, it\<lparr>ci_inner := inner, ci_last_error := le\<rparr>) \<and>
    (inner = None \<or> (\<exists>h. inner = Some (h, []) \<and> log_format_version h \<noteq> 0)) \<and>
    (ci_inner it = None \<or> snd (the (ci_inner it)) = [] \<longrightarrow> le = ci_last_error it)"
proof (cases "ci_inner it")
  case None
  then show ?thesis
    by (intro exI [of _ None] exI [of _ "ci_last_error it"]) (cases it, simp add: next_commit.simps next_commit_round_def)
next
  case (Some p)
  then obtain h t where p: "ci_inner it = Some (h, t)" "log_format_version h \<noteq> 0" "torn crc t"
    using assms by (cases p) (auto simp: at_end_def)
  consider "stored_commit_decode_internal crc (log_format_version h) t = (Inr None, [])"
    | "stored_commit_decode_internal crc (log_format_version h) t = (Inl UnexpectedEof, [])" "t \<noteq> []"
    using torn_decode [OF p(3,2)] p(2) by (cases "t = []") auto
  then show ?thesis
  proof cases
    case 1
    then show ?thesis using p
      by (intro exI [of _ "Some (h, [])"] exI [of _ "ci_last_error it"])
        (cases it, simp add: next_commit.simps next_commit_round_def)
  next
    case 2
    then show ?thesis using p
      by (intro exI [of _ "Some (h, [])"] exI [of _ "Some (TraversalIo UnexpectedEof)"])
        (simp add: next_commit.simps next_commit_round_def set_last_error_def)
  qed
qed

lemma commits_all_end:
  assumes "at_end crc it" and "ci_offs it = []"
  shows "\<exists>errs. commits_all crc it = map Inl errs \<and> length errs \<le> 1 \<and>
    (ci_last_error it = None \<and> (ci_inner it = None \<or> snd (the (ci_inner it)) = []) \<longrightarrow> errs = [])"
proof -
  obtain inner le where n: "next_commit crc it = (None, it\<lparr>ci_inner := inner, ci_last_error := le\<rparr>)"
    and inner: "inner = None \<or> (\<exists>h. inner = Some (h, []) \<and> log_format_version h \<noteq> 0)"
    and le: "ci_inner it = None \<or> snd (the (ci_inner it)) = [] \<longrightarrow> le = ci_last_error it"
    using next_commit_at_end [OF assms(1)] by blast
  let ?it = "it\<lparr>ci_inner := inner, ci_last_error := None\<rparr>"
  have first: "commits_next crc it = (map_option Inl le, ?it)"
    using assms(2) by (simp add: commits_next.simps [of crc it] n)
  have "next_commit crc ?it = (None, ?it)"
    using inner by (auto simp: next_commit.simps next_commit_round_def)
  then have "commits_next crc ?it = (None, ?it)"
    using assms(2) by (simp add: commits_next.simps [of crc ?it])
  then have "commits_all crc it = map Inl (case le of None \<Rightarrow> [] | Some e \<Rightarrow> [e])"
    by (cases le) (simp_all add: commits_all.simps [of crc it] commits_all.simps [of crc ?it] first)
  then show ?thesis using le by (intro exI [of _ "case le of None \<Rightarrow> [] | Some e \<Rightarrow> [e]"]) (auto split: option.split)
qed

lemma seek_zero: "snd (seek_to_offset ix 0 r) = r"
  using key_lookup_not_above [of ix 0] by (auto simp: seek_to_offset_def split: sum.split)

lemma try_seek_expected: "expects (ci_last_commit it) a \<Longrightarrow> try_seek_to_initial_offset it r = r"
  by (auto simp: expects_def try_seek_to_initial_offset_def seek_zero split: sum.split)

lemma enter_segment_file:
  assumes "bt_get (repo_segments (ci_repo it)) off = Some (seg_bytes crc h cs t)"
    and "ensure_compatible h (ci_max_version it) CHECKSUM_ALGORITHM_CRC32C = Inr ()" and "expects (ci_last_commit it) a"
  shows "enter_segment off it = Inr (it\<lparr>ci_inner := Some (h, commits_bytes crc cs @ t)\<rparr>)"
  using assms by (simp add: enter_segment_def open_segment_reader_def open_segment_def reader_new_def seg_bytes_def
      seg_header_roundtrip try_seek_expected)

lemma commits_all_enter:
  assumes "at_end crc it" and "ci_offs it = off # offs"
    and "bt_get (repo_segments (ci_repo it)) off = Some (seg_bytes crc h cs t)"
    and "ensure_compatible h (ci_max_version it) CHECKSUM_ALGORITHM_CRC32C = Inr ()" and "expects (ci_last_commit it) a"
  shows "\<exists>le. commits_all crc it =
    commits_all crc (it\<lparr>ci_inner := Some (h, commits_bytes crc cs @ t), ci_offs := offs, ci_last_error := le\<rparr>)"
proof -
  obtain inner le where n: "next_commit crc it = (None, it\<lparr>ci_inner := inner, ci_last_error := le\<rparr>)"
    using next_commit_at_end [OF assms(1)] by blast
  let ?it = "it\<lparr>ci_inner := inner, ci_last_error := le, ci_offs := offs\<rparr>"
  have "enter_segment off ?it = Inr (?it\<lparr>ci_inner := Some (h, commits_bytes crc cs @ t)\<rparr>)"
    using assms by (intro enter_segment_file) simp_all
  then have "commits_next crc it = commits_next crc (?it\<lparr>ci_inner := Some (h, commits_bytes crc cs @ t)\<rparr>)"
    using assms(2) by (simp add: commits_next.simps [of crc it] n)
  then have "commits_all crc it = commits_all crc (?it\<lparr>ci_inner := Some (h, commits_bytes crc cs @ t)\<rparr>)"
    by (rule commits_all_cong)
  then show ?thesis by (intro exI [of _ le]) (cases it, simp)
qed

text \<open>The iterator reports no error at its end if the last segment has a commit and is not torn.\<close>

definition quiet :: "commits_iter \<Rightarrow> seg_file list \<Rightarrow> bool" where
  "quiet it files \<longleftrightarrow>
     (if files = [] then ci_last_error it = None \<and> (ci_inner it = None \<or> snd (the (ci_inner it)) = [])
      else fst (snd (last files)) \<noteq> [] \<and> snd (snd (last files)) = [])"

lemma commits_all_files:
  "at_end crc it \<Longrightarrow> ci_offs it = map fst files \<Longrightarrow> files_chain crc a files b \<Longrightarrow> expects (ci_last_commit it) a \<Longrightarrow>
   (\<forall>(off, cs, t)\<in>set files. bt_get (repo_segments (ci_repo it)) off = Some (seg_bytes crc h cs t)) \<Longrightarrow>
   ensure_compatible h (ci_max_version it) CHECKSUM_ALGORITHM_CRC32C = Inr () \<Longrightarrow> log_format_version h \<noteq> 0 \<Longrightarrow>
   \<exists>errs. commits_all crc it = map (\<lambda>c. Inr (as_stored crc c)) (file_commits files) @ map Inl errs \<and> length errs \<le> 1 \<and>
     (quiet it files \<longrightarrow> errs = [])"
proof (induction files arbitrary: it a)
  case Nil
  then show ?case using commits_all_end [of crc it] by (simp add: quiet_def)
next
  case (Cons f files)
  obtain off cs t where f: "f = (off, cs, t)" by (cases f)
  obtain m where m: "list_all commit_ok cs" "torn crc t" "offsets_chain a cs m" "files_chain crc m files b"
    using Cons.prems(3) by (auto simp: f)
  obtain le where le: "commits_all crc it = commits_all crc (it\<lparr>ci_inner := Some (h, commits_bytes crc cs @ t),
      ci_offs := map fst files, ci_last_error := le\<rparr>)"
    using commits_all_enter [of crc it off "map fst files" h cs t a] Cons.prems by (auto simp: f)
  let ?it = "it\<lparr>ci_inner := Some (h, commits_bytes crc cs @ t), ci_offs := map fst files, ci_last_error := le\<rparr>"
  obtain lc where lc: "expects lc m" "commits_all crc ?it = map (\<lambda>c. Inr (as_stored crc c)) cs @
      commits_all crc (?it\<lparr>ci_inner := Some (h, t), ci_last_commit := lc, ci_last_error := (if cs = [] then ci_last_error ?it else None)\<rparr>)"
    using commits_all_reads [of ?it h crc cs t a m] Cons.prems m by auto
  let ?it2 = "?it\<lparr>ci_inner := Some (h, t), ci_last_commit := lc, ci_last_error := (if cs = [] then ci_last_error ?it else None)\<rparr>"
  have "\<exists>errs. commits_all crc ?it2 = map (\<lambda>c. Inr (as_stored crc c)) (file_commits files) @ map Inl errs \<and>
      length errs \<le> 1 \<and> (quiet ?it2 files \<longrightarrow> errs = [])"
    by (rule Cons.IH [of ?it2 m]) (use Cons.prems m lc(1) in \<open>simp_all add: at_end_def\<close>)
  then obtain errs where "commits_all crc ?it2 = map (\<lambda>c. Inr (as_stored crc c)) (file_commits files) @ map Inl errs"
    "length errs \<le> 1" "quiet ?it2 files \<longrightarrow> errs = []"
    by blast
  moreover have "quiet it (f # files) \<Longrightarrow> quiet ?it2 files" by (auto simp: quiet_def f)
  ultimately show ?case using le lc(2) by (intro exI [of _ errs]) (auto simp: f)
qed

subsection \<open>Numbers of transactions\<close>

definition tx_total :: "commit list \<Rightarrow> nat" where
  "tx_total cs = (\<Sum>c\<leftarrow>cs. unat (n_records c))"

lemma total_simps [simp]: "tx_total [] = 0" "tx_total (c # cs) = unat (n_records c) + tx_total cs" "tx_total (cs @ ds) = tx_total cs + tx_total ds"
  by (simp_all add: tx_total_def)

lemma unat_n: "unat (ucast n :: u64) = unat n" for n :: u16
proof -
  have "unat n < 2 ^ LENGTH(16)" by (rule unsigned_less)
  then have "unat (of_nat (unat n) :: u64) = unat n" by (intro unat_of_nat_id) simp
  then show ?thesis by simp
qed

lemma offsets_chain_total:
  "offsets_chain a cs b \<Longrightarrow> unat a + tx_total cs < 2 ^ 64 \<Longrightarrow> unat b = unat a + tx_total cs"
proof (induction cs arbitrary: a)
  case (Cons c cs)
  have "unat (a + ucast (n_records c)) = unat a + unat (n_records c)"
    using Cons.prems(2) by (simp add: unat_word_ariths unat_n)
  moreover have "offsets_chain (a + ucast (n_records c)) cs b" using Cons.prems(1) by simp
  ultimately show ?case using Cons.IH [of "a + ucast (n_records c)"] Cons.prems(2) by simp
qed simp

lemma files_chain_total:
  "files_chain crc a files b \<Longrightarrow> unat a + tx_total (file_commits files) < 2 ^ 64 \<Longrightarrow>
   unat b = unat a + tx_total (file_commits files)"
proof (induction files arbitrary: a)
  case (Cons f files)
  obtain off cs t where f: "f = (off, cs, t)" by (cases f)
  obtain m where m: "offsets_chain a cs m" "files_chain crc m files b" using Cons.prems(1) by (auto simp: f)
  have "unat m = unat a + tx_total cs" using m(1) Cons.prems(2) by (intro offsets_chain_total) (simp_all add: f)
  with Cons.IH [OF m(2)] Cons.prems(2) show ?case by (simp add: f)
qed simp

lemma total_pos: "list_all commit_ok cs \<Longrightarrow> cs \<noteq> [] \<Longrightarrow> 0 < tx_total cs"
  by (cases cs) (auto simp: commit_ok_def unat_gt_0)

lemma files_chain_sorted:
  "files_chain crc a files b \<Longrightarrow> unat a + tx_total (file_commits files) < 2 ^ 64 \<Longrightarrow> \<forall>f\<in>set files. fst (snd f) \<noteq> [] \<Longrightarrow>
   sorted_wrt (<) (map fst files @ [b])"
proof (induction files arbitrary: a)
  case (Cons f files)
  obtain off cs t where f: "f = (off, cs, t)" by (cases f)
  obtain m where m: "off = a" "list_all commit_ok cs" "offsets_chain a cs m" "files_chain crc m files b"
    using Cons.prems(1) by (auto simp: f)
  have tot: "unat m = unat a + tx_total cs" using m(3) Cons.prems(2) by (intro offsets_chain_total) (simp_all add: f)
  have "cs \<noteq> []" using Cons.prems(3) by (simp add: f)
  with tot total_pos [OF m(2)] have less: "a < m" by (simp add: word_less_nat_alt)
  have sorted: "sorted_wrt (<) (map fst files @ [b])"
    using Cons.IH [OF m(4)] Cons.prems(2,3) tot by (simp add: f)
  have "\<forall>x\<in>set (map fst files @ [b]). m \<le> x"
  proof (cases files)
    case Nil
    then show ?thesis using m(4) by simp
  next
    case (Cons g gs)
    then have "fst g = m" using m(4) by (cases g) simp
    then show ?thesis using sorted by (auto simp: Cons)
  qed
  with less sorted m(1) show ?case by (auto simp: f)
qed simp

subsection \<open>The state of a log\<close>

definition log_header :: "options \<Rightarrow> seg_header" where
  "log_header opts = \<lparr>log_format_version = opt_log_format_version opts, checksum_algorithm = CHECKSUM_ALGORITHM_CRC32C\<rparr>"

definition file_entries :: "(byte list \<Rightarrow> u32) \<Rightarrow> seg_header \<Rightarrow> seg_file list \<Rightarrow> (u64, byte list) btree" where
  "file_entries crc32c h files = map (\<lambda>(off, cs, t). (off, seg_bytes crc32c h cs t)) files"

definition head_state :: "(byte list \<Rightarrow> u32) \<Rightarrow> seg_header \<Rightarrow> commit list \<Rightarrow> byte list \<Rightarrow> seg_writer \<Rightarrow> bool" where
  "head_state crc32c h cs t w \<longleftrightarrow>
     w_storage w = seg_bytes crc32c h cs t \<and> w_bytes_written w = of_nat (length (seg_bytes crc32c h cs [])) \<and>
     list_all commit_ok cs \<and> torn crc32c t \<and> offsets_chain (w_min_tx_offset w) cs (next_tx_offset w)"

text \<open>At most \<open>N\<close> transactions were given to the log, none longer than 64 KiB, so that commits stay below
  4 GiB and offsets below \<open>2 ^ 64\<close>.\<close>

definition pending_ok :: "commit \<Rightarrow> bool" where
  "pending_ok c \<longleftrightarrow> length (records c) \<le> unat (n_records c) * 65536"

definition log_frame :: "(byte list \<Rightarrow> u32) \<Rightarrow> nat \<Rightarrow> seg_file list \<Rightarrow> commit list \<Rightarrow> byte list \<Rightarrow> commitlog \<Rightarrow> bool" where
  "log_frame crc32c N segs cs t log \<longleftrightarrow>
     opt_log_format_version (log_opts log) \<noteq> 0 \<and> head_state crc32c (log_header (log_opts log)) cs t (log_head log) \<and>
     (\<exists>x. repo_segments (log_repo log) = file_entries crc32c (log_header (log_opts log)) segs @ [(w_min_tx_offset (log_head log), x)]) \<and>
     log_tail log = map fst segs \<and> files_chain crc32c 0 segs (w_min_tx_offset (log_head log)) \<and>
     (\<forall>f\<in>set segs. fst (snd f) \<noteq> []) \<and>
     tx_total (file_commits segs @ cs) + unat (n_records (w_commit (log_head log))) \<le> N \<and> N < 2 ^ 64 \<and>
     pending_ok (w_commit (log_head log))"

definition log_state :: "(byte list \<Rightarrow> u32) \<Rightarrow> nat \<Rightarrow> seg_file list \<Rightarrow> commit list \<Rightarrow> byte list \<Rightarrow> commitlog \<Rightarrow> bool" where
  "log_state crc32c N segs cs t log \<longleftrightarrow>
     log_frame crc32c N segs cs t log \<and>
     bt_get (repo_segments (log_repo log)) (w_min_tx_offset (log_head log)) = Some (w_storage (log_head log))"

lemma pending_fits:
  assumes "pending_ok c"
  shows "commit_fits c"
proof -
  have "unat (n_records c) < 2 ^ LENGTH(16)" by (rule unsigned_less)
  then have "unat (n_records c) \<le> 65535" by simp
  then have "unat (n_records c) * 65536 \<le> 65535 * 65536" by simp
  with assms show ?thesis by (simp add: pending_ok_def commit_fits_def)
qed

lemma fst_file_entries [simp]: "map fst (file_entries crc h files) = map fst files"
  by (simp add: file_entries_def case_prod_unfold)

lemma log_frame_sorted:
  assumes "log_frame crc N segs cs t log"
  shows "sorted_wrt (<) (map fst segs @ [w_min_tx_offset (log_head log)])"
  using assms by (intro files_chain_sorted [where a = 0]) (auto simp: log_frame_def)

lemma bt_insert_end: "\<forall>x\<in>set (map fst m). x < k \<Longrightarrow> bt_insert k v m = m @ [(k, v)]"
  by (induction m) auto

lemma bt_insert_last: "\<forall>x\<in>set (map fst m). x < k \<Longrightarrow> bt_insert k v (m @ [(k, v')]) = m @ [(k, v)]"
  by (induction m) auto

lemma head_not_in_tail:
  assumes "log_frame crc N segs cs t log"
  shows "map_of (file_entries crc h segs) (w_min_tx_offset (log_head log)) = None"
proof -
  have "w_min_tx_offset (log_head log) \<notin> set (map fst segs)"
    using log_frame_sorted [OF assms] by (metis Un_iff less_irrefl list.set_intros(1) sorted_wrt_append)
  then show ?thesis by (simp only: map_of_eq_None_iff flip: set_map fst_file_entries) simp
qed

lemma log_state_files:
  assumes "log_state crc N segs cs t log"
  shows "repo_segments (log_repo log) =
    file_entries crc (log_header (log_opts log)) (segs @ [(w_min_tx_offset (log_head log), cs, t)])"
proof -
  obtain x where x: "repo_segments (log_repo log) =
      file_entries crc (log_header (log_opts log)) segs @ [(w_min_tx_offset (log_head log), x)]"
    using assms by (auto simp: log_state_def log_frame_def)
  have fr: "log_frame crc N segs cs t log" using assms by (simp add: log_state_def)
  then have "x = seg_bytes crc (log_header (log_opts log)) cs t"
    using assms head_not_in_tail [OF fr] by (simp add: log_state_def log_frame_def head_state_def x bt_get_def map_add_def)
  then show ?thesis by (simp add: x file_entries_def)
qed

lemma write_back_state:
  assumes "log_frame crc N segs cs t log"
  shows "log_state crc N segs cs t (write_back log)"
proof -
  let ?k = "w_min_tx_offset (log_head log)" and ?h = "log_header (log_opts log)"
  obtain x where x: "repo_segments (log_repo log) = file_entries crc ?h segs @ [(?k, x)]"
    using assms by (auto simp: log_frame_def)
  have less: "\<forall>j\<in>set (map fst (file_entries crc ?h segs)). j < ?k"
    using log_frame_sorted [OF assms] by (simp add: sorted_wrt_append)
  have "map_of (file_entries crc ?h segs) ?k = None" by (rule head_not_in_tail [OF assms])
  then have "bt_get (file_entries crc ?h segs @ [(?k, w_storage (log_head log))]) ?k = Some (w_storage (log_head log))"
    by (simp add: bt_get_def map_add_def)
  moreover have "bt_insert ?k (w_storage (log_head log)) (repo_segments (log_repo log)) =
      file_entries crc ?h segs @ [(?k, w_storage (log_head log))]"
    unfolding x by (rule bt_insert_last [OF less])
  ultimately show ?thesis using assms by (simp add: log_state_def log_frame_def write_back_def Let_def)
qed

subsection \<open>The operations on the state\<close>

lemma create_segment_writer_fresh:
  assumes "bt_get (repo_segments repo) off = None" and "\<forall>x\<in>set (map fst (repo_segments repo)). x < off"
  shows "\<exists>w repo'. create_segment_writer opts ep off repo = (Inr w, repo') \<and>
    repo_segments repo' = repo_segments repo @ [(off, seg_bytes crc (log_header opts) [] [])] \<and>
    w_storage w = seg_bytes crc (log_header opts) [] [] \<and> w_min_tx_offset w = off \<and>
    w_bytes_written w = of_nat SEG_HEADER_LEN \<and> next_tx_offset w = off \<and> n_records (w_commit w) = 0 \<and> records (w_commit w) = []"
proof -
  have ins: "bt_insert off v (repo_segments repo @ [(off, [])]) = repo_segments repo @ [(off, v)]" for v
    by (rule bt_insert_last [OF assms(2)])
  have "repo_segments (snd (create_offset_index_writer off opts r)) = repo_segments r" for r
    by (auto simp: create_offset_index_writer_def create_offset_index_def Let_def split: option.split prod.split)
  then show ?thesis
    using assms(1) ins
    by (simp add: create_segment_writer_def create_segment_def andThen_def Let_def case_prod_unfold
        bt_insert_end [OF assms(2)] seg_bytes_def log_header_def next_tx_offset_def)
qed

lemma create_segment_writer_exists:
  assumes "bt_get (repo_segments repo) off = Some b" and "b \<noteq> []"
  shows "create_segment_writer opts ep off repo = (Inl AlreadyExists, repo)"
  using assms by (simp add: create_segment_writer_def create_segment_def andThen_def)

lemma head_next:
  assumes "log_frame crc N segs cs t log"
  shows "w_min_tx_offset (log_head log) \<le> next_tx_offset (log_head log)"
    and "cs \<noteq> [] \<Longrightarrow> w_min_tx_offset (log_head log) < next_tx_offset (log_head log)"
    and "cs = [] \<Longrightarrow> next_tx_offset (log_head log) = w_min_tx_offset (log_head log)"
proof -
  let ?a = "w_min_tx_offset (log_head log)" and ?b = "next_tx_offset (log_head log)"
  have c: "list_all commit_ok cs" "offsets_chain ?a cs ?b" "files_chain crc 0 segs ?a"
    and lt: "tx_total (file_commits segs) + tx_total cs < 2 ^ 64"
    using assms by (auto simp: log_frame_def head_state_def)
  have "unat ?a = tx_total (file_commits segs)" using files_chain_total [OF c(3)] lt by simp
  then have "unat ?b = unat ?a + tx_total cs" using offsets_chain_total [OF c(2)] lt by simp
  then show "?a \<le> ?b" "cs \<noteq> [] \<Longrightarrow> ?a < ?b"
    using total_pos [OF c(1)] by (simp_all add: word_le_nat_alt word_less_nat_alt)
  show "cs = [] \<Longrightarrow> ?b = ?a" using c(2) by simp
qed

lemma seg_bytes_nonempty [simp]: "seg_bytes crc h cs t \<noteq> []"
  by (simp add: seg_bytes_def seg_header_write_def put_slice_def)

lemma start_new_segment_state:
  assumes st: "log_state crc N segs cs t log"
  shows "cs = [] \<Longrightarrow> fst (start_new_segment log) = Inl AlreadyExists"
    and "cs \<noteq> [] \<Longrightarrow> fst (start_new_segment log) = Inr () \<and>
      log_state crc N (segs @ [(w_min_tx_offset (log_head log), cs, t)]) [] [] (snd (start_new_segment log)) \<and>
      w_commit (log_head (snd (start_new_segment log))) = w_commit (log_head log)"
proof -
  let ?a = "w_min_tx_offset (log_head log)" and ?b = "next_tx_offset (log_head log)" and ?h = "log_header (log_opts log)"
  have fr: "log_frame crc N segs cs t log" and get: "bt_get (repo_segments (log_repo log)) ?a = Some (w_storage (log_head log))"
    using st by (simp_all add: log_state_def)
  have hd: "head_state crc ?h cs t (log_head log)" using fr by (simp add: log_frame_def)
  show "cs = [] \<Longrightarrow> fst (start_new_segment log) = Inl AlreadyExists"
    using head_next(3) [OF fr] get hd
    by (simp add: start_new_segment_def create_segment_writer_exists head_state_def)
  assume cs: "cs \<noteq> []"
  obtain x where x: "repo_segments (log_repo log) = file_entries crc ?h segs @ [(?a, x)]" using fr by (auto simp: log_frame_def)
  note entries = log_state_files [OF st]
  have keys: "\<forall>j\<in>set (map fst (repo_segments (log_repo log))). j < ?b"
    using log_frame_sorted [OF fr] head_next(2) [OF fr cs] unfolding x
    by (auto simp: sorted_wrt_append simp flip: set_map dest: less_trans)
  then have "bt_get (repo_segments (log_repo log)) ?b = None"
    unfolding bt_get_def map_of_eq_None_iff set_map by (metis image_eqI less_irrefl set_map)
  from create_segment_writer_fresh [OF this keys, of "log_opts log" "writer_epoch (log_head log)" crc]
  obtain w repo' where w: "create_segment_writer (log_opts log) (writer_epoch (log_head log)) ?b (log_repo log) = (Inr w, repo')"
    "repo_segments repo' = repo_segments (log_repo log) @ [(?b, seg_bytes crc ?h [] [])]"
    "w_storage w = seg_bytes crc ?h [] []" "w_min_tx_offset w = ?b" "w_bytes_written w = of_nat SEG_HEADER_LEN"
    by blast
  have "log_frame crc N (segs @ [(?a, cs, t)]) [] [] (snd (start_new_segment log))"
    using fr hd cs w entries
    by (auto simp: start_new_segment_def log_frame_def head_state_def files_chain_append next_tx_offset_def seg_bytes_def)
  moreover have "bt_get (repo_segments repo') ?b = Some (w_storage w)"
    using \<open>bt_get (repo_segments (log_repo log)) ?b = None\<close> by (simp add: w bt_get_def map_add_def)
  ultimately show "fst (start_new_segment log) = Inr () \<and>
      log_state crc N (segs @ [(?a, cs, t)]) [] [] (snd (start_new_segment log)) \<and>
      w_commit (log_head (snd (start_new_segment log))) = w_commit (log_head log)"
    by (simp add: start_new_segment_def log_state_def w)
qed

lemma log_sync_state:
  assumes "log_state crc N segs cs t log"
  shows "log_state crc N segs cs t (log_sync log)" and "w_commit (log_head (log_sync log)) = w_commit (log_head log)"
    and "w_min_tx_offset (log_head (log_sync log)) = w_min_tx_offset (log_head log)"
proof -
  have "log_frame crc N segs cs t (log\<lparr>log_head := writer_fsync (log_head log)\<rparr>)"
    using assms by (simp add: log_state_def log_frame_def head_state_def writer_fsync_def next_tx_offset_def)
  then show "log_state crc N segs cs t (log_sync log)" unfolding log_sync_def by (rule write_back_state)
qed (simp_all add: log_sync_def write_back_def writer_fsync_def Let_def)

lemma log_append_state:
  assumes st: "log_state crc N segs cs [] log" and len: "length (enc r) \<le> 65536" and "Suc N < 2 ^ 64"
  shows "log_state crc (Suc N) segs cs [] (snd (log_append enc r log))"
proof (cases "fst (writer_append enc r (log_head log))")
  case (Inl r')
  then have "snd (log_append enc r log) = log"
    by (cases log) (auto simp: log_append_def writer_append_def Let_def split: if_splits)
  then show ?thesis using assms by (auto simp: log_state_def log_frame_def)
next
  case (Inr u)
  let ?c = "w_commit (log_head log)"
  have n: "n_records ?c \<noteq> 0xFFFF" using Inr by (auto simp: writer_append_def Let_def split: if_splits)
  have "1 + n_records ?c \<noteq> 0"
  proof
    assume "1 + n_records ?c = 0"
    then have "n_records ?c = - 1" by (metis add_eq_0_iff)
    with n show False by simp
  qed
  then have "unat (n_records ?c + 1) = Suc (unat (n_records ?c))" using unatSuc [of "n_records ?c"] by (simp add: add.commute)
  then show ?thesis using assms Inr
    by (auto simp: log_append_def writer_append_def Let_def log_state_def log_frame_def head_state_def next_tx_offset_def
        pending_ok_def put_slice_def split: if_splits)
qed

lemma log_append_next [simp]: "next_tx_offset (log_head (snd (log_append enc r log))) = next_tx_offset (log_head log)"
  by (auto simp: log_append_def writer_append_def Let_def next_tx_offset_def split: if_splits)

lemma writer_commit_frame:
  assumes "log_state crc N segs cs [] log"
  shows "log_state crc N segs (if n_records (w_commit (log_head log)) = 0 then cs else cs @ [w_commit (log_head log)]) []
    (write_back (log\<lparr>log_head := snd (writer_commit crc (log_head log))\<rparr>))"
proof (cases "n_records (w_commit (log_head log)) = 0")
  case True
  moreover have "log_state crc N segs cs [] (write_back log)" using assms by (intro write_back_state) (simp add: log_state_def)
  ultimately show ?thesis by (simp add: writer_commit_def)
next
  case False
  let ?c = "w_commit (log_head log)"
  have "commit_ok ?c" using assms False pending_fits by (simp add: log_state_def log_frame_def commit_ok_def)
  then have "log_frame crc N segs (cs @ [?c]) [] (log\<lparr>log_head := snd (writer_commit crc (log_head log))\<rparr>)"
    using assms False
    by (auto simp: writer_commit_def commit_write_out Let_def log_state_def log_frame_def head_state_def next_tx_offset_def
        offsets_chain_append seg_bytes_def length_commit_bytes pending_ok_def)
  with False show ?thesis by (simp add: write_back_state)
qed

lemma head_commit_fails:
  assumes "head_commit crc quota w = (Inl e, w')"
  shows "\<exists>k < encoded_len (w_commit w). w' = w\<lparr>w_storage := w_storage w @ take k (commit_bytes crc (w_commit w))\<rparr> \<and>
    e = OtherIo ''write''"
  using assms by (auto simp: head_commit_def commit_write_out split: option.splits if_splits prod.splits)

lemma head_commit_succeeds:
  assumes "head_commit crc quota w = (Inr res, w')"
  shows "w' = snd (writer_commit crc w) \<and> res = fst (writer_commit crc w)"
  using assms by (auto simp: head_commit_def split: option.splits if_splits prod.splits)

lemma torn_write_frame:
  assumes "log_state crc N segs cs [] log" and "k < encoded_len (w_commit (log_head log))"
  shows "log_state crc N segs cs (take k (commit_bytes crc (w_commit (log_head log))))
    (write_back (log\<lparr>log_head := (log_head log)\<lparr>w_storage := w_storage (log_head log) @
       take k (commit_bytes crc (w_commit (log_head log)))\<rparr>\<rparr>))"
proof (rule write_back_state)
  have "torn crc (take k (commit_bytes crc (w_commit (log_head log))))"
    using assms pending_fits [of "w_commit (log_head log)"] unfolding torn_def log_state_def log_frame_def length_commit_bytes by blast
  then show "log_frame crc N segs cs (take k (commit_bytes crc (w_commit (log_head log))))
      (log\<lparr>log_head := (log_head log)\<lparr>w_storage := w_storage (log_head log) @ take k (commit_bytes crc (w_commit (log_head log)))\<rparr>\<rparr>)"
    using assms(1) by (simp add: log_state_def log_frame_def head_state_def next_tx_offset_def seg_bytes_def)
qed

text \<open>The commit an operation added to the log, if any.\<close>

definition commit_made :: "commitlog \<Rightarrow> commitlog \<Rightarrow> commit list" where
  "commit_made log log' = (if next_tx_offset (log_head log') = next_tx_offset (log_head log) then [] else [w_commit (log_head log)])"

definition log_holds :: "(byte list \<Rightarrow> u32) \<Rightarrow> nat \<Rightarrow> commit list \<Rightarrow> commitlog \<Rightarrow> bool" where
  "log_holds crc32c N all log \<longleftrightarrow> (\<exists>segs cs. log_state crc32c N segs cs [] log \<and> all = file_commits segs @ cs)"

text \<open>Writing the buffer of the head, after the rotation.\<close>

lemma head_commit_holds:
  assumes st: "log_state crc N segs cs [] l"
    and res: "(case head_commit crc quota (log_head l) of
         (Inr res, w) \<Rightarrow> (Inr res, write_back (l\<lparr>log_head := w\<rparr>))
       | (Inl e, w) \<Rightarrow> andThen start_new_segment (\<lambda>_. fail_with e) (write_back (l\<lparr>log_head := w\<rparr>))) = (res, log')"
    and ok: "res \<noteq> Inl AlreadyExists"
  shows "log_holds crc N (file_commits segs @ cs @ commit_made l log') log'"
proof (cases "head_commit crc quota (log_head l)")
  case (Pair r w)
  show ?thesis
  proof (cases r)
    case (Inr c)
    with Pair have w: "w = snd (writer_commit crc (log_head l))" using head_commit_succeeds by blast
    have log': "log' = write_back (l\<lparr>log_head := w\<rparr>)" using res by (simp add: Pair Inr)
    have "commit_made l log' = (if n_records (w_commit (log_head l)) = 0 then [] else [w_commit (log_head l)])"
      using ucast_n_nonzero [of "n_records (w_commit (log_head l))"]
      by (simp add: commit_made_def log' w write_back_def writer_commit_def Let_def case_prod_unfold next_tx_offset_def)
    with writer_commit_frame [OF st] show ?thesis
      unfolding log_holds_def log' w by (cases "n_records (w_commit (log_head l)) = 0") auto
  next
    case (Inl e)
    with Pair obtain k where k: "k < encoded_len (w_commit (log_head l))"
      "w = (log_head l)\<lparr>w_storage := w_storage (log_head l) @ take k (commit_bytes crc (w_commit (log_head l)))\<rparr>"
      using head_commit_fails [of crc quota "log_head l" e w] by auto
    define l' where "l' = write_back (l\<lparr>log_head := w\<rparr>)"
    have st': "log_state crc N segs cs (take k (commit_bytes crc (w_commit (log_head l)))) l'"
      unfolding l'_def k(2) by (rule torn_write_frame [OF st k(1)])
    have "fst (start_new_segment l') \<noteq> Inl AlreadyExists"
      using res ok by (auto simp: Pair Inl andThen_def fail_with_def l'_def split: prod.splits sum.splits)
    then have cs: "cs \<noteq> []" using start_new_segment_state(1) [OF st'] by blast
    note new = start_new_segment_state(2) [OF st' this]
    then have log': "log' = snd (start_new_segment l')"
      using res by (auto simp: Pair Inl andThen_def fail_with_def l'_def split: prod.splits sum.splits)
    have "w_commit (log_head l') = w_commit (log_head l)" by (simp add: l'_def write_back_def k(2) Let_def)
    with new have "commit_made l log' = []" by (simp add: commit_made_def log' next_tx_offset_def)
    with new show ?thesis unfolding log_holds_def log'
      by (intro exI [of _ "segs @ [(w_min_tx_offset (log_head l'), cs, take k (commit_bytes crc (w_commit (log_head l))))]"]
          exI [of _ "[]"]) simp
  qed
qed

lemma log_commit_holds:
  assumes "log_holds crc N all log" and "log_commit crc quota log = (res, log')" and "res \<noteq> Inl AlreadyExists"
  shows "log_holds crc N (all @ commit_made log log') log'"
proof -
  obtain segs cs where st: "log_state crc N segs cs [] log" "all = file_commits segs @ cs"
    using assms(1) by (auto simp: log_holds_def)
  show ?thesis
  proof (cases "should_rotate log")
    case False
    then show ?thesis using head_commit_holds [OF st(1)] assms(2,3) by (simp add: log_commit_def andThen_def ret_def st(2))
  next
    case True
    note sync = log_sync_state [OF st(1)]
    let ?l = "snd (start_new_segment (log_sync log))"
    have "fst (start_new_segment (log_sync log)) \<noteq> Inl AlreadyExists"
      using assms(2,3) True by (auto simp: log_commit_def andThen_def split: prod.splits sum.splits)
    then have "cs \<noteq> []" using start_new_segment_state(1) [OF sync(1)] by blast
    note new = start_new_segment_state(2) [OF sync(1) this]
    have "commit_made ?l log' = commit_made log log'"
      using new sync(2) by (simp add: commit_made_def next_tx_offset_def)
    moreover have "log_holds crc N (file_commits (segs @ [(w_min_tx_offset (log_head (log_sync log)), cs, [])]) @ [] @ commit_made ?l log') log'"
    proof (rule head_commit_holds [of crc N _ "[]" ?l quota res])
      show "(case head_commit crc quota (log_head ?l) of
         (Inr res, w) \<Rightarrow> (Inr res, write_back (?l\<lparr>log_head := w\<rparr>))
       | (Inl e, w) \<Rightarrow> andThen start_new_segment (\<lambda>_. fail_with e) (write_back (?l\<lparr>log_head := w\<rparr>))) = (res, log')"
        using assms(2) True new unfolding log_commit_def andThen_def if_P [OF True]
        by (cases "start_new_segment (log_sync log)" rule: prod.exhaust) (simp only: fst_conv snd_conv prod.case sum.case)
    qed (use new assms(3) in auto)
    ultimately show ?thesis by (simp add: st(2))
  qed
qed

subsection \<open>Sequences of operations\<close>

text \<open>Each operation that writes comes with the number of bytes the storage takes before it fails.\<close>

datatype 'r log_op =
    Append 'r
  | AppendMaybeFlush "nat option" 'r
  | Commit "nat option"
  | SetEpoch "nat option" u64
  | Sync

fun log_step :: "(byte list \<Rightarrow> u32) \<Rightarrow> ('r \<Rightarrow> byte list) \<Rightarrow> 'r log_op \<Rightarrow> commitlog \<Rightarrow> io_error option \<times> commitlog" where
  "log_step crc32c enc (Append r) log = (None, snd (log_append enc r log))"
| "log_step crc32c enc (AppendMaybeFlush quota r) log =
     (case append_maybe_flush crc32c quota enc r log of (Inl (_, e), l) \<Rightarrow> (Some e, l) | (Inr _, l) \<Rightarrow> (None, l))"
| "log_step crc32c enc (Commit quota) log =
     (case log_commit crc32c quota log of (Inl e, l) \<Rightarrow> (Some e, l) | (Inr _, l) \<Rightarrow> (None, l))"
| "log_step crc32c enc (SetEpoch quota ep) log =
     (case log_set_epoch crc32c quota ep log of (Inl e, l) \<Rightarrow> (Some e, l) | (Inr _, l) \<Rightarrow> (None, l))"
| "log_step crc32c enc Sync log = (None, log_sync log)"

text \<open>A client stops at \<^verbatim>\<open>AlreadyExists\<close>, as the documentation asks; the commits made come with the log.\<close>

fun run_log :: "(byte list \<Rightarrow> u32) \<Rightarrow> ('r \<Rightarrow> byte list) \<Rightarrow> 'r log_op list \<Rightarrow> commitlog \<Rightarrow> (commit list \<times> commitlog) option" where
  "run_log crc32c enc [] log = Some ([], log)"
| "run_log crc32c enc (op # ops) log =
     (case log_step crc32c enc op log of
        (e, l) \<Rightarrow> if e = Some AlreadyExists then None
                  else map_option (\<lambda>(cs, l'). (commit_made log l @ cs, l')) (run_log crc32c enc ops l))"

fun op_small :: "('r \<Rightarrow> byte list) \<Rightarrow> 'r log_op \<Rightarrow> bool" where
  "op_small enc (Append r) \<longleftrightarrow> length (enc r) \<le> 65536"
| "op_small enc (AppendMaybeFlush _ r) \<longleftrightarrow> length (enc r) \<le> 65536"
| "op_small enc _ \<longleftrightarrow> True"

lemma log_state_mono: "log_state crc N segs cs t log \<Longrightarrow> Suc N < 2 ^ 64 \<Longrightarrow> log_state crc (Suc N) segs cs t log"
  by (auto simp: log_state_def log_frame_def)

lemma log_holds_mono: "log_holds crc N all log \<Longrightarrow> Suc N < 2 ^ 64 \<Longrightarrow> log_holds crc (Suc N) all log"
  unfolding log_holds_def using log_state_mono [of crc N _ _ "[]" log] by metis

lemma log_append_holds:
  "log_holds crc N all log \<Longrightarrow> length (enc r) \<le> 65536 \<Longrightarrow> Suc N < 2 ^ 64 \<Longrightarrow>
   log_holds crc (Suc N) all (snd (log_append enc r log))"
  unfolding log_holds_def using log_append_state [of crc N _ _ log enc r] by metis

lemma commit_made_append [simp]:
  "commit_made log (snd (log_append enc r log')) = commit_made log log'" "commit_made log log = []"
  by (simp_all add: commit_made_def)

lemma log_append_rejected: "log_append enc r log = (Inl r', l) \<Longrightarrow> l = log \<and> r' = r"
  by (cases log) (auto simp: log_append_def writer_append_def Let_def split: if_splits)

lemma append_maybe_flush_holds:
  assumes "log_holds crc N all log" and "append_maybe_flush crc quota enc r log = (res, log')" and "\<forall>r. res \<noteq> Inl (r, AlreadyExists)"
    and len: "length (enc r) \<le> 65536" and N: "Suc N < 2 ^ 64"
  shows "log_holds crc (Suc N) (all @ commit_made log log') log'"
proof (cases "log_append enc r log")
  case (Pair x l)
  show ?thesis
  proof (cases x)
    case (Inr u)
    then have "log' = snd (log_append enc r log)" using assms(2) Pair by (simp add: append_maybe_flush_def)
    with log_append_holds [OF assms(1), of enc r, OF len N] show ?thesis by simp
  next
    case (Inl r')
    with Pair have l: "l = log" "r' = r" by (simp_all add: log_append_rejected)
    obtain y l2 where y: "log_commit crc quota log = (y, l2)" by force
    then have "y \<noteq> Inl AlreadyExists" using assms(2,3) Pair Inl l by (auto simp: append_maybe_flush_def)
    note held = log_commit_holds [OF assms(1) y this]
    show ?thesis
    proof (cases y)
      case (Inl e)
      then have "log' = l2" using assms(2) Pair \<open>x = Inl r'\<close> l y by (simp add: append_maybe_flush_def)
      with held N show ?thesis by (simp add: log_holds_mono)
    next
      case (Inr c)
      then have "log' = snd (log_append enc r l2)" using assms(2) Pair \<open>x = Inl r'\<close> l y by (simp add: append_maybe_flush_def)
      with log_append_holds [OF held, of enc r, OF len N] show ?thesis by simp
    qed
  qed
qed

lemma set_epoch_holds:
  "log_holds crc N all l \<Longrightarrow> log_holds crc N all (l\<lparr>log_head := writer_set_epoch ep (log_head l)\<rparr>)"
  by (auto simp: log_holds_def log_state_def log_frame_def head_state_def writer_set_epoch_def next_tx_offset_def pending_ok_def)

lemma log_set_epoch_holds:
  assumes "log_holds crc N all log" and "log_set_epoch crc quota ep log = (res, log')" and "res \<noteq> Inl AlreadyExists"
  shows "log_holds crc N (all @ commit_made log log') log'"
proof (cases "ep \<le> writer_epoch (log_head log)")
  case True
  then have "log' = log" using assms(2) by (auto simp: log_set_epoch_def split: if_splits)
  with assms(1) show ?thesis by simp
next
  case False
  obtain y l where y: "log_commit crc quota log = (y, l)" by force
  have eq: "(res, log') = (case y of Inl e \<Rightarrow> (Inl e, l) | Inr c \<Rightarrow> (Inr c, l\<lparr>log_head := writer_set_epoch ep (log_head l)\<rparr>))"
    using assms(2) False y by (auto simp: log_set_epoch_def andThen_def split: sum.split if_splits)
  then have "y \<noteq> Inl AlreadyExists" using assms(3) by (auto split: sum.splits)
  note held = log_commit_holds [OF assms(1) y this]
  moreover have "commit_made log (l\<lparr>log_head := writer_set_epoch ep (log_head l)\<rparr>) = commit_made log l"
    by (simp add: commit_made_def writer_set_epoch_def next_tx_offset_def)
  ultimately show ?thesis using eq set_epoch_holds by (auto split: sum.splits)
qed

lemma log_sync_holds: "log_holds crc N all log \<Longrightarrow> log_holds crc N (all @ commit_made log (log_sync log)) (log_sync log)"
proof -
  assume "log_holds crc N all log"
  then obtain segs cs where st: "log_state crc N segs cs [] log" "all = file_commits segs @ cs" by (auto simp: log_holds_def)
  note sync = log_sync_state [OF st(1)]
  then show ?thesis unfolding log_holds_def commit_made_def next_tx_offset_def
    by (intro exI [of _ segs] exI [of _ cs]) (simp add: st(2))
qed

lemma log_step_holds:
  assumes "log_holds crc N all log" and "op_small enc op" and "log_step crc enc op log = (e, log')" and "e \<noteq> Some AlreadyExists"
    and "Suc N < 2 ^ 64"
  shows "log_holds crc (Suc N) (all @ commit_made log log') log'"
proof (cases op)
  case (Append r)
  then show ?thesis using assms log_append_holds [of crc N all log enc r] by auto
next
  case (AppendMaybeFlush quota r)
  obtain res l where "append_maybe_flush crc quota enc r log = (res, l)" by force
  then show ?thesis using assms AppendMaybeFlush append_maybe_flush_holds [of crc N all log quota enc r res l]
    by (auto split: sum.splits prod.splits)
next
  case (Commit quota)
  obtain res l where "log_commit crc quota log = (res, l)" by force
  then show ?thesis using assms Commit log_commit_holds [of crc N all log quota res l]
    by (auto intro!: log_holds_mono split: sum.splits)
next
  case (SetEpoch quota ep)
  obtain res l where "log_set_epoch crc quota ep log = (res, l)" by force
  then show ?thesis using assms SetEpoch log_set_epoch_holds [of crc N all log quota ep res l]
    by (auto intro!: log_holds_mono split: sum.splits)
next
  case Sync
  then show ?thesis using assms log_sync_holds log_holds_mono by auto
qed

lemma run_log_holds:
  "log_holds crc N all log \<Longrightarrow> run_log crc enc ops log = Some (cs, log') \<Longrightarrow> list_all (op_small enc) ops \<Longrightarrow>
   N + length ops < 2 ^ 64 \<Longrightarrow> log_holds crc (N + length ops) (all @ cs) log'"
proof (induction ops arbitrary: N all log cs)
  case (Cons op ops)
  obtain e l where e: "log_step crc enc op log = (e, l)" by force
  then obtain ds where ds: "e \<noteq> Some AlreadyExists" "run_log crc enc ops l = Some (ds, log')" "cs = commit_made log l @ ds"
    using Cons.prems(2) by (auto split: if_splits)
  have "log_holds crc (Suc N) (all @ commit_made log l) l"
    using log_step_holds [OF Cons.prems(1) _ e ds(1)] Cons.prems(3,4) by simp
  from Cons.IH [OF this ds(2)] Cons.prems(3,4) show ?case by (simp add: ds(3))
qed simp

subsection \<open>A new log\<close>

lemma create_segment_writer_empty:
  assumes "repo_segments repo = []" and "create_segment_writer opts DEFAULT_EPOCH 0 repo = (Inr w, repo')"
    and "opt_log_format_version opts \<noteq> 0"
  shows "log_holds crc 0 [] \<lparr>log_repo = repo', log_head = w, log_tail = [], log_opts = opts\<rparr>"
proof -
  obtain w2 repo2 where w: "create_segment_writer opts DEFAULT_EPOCH 0 repo = (Inr w2, repo2)"
    "repo_segments repo2 = repo_segments repo @ [(0, seg_bytes crc (log_header opts) [] [])]"
    "w_storage w2 = seg_bytes crc (log_header opts) [] []" "w_min_tx_offset w2 = 0"
    "w_bytes_written w2 = of_nat SEG_HEADER_LEN" "next_tx_offset w2 = 0" "n_records (w_commit w2) = 0" "records (w_commit w2) = []"
    using create_segment_writer_fresh [of repo 0 opts DEFAULT_EPOCH crc] assms(1) by (auto simp: bt_get_def)
  then have "w2 = w" "repo2 = repo'" using assms(2) by simp_all
  with w assms have "log_state crc 0 [] [] [] \<lparr>log_repo = repo', log_head = w, log_tail = [], log_opts = opts\<rparr>"
    by (simp add: log_state_def log_frame_def head_state_def pending_ok_def bt_get_def file_entries_def seg_bytes_def)
  then show ?thesis by (auto simp: log_holds_def intro!: exI [of _ "[]"])
qed

lemma log_open_empty:
  assumes "repo_segments repo = []" and "log_open crc opts repo = (Inr log, repo')" and "opt_log_format_version opts \<noteq> 0"
  shows "log_holds crc 0 [] log"
  using assms create_segment_writer_empty [of repo opts _ _ crc]
  by (auto simp: log_open_def existing_offsets_def Let_def split: prod.splits sum.splits)

lemma ensure_compatible_own [simp]:
  "ensure_compatible (log_header opts) (opt_log_format_version opts) CHECKSUM_ALGORITHM_CRC32C = Inr ()"
  by (simp add: ensure_compatible_def log_header_def)

lemma from_last_le_first: "\<forall>x\<in>set as. 0 < x \<Longrightarrow> from_last_le 0 (0 # as) = Some (0 # as)"
proof -
  have "\<forall>x\<in>set as. (0 :: u64) < x \<Longrightarrow> from_last_le 0 as = None" for as
    by (induction as) (auto simp: word_le_nat_alt word_less_nat_alt)
  then show "\<forall>x\<in>set as. 0 < x \<Longrightarrow> from_last_le 0 (0 # as) = Some (0 # as)" by simp
qed

lemma segment_offsets_from_zero:
  assumes "log_frame crc N segs cs t log"
  shows "segment_offsets_from log 0 = map fst segs @ [w_min_tx_offset (log_head log)]"
proof (cases segs)
  case Nil
  then show ?thesis using assms by (simp add: segment_offsets_from_def log_frame_def)
next
  case (Cons f fs)
  have f: "fst f = 0" using assms Cons by (cases f) (auto simp: log_frame_def)
  have sorted: "sorted_wrt (<) (map fst segs @ [w_min_tx_offset (log_head log)])" by (rule log_frame_sorted [OF assms])
  then have "0 < w_min_tx_offset (log_head log)" "\<forall>x\<in>set (map fst fs). 0 < x" by (auto simp: Cons f)
  with from_last_le_first [of "map fst fs"] assms show ?thesis
    by (simp add: segment_offsets_from_def log_frame_def Cons f)
qed

lemma map_of_distinct_entries:
  "sorted_wrt (<) (map fst m) \<Longrightarrow> (k, v) \<in> set m \<Longrightarrow> bt_get m k = Some v" for m :: "(u64, byte list) btree"
  using bt_get_iff [of m k v] by (simp add: bt_wf_def)

text \<open>Traversal of a log that holds the given commits.\<close>

lemma log_state_traversal:
  assumes st: "log_state crc N segs cs t log" and all: "all = file_commits segs @ cs"
  shows "\<exists>errs. commits_all crc (commits_from log 0) = map (\<lambda>c. Inr (as_stored crc c)) all @ map Inl errs \<and> length errs \<le> 1 \<and>
    (cs \<noteq> [] \<and> t = [] \<longrightarrow> errs = []) \<and> offsets_chain 0 all (next_tx_offset (log_head log))"
proof -
  let ?h = "log_header (log_opts log)" and ?k = "w_min_tx_offset (log_head log)" and ?it = "commits_from log 0"
  define files where "files = segs @ [(?k, cs, t)]"
  have fr: "log_frame crc N segs cs t log" using st by (simp add: log_state_def)
  have v: "log_format_version ?h \<noteq> 0" and hd: "head_state crc ?h cs t (log_head log)" and ch: "files_chain crc 0 segs ?k"
    using fr by (simp_all add: log_frame_def log_header_def)
  have chain: "files_chain crc 0 files (next_tx_offset (log_head log))"
    using ch hd by (auto simp: files_def files_chain_append head_state_def)
  have entries: "repo_segments (log_repo log) = file_entries crc ?h files"
    unfolding files_def by (rule log_state_files [OF st])
  have sorted: "sorted_wrt (<) (map fst (repo_segments (log_repo log)))"
    using log_frame_sorted [OF fr] by (simp add: entries files_def)
  have gets: "\<forall>(off, cs, t)\<in>set files. bt_get (repo_segments (log_repo log)) off = Some (seg_bytes crc ?h cs t)"
    using map_of_distinct_entries [OF sorted] by (force simp: entries file_entries_def)
  have "\<exists>errs. commits_all crc ?it = map (\<lambda>c. Inr (as_stored crc c)) (file_commits files) @ map Inl errs \<and> length errs \<le> 1 \<and>
      (quiet ?it files \<longrightarrow> errs = [])"
  proof (rule commits_all_files [where a = 0 and h = ?h])
    show "ci_offs ?it = map fst files" by (simp add: commits_from_def segment_offsets_from_zero [OF fr] files_def)
  qed (use chain gets v in \<open>simp_all add: commits_from_def at_end_def expects_def\<close>)
  moreover have "quiet ?it files" if "cs \<noteq> []" "t = []"
    using that by (simp add: quiet_def files_def)
  moreover have "offsets_chain 0 all (next_tx_offset (log_head log))"
  proof -
    have "files_chain crc a fs b \<Longrightarrow> offsets_chain a (file_commits fs) b" for a b fs
    proof (induction fs arbitrary: a)
      case (Cons f fs)
      obtain off cs t where "f = (off, cs, t)" by (cases f)
      with Cons show ?case by (auto simp: offsets_chain_append)
    qed simp
    from this [OF chain] show ?thesis by (simp add: files_def all)
  qed
  ultimately show ?thesis by (auto simp: files_def all)
qed

lemma head_empty: "log_frame crc N segs [] t log \<Longrightarrow> writer_is_empty (log_head log)"
  by (simp add: log_frame_def head_state_def writer_is_empty_def seg_bytes_def)

lemma log_holds_traversal:
  assumes "log_holds crc N all log"
  shows "\<exists>errs. commits_all crc (commits_from log 0) = map (\<lambda>c. Inr (as_stored crc c)) all @ map Inl errs \<and> length errs \<le> 1 \<and>
    (\<not> writer_is_empty (log_head log) \<longrightarrow> errs = []) \<and> offsets_chain 0 all (next_tx_offset (log_head log))"
proof -
  obtain segs cs where st: "log_state crc N segs cs [] log" and all: "all = file_commits segs @ cs"
    using assms by (auto simp: log_holds_def)
  have "writer_is_empty (log_head log)" if "cs = []"
    using st by (intro head_empty [of crc N segs "[]"]) (simp add: that log_state_def)
  with log_state_traversal [OF st all] show ?thesis by blast
qed

subsection \<open>Reopening a log\<close>

lemma create_index_writer_none:
  "repo_indexes repo = None \<Longrightarrow> create_offset_index_writer off opts repo = (None, repo)"
  by (simp add: create_offset_index_writer_def create_offset_index_def ok_of_def)

lemma get_offset_index_none: "repo_indexes repo = None \<Longrightarrow> ok_of (get_offset_index repo off) = None"
  by (simp add: get_offset_index_def ok_of_def)

lemma log_holds_reopen:
  assumes "log_holds crc N all log" and ix: "repo_indexes (log_repo log) = None"
  shows "\<exists>log'. log_open crc (log_opts log) (log_repo log) = (Inr log', log_repo log) \<and> log_holds crc N all log' \<and>
    log_tail log' = log_tail log \<and> w_min_tx_offset (log_head log') = w_min_tx_offset (log_head log) \<and>
    next_tx_offset (log_head log') = next_tx_offset (log_head log) \<and> w_storage (log_head log') = w_storage (log_head log) \<and>
    writer_len (log_head log') = writer_len (log_head log) \<and> n_records (w_commit (log_head log')) = 0"
proof -
  obtain segs cs where st: "log_state crc N segs cs [] log" and all: "all = file_commits segs @ cs"
    using assms(1) by (auto simp: log_holds_def)
  let ?h = "log_header (log_opts log)" and ?w = "log_head log" and ?k = "w_min_tx_offset (log_head log)"
  have fr: "log_frame crc N segs cs [] log" and get: "bt_get (repo_segments (log_repo log)) ?k = Some (w_storage ?w)"
    using st by (simp_all add: log_state_def)
  have hd: "head_state crc ?h cs [] ?w" and v: "opt_log_format_version (log_opts log) \<noteq> 0" using fr by (simp_all add: log_frame_def)
  have holds: "writer_holds crc ?h cs ?w"
    using hd v by (auto simp: writer_holds_def head_state_def seg_bytes_def log_header_def commit_ok_def list_all_iff)
  have offs: "existing_offsets (log_repo log) = map fst segs @ [?k]"
    by (simp add: existing_offsets_def log_state_files [OF st])
  define w where "w = \<lparr>w_commit = \<lparr>min_tx_offset = next_tx_offset ?w, epoch = foldl max 0 (map epoch cs), n_records = 0, records = []\<rparr>,
    w_storage = w_storage ?w, w_min_tx_offset = ?k, w_bytes_written = writer_len ?w,
    w_max_records_in_commit = max_records_in_commit (log_opts log), w_index = None\<rparr>"
  have "resume_segment_writer crc (log_opts log) ?k (log_repo log) = (Inr (Inr w), log_repo log)"
    using metadata_extract_written [OF holds] get ix
    by (simp add: resume_segment_writer_def open_segment_def get_offset_index_none create_index_writer_none w_def)
      (simp add: log_header_def)
  then have open': "log_open crc (log_opts log) (log_repo log) =
      (Inr \<lparr>log_repo = log_repo log, log_head = w, log_tail = map fst segs, log_opts = log_opts log\<rparr>, log_repo log)"
    by (simp add: log_open_def offs)
  have "log_state crc N segs cs [] \<lparr>log_repo = log_repo log, log_head = w, log_tail = map fst segs, log_opts = log_opts log\<rparr>"
    using st hd by (simp add: log_state_def log_frame_def head_state_def w_def next_tx_offset_def writer_len_def pending_ok_def)
  then show ?thesis using fr unfolding open'
    by (auto simp: log_holds_def all w_def next_tx_offset_def writer_len_def log_frame_def)
qed

subsection \<open>Opening after a crash\<close>

lemma metadata_loop_torn:
  assumes "torn crc t"
  shows "metadata_loop crc sofar t = (if length t < COMMIT_HEADER_LEN then Inr sofar else Inl (InvalidCommit sofar UnexpectedEof))"
proof -
  have v: "DEFAULT_LOG_FORMAT_VERSION \<noteq> 0" by (simp add: DEFAULT_LOG_FORMAT_VERSION_def)
  obtain c :: commit and k where t: "commit_fits c" "k < length (commit_bytes crc c)" "t = take k (commit_bytes crc c)"
    using assms by (auto simp: torn_def)
  then have "length t = k" by simp
  with t decode_internal_prefix [OF v, of c k crc] show ?thesis
    by (subst metadata_loop.simps) (simp add: commit_fits_def commit_meta_def map_err_def commit_metadata_extract_def commit_decode_def
        stored_commit_decode_def map_ok_def andThen_def ret_def)
qed

lemma metadata_extract_torn:
  assumes "head_state crc h cs t w"
  defines "md \<equiv> \<lparr>md_header = h, md_tx_range = (w_min_tx_offset w, next_tx_offset w), md_size_in_bytes = w_bytes_written w,
    md_max_epoch = foldl max 0 (map epoch cs), md_max_commit_offset = (if cs = [] then w_min_tx_offset w else min_tx_offset (last cs))\<rparr>"
  shows "metadata_extract crc (w_min_tx_offset w) (w_storage w) None =
    (if length t < COMMIT_HEADER_LEN then Inr md else Inl (InvalidCommit md UnexpectedEof))"
proof -
  let ?start = "\<lparr>md_header = h, md_tx_range = (w_min_tx_offset w, w_min_tx_offset w), md_size_in_bytes = of_nat SEG_HEADER_LEN,
      md_max_epoch = 0, md_max_commit_offset = w_min_tx_offset w\<rparr>"
  have w: "w_storage w = seg_header_write h [] @ commits_bytes crc cs @ t" "torn crc t"
    "offsets_chain (w_min_tx_offset w) cs (next_tx_offset w)" "w_bytes_written w = of_nat SEG_HEADER_LEN + of_nat (length (commits_bytes crc cs))"
    using assms(1) by (auto simp: head_state_def seg_bytes_def)
  have fits: "list_all commit_fits cs" using assms(1) by (auto simp: head_state_def commit_ok_def list_all_iff)
  have ten: "unat (of_nat SEG_HEADER_LEN :: u64) = SEG_HEADER_LEN" by (simp add: SEG_HEADER_LEN_def MAGIC_def)
  have "metadata_loop crc ?start (commits_bytes crc cs @ t) = metadata_loop crc (foldl metadata_step ?start (map metadata_from_commit cs)) t"
    using fits w(3) by (intro metadata_loop_append) simp_all
  also have "foldl metadata_step ?start (map metadata_from_commit cs) = md"
    using foldl_metadata [of ?start cs "next_tx_offset w" crc] w by (simp add: md_def)
  finally show ?thesis
    by (simp add: metadata_extract_def metadata_with_header_def w(1) seg_header_roundtrip ten metadata_loop_torn [OF w(2)])
qed

lemma create_segment_writer_commit:
  "create_segment_writer opts ep off repo = (Inr w, repo') \<Longrightarrow>
   w_commit w = \<lparr>min_tx_offset = off, epoch = ep, n_records = 0, records = []\<rparr>"
  by (auto simp: create_segment_writer_def andThen_def Let_def split: prod.splits sum.splits)

lemma log_state_open:
  assumes st: "log_state crc N segs cs t log" and ix: "repo_indexes (log_repo log) = None"
  shows "fst (log_open crc (log_opts log) (log_repo log)) = Inl AlreadyExists \<and> cs = [] \<and> COMMIT_HEADER_LEN \<le> length t \<or>
    (\<exists>log' segs' cs' t'. fst (log_open crc (log_opts log) (log_repo log)) = Inr log' \<and> log_state crc N segs' cs' t' log' \<and>
      file_commits segs' @ cs' = file_commits segs @ cs)"
proof -
  let ?w = "log_head log" and ?k = "w_min_tx_offset (log_head log)" and ?h = "log_header (log_opts log)"
  let ?c = "\<lparr>min_tx_offset = next_tx_offset ?w, epoch = foldl max 0 (map epoch cs), n_records = 0, records = []\<rparr>"
  have fr: "log_frame crc N segs cs t log" and get: "bt_get (repo_segments (log_repo log)) ?k = Some (w_storage ?w)"
    using st by (simp_all add: log_state_def)
  have hd: "head_state crc ?h cs t ?w" and tail: "log_tail log = map fst segs" using fr by (simp_all add: log_frame_def)
  have offs: "existing_offsets (log_repo log) = map fst segs @ [?k]"
    by (simp add: existing_offsets_def log_state_files [OF st])
  show ?thesis
  proof (cases "length t < COMMIT_HEADER_LEN")
    case True
    define w where "w = \<lparr>w_commit = ?c, w_storage = w_storage ?w, w_min_tx_offset = ?k, w_bytes_written = w_bytes_written ?w,
      w_max_records_in_commit = max_records_in_commit (log_opts log), w_index = None\<rparr>"
    have "resume_segment_writer crc (log_opts log) ?k (log_repo log) = (Inr (Inr w), log_repo log)"
      using metadata_extract_torn [OF hd] True get ix
      by (simp add: resume_segment_writer_def open_segment_def get_offset_index_none create_index_writer_none w_def)
        (simp add: log_header_def)
    then have "fst (log_open crc (log_opts log) (log_repo log)) =
        Inr \<lparr>log_repo = log_repo log, log_head = w, log_tail = map fst segs, log_opts = log_opts log\<rparr>"
      by (simp add: log_open_def offs)
    moreover have "log_state crc N segs cs t \<lparr>log_repo = log_repo log, log_head = w, log_tail = map fst segs, log_opts = log_opts log\<rparr>"
      using st hd by (simp add: log_state_def log_frame_def head_state_def w_def next_tx_offset_def pending_ok_def)
    ultimately show ?thesis by blast
  next
    case False
    define l where "l = log\<lparr>log_head := ?w\<lparr>w_commit := ?c\<rparr>\<rparr>"
    have stl: "log_state crc N segs cs t l"
      using st hd by (simp add: l_def log_state_def log_frame_def head_state_def next_tx_offset_def pending_ok_def)
    have resume: "\<exists>md. resume_segment_writer crc (log_opts log) ?k (log_repo log) = (Inr (Inl md), log_repo log) \<and>
        md_tx_range md = (?k, next_tx_offset ?w) \<and> md_max_epoch md = epoch ?c"
      using metadata_extract_torn [OF hd] False get ix
      by (simp add: resume_segment_writer_def open_segment_def get_offset_index_none)
    obtain res repo' where new: "create_segment_writer (log_opts log) (epoch ?c) (next_tx_offset ?w) (log_repo log) = (res, repo')"
      by (rule prod.exhaust)
    have start: "start_new_segment l = (case res of Inl e \<Rightarrow> (Inl e, l\<lparr>log_repo := repo'\<rparr>) | Inr w \<Rightarrow>
        (Inr (), l\<lparr>log_repo := repo', log_tail := map fst segs @ [?k], log_head := w\<lparr>w_commit := ?c\<rparr>\<rparr>))"
      using new by (simp add: start_new_segment_def l_def writer_epoch_def next_tx_offset_def tail split: sum.split)
    have opened: "fst (log_open crc (log_opts log) (log_repo log)) = (case res of Inl e \<Rightarrow> Inl e | Inr w \<Rightarrow>
        Inr \<lparr>log_repo = repo', log_head = w, log_tail = map fst segs @ [?k], log_opts = log_opts log\<rparr>)"
      using resume new by (auto simp: log_open_def offs split: sum.split)
    have open': "fst (log_open crc (log_opts log) (log_repo log)) = map_sum id (\<lambda>_. snd (start_new_segment l)) (fst (start_new_segment l))"
    proof (cases res)
      case (Inl e)
      then show ?thesis by (simp add: opened start)
    next
      case (Inr w)
      have "w_commit w = ?c" using create_segment_writer_commit [OF new [unfolded Inr]] by simp
      then have "w\<lparr>w_commit := ?c\<rparr> = w" by (cases w) simp
      then show ?thesis unfolding opened start Inr sum.case by (cases log) (simp add: l_def)
    qed
    show ?thesis
    proof (cases "cs = []")
      case True
      with False show ?thesis using start_new_segment_state(1) [OF stl True] by (simp add: open')
    next
      case cs: False
      from start_new_segment_state(2) [OF stl cs] show ?thesis
        by (intro disjI2 exI [of _ "snd (start_new_segment l)"] exI [of _ "segs @ [(w_min_tx_offset (log_head l), cs, t)]"]
            exI [of _ "[]"]) (simp add: open')
    qed
  qed
qed

text \<open>Cutting the bytes of commits anywhere leaves whole commits and a torn one.\<close>

lemma cut_commits:
  "list_all commit_ok cs \<Longrightarrow> \<exists>j t. take k (commits_bytes crc cs) = commits_bytes crc (take j cs) @ t \<and> torn crc t \<and>
     (drop j cs \<noteq> [] \<longrightarrow> k + length (commits_bytes crc (tl (drop j cs))) < length (commits_bytes crc cs))"
proof (induction cs arbitrary: k)
  case Nil
  then show ?case by simp
next
  case (Cons c cs)
  let ?b = "commit_bytes crc c"
  show ?case
  proof (cases "k < length ?b")
    case True
    then have "torn crc (take k ?b)" using Cons.prems by (auto simp: torn_def commit_ok_def)
    then show ?thesis using True by (intro exI [of _ 0] exI [of _ "take k ?b"]) simp
  next
    case False
    obtain j t where "take (k - length ?b) (commits_bytes crc cs) = commits_bytes crc (take j cs) @ t" "torn crc t"
      "drop j cs \<noteq> [] \<longrightarrow> k - length ?b + length (commits_bytes crc (tl (drop j cs))) < length (commits_bytes crc cs)"
      using Cons.IH [of "k - length ?b"] Cons.prems by auto
    then show ?thesis using False by (intro exI [of _ "Suc j"] exI [of _ t]) auto
  qed
qed

text \<open>The repository after a crash that kept only the first \<open>k\<close> bytes of the segment being written.\<close>

definition crash :: "nat \<Rightarrow> commitlog \<Rightarrow> repo" where
  "crash k log = (log_repo log)\<lparr>repo_segments :=
     bt_insert (w_min_tx_offset (log_head log)) (take k (w_storage (log_head log))) (repo_segments (log_repo log))\<rparr>"

lemma tx_total_take: "tx_total (take j cs) \<le> tx_total cs"
  using total_simps(3) [of "take j cs" "drop j cs"] by simp

lemma crash_state:
  assumes st: "log_state crc N segs cs [] log" and k: "SEG_HEADER_LEN \<le> k"
  shows "\<exists>j t log'. log_state crc N segs (take j cs) t log' \<and> log_repo log' = crash k log \<and> log_opts log' = log_opts log \<and>
    (drop j cs \<noteq> [] \<longrightarrow> k + length (commits_bytes crc (tl (drop j cs))) < length (w_storage (log_head log)))"
proof -
  let ?h = "log_header (log_opts log)" and ?w = "log_head log"
  have fr: "log_frame crc N segs cs [] log" using st by (simp add: log_state_def)
  have hd: "head_state crc ?h cs [] ?w" using fr by (simp add: log_frame_def)
  then have ok: "list_all commit_ok cs" and stor: "w_storage ?w = seg_header_write ?h [] @ commits_bytes crc cs"
    by (auto simp: head_state_def seg_bytes_def)
  obtain j t where j: "take (k - SEG_HEADER_LEN) (commits_bytes crc cs) = commits_bytes crc (take j cs) @ t" "torn crc t"
    "drop j cs \<noteq> [] \<longrightarrow> k - SEG_HEADER_LEN + length (commits_bytes crc (tl (drop j cs))) < length (commits_bytes crc cs)"
    using cut_commits [OF ok, of "k - SEG_HEADER_LEN" crc] by blast
  obtain m where m: "offsets_chain (w_min_tx_offset ?w) (take j cs) m"
    using hd offsets_chain_append [of "w_min_tx_offset ?w" "take j cs" "drop j cs"] by (auto simp: head_state_def)
  let ?c = "\<lparr>min_tx_offset = m, epoch = 0, n_records = 0, records = []\<rparr>"
  define log1 where "log1 = log\<lparr>log_head := ?w\<lparr>w_storage := seg_bytes crc ?h (take j cs) t, w_commit := ?c,
    w_bytes_written := of_nat (length (seg_bytes crc ?h (take j cs) [])), w_index := None\<rparr>\<rparr>"
  have "list_all commit_ok (take j cs)" using ok by (auto simp: list_all_iff dest: in_set_takeD)
  then have "log_frame crc N segs (take j cs) t log1"
    using fr m j(2) tx_total_take [of j cs]
    by (auto simp: log_frame_def head_state_def log1_def next_tx_offset_def pending_ok_def)
  then have "log_state crc N segs (take j cs) t (write_back log1)" by (rule write_back_state)
  moreover have "take k (w_storage ?w) = seg_bytes crc ?h (take j cs) t"
    using k j(1) by (simp add: stor seg_bytes_def)
  then have "log_repo (write_back log1) = crash k log" by (simp add: write_back_def log1_def crash_def Let_def)
  moreover have "log_opts (write_back log1) = log_opts log" by (simp add: write_back_def log1_def Let_def)
  moreover have "drop j cs \<noteq> [] \<longrightarrow> k + length (commits_bytes crc (tl (drop j cs))) < length (w_storage ?w)"
    using j(3) k by (auto simp: stor)
  ultimately show ?thesis by blast
qed

lemma crash_open:
  assumes "log_holds crc N all log" and ix: "repo_indexes (log_repo log) = None" and k: "SEG_HEADER_LEN \<le> k"
  shows "fst (log_open crc (log_opts log) (crash k log)) = Inl AlreadyExists \<or>
    (\<exists>log' kept lost errs. fst (log_open crc (log_opts log) (crash k log)) = Inr log' \<and> all = kept @ lost \<and>
      commits_all crc (commits_from log' 0) = map (\<lambda>c. Inr (as_stored crc c)) kept @ map Inl errs \<and> length errs \<le> 1 \<and>
      (lost \<noteq> [] \<longrightarrow> k + length (commits_bytes crc (tl lost)) < length (w_storage (log_head log))))"
proof -
  obtain segs cs where st: "log_state crc N segs cs [] log" and all: "all = file_commits segs @ cs"
    using assms(1) by (auto simp: log_holds_def)
  obtain j t log1 where j: "log_state crc N segs (take j cs) t log1" "log_repo log1 = crash k log" "log_opts log1 = log_opts log"
    "drop j cs \<noteq> [] \<longrightarrow> k + length (commits_bytes crc (tl (drop j cs))) < length (w_storage (log_head log))"
    using crash_state [OF st k] by blast
  have "repo_indexes (log_repo log1) = None" using ix by (simp add: j(2) crash_def)
  from log_state_open [OF j(1) this] show ?thesis unfolding j(2,3)
  proof (elim disjE exE conjE)
    fix log' segs' cs' t'
    assume o: "fst (log_open crc (log_opts log) (crash k log)) = Inr log'" and s: "log_state crc N segs' cs' t' log'"
      and c: "file_commits segs' @ cs' = file_commits segs @ take j cs"
    from log_state_traversal [OF s refl] obtain errs where
      "commits_all crc (commits_from log' 0) = map (\<lambda>c. Inr (as_stored crc c)) (file_commits segs @ take j cs) @ map Inl errs"
      "length errs \<le> 1"
      unfolding c by blast
    with o j(4) show ?thesis
      by (intro disjI2 exI [of _ log'] exI [of _ "file_commits segs @ take j cs"] exI [of _ "drop j cs"] exI [of _ errs])
        (simp add: all)
  qed simp
qed

subsection \<open>Progress\<close>

lemma rotate_state:
  assumes st: "log_state crc N segs cs [] log"
  shows "\<exists>segs' cs' l. (if should_rotate log then (\<lambda>l. start_new_segment (log_sync l)) else ret ()) log = (Inr (), l) \<and>
    log_state crc N segs' cs' [] l \<and> file_commits segs' @ cs' = file_commits segs @ cs \<and> w_commit (log_head l) = w_commit (log_head log)"
proof (cases "should_rotate log")
  case False
  then show ?thesis using st by (intro exI [of _ segs] exI [of _ cs] exI [of _ log]) (simp add: ret_def)
next
  case True
  then have cs: "cs \<noteq> []" using st head_empty by (auto simp: should_rotate_def log_state_def)
  note sync = log_sync_state [OF st]
  note new = start_new_segment_state(2) [OF sync(1) cs]
  then show ?thesis using True sync(2)
    by (intro exI [of _ "segs @ [(w_min_tx_offset (log_head (log_sync log)), cs, [])]"] exI [of _ "[]"]
        exI [of _ "snd (start_new_segment (log_sync log))"]) (simp add: prod_eq_iff)
qed

lemma log_commit_progress:
  assumes "log_holds crc N all log" and pending: "n_records (w_commit (log_head log)) \<noteq> 0"
  shows "\<exists>log'. log_commit crc None log = (Inr (fst (writer_commit crc (log_head log))), log') \<and>
    n_records (w_commit (log_head log')) = 0 \<and> log_holds crc N (all @ [w_commit (log_head log)]) log' \<and>
    commits_all crc (commits_from log' 0) = map (\<lambda>c. Inr (as_stored crc c)) (all @ [w_commit (log_head log)])"
proof -
  obtain segs cs where "log_state crc N segs cs [] log" and all: "all = file_commits segs @ cs"
    using assms(1) by (auto simp: log_holds_def)
  from rotate_state [OF this(1)] obtain segs' cs' l where
    l: "(if should_rotate log then (\<lambda>l. start_new_segment (log_sync l)) else ret ()) log = (Inr (), l)"
    "log_state crc N segs' cs' [] l" "file_commits segs' @ cs' = all" "w_commit (log_head l) = w_commit (log_head log)"
    by (auto simp: all)
  define log' where "log' = write_back (l\<lparr>log_head := snd (writer_commit crc (log_head l))\<rparr>)"
  have st': "log_state crc N segs' (cs' @ [w_commit (log_head log)]) [] log'"
    using writer_commit_frame [OF l(2)] pending by (simp add: l(4) log'_def)
  have all': "all @ [w_commit (log_head log)] = file_commits segs' @ cs' @ [w_commit (log_head log)]" by (simp flip: l(3))
  have "commits_all crc (commits_from log' 0) = map (\<lambda>c. Inr (as_stored crc c)) (all @ [w_commit (log_head log)])"
    using log_state_traversal [OF st' all'] by auto
  moreover have "log_holds crc N (all @ [w_commit (log_head log)]) log'" using st' all' by (auto simp: log_holds_def)
  moreover have "log_commit crc None log = (Inr (fst (writer_commit crc (log_head log))), log')"
    using writer_commit_result [of crc "log_head l"] writer_commit_result [of crc "log_head log"] l(1,4)
    unfolding log_commit_def andThen_def by (simp add: head_commit_def log'_def case_prod_unfold)
  moreover have "n_records (w_commit (log_head log')) = 0"
    using pending l(4) by (simp add: log'_def write_back_def writer_commit_def Let_def case_prod_unfold)
  ultimately show ?thesis by blast
qed

subsection \<open>Properties\<close>


definition sample_ops :: "byte list log_op list" where
  "sample_ops = [Append [7], Commit None, Append [8, 9], Commit (Some 3), SetEpoch None 4, Sync]"

definition sample_log :: commitlog where
  "sample_log = (case log_open (\<lambda>_. 5) options_default \<lparr>repo_segments = [], repo_indexes = None\<rparr> of
     (Inr log, _) \<Rightarrow> log)"

lemma sample_open:
  "log_open (\<lambda>_. 5) options_default \<lparr>repo_segments = [], repo_indexes = None\<rparr> = (Inr sample_log, log_repo sample_log)"
  by (simp add: sample_log_def log_open_def existing_offsets_def create_segment_writer_def create_segment_def andThen_def
      bt_get_def create_offset_index_writer_def create_offset_index_def ok_of_def Let_def)

lemma sample_run:
  "map_option fst (run_log (\<lambda>_. 5) id sample_ops sample_log) =
     Some [\<lparr>min_tx_offset = 0, epoch = 0, n_records = 1, records = [7]\<rparr>, \<lparr>min_tx_offset = 1, epoch = 0, n_records = 1, records = [8, 9]\<rparr>]"
  by code_simp

lemma sample_settings:
  "opt_log_format_version options_default \<noteq> 0" "list_all (op_small id) sample_ops" "length sample_ops < 2 ^ 64"
  by (simp_all add: options_default_def DEFAULT_LOG_FORMAT_VERSION_def sample_ops_def)



definition failing_ops :: "byte list log_op list" where
  "failing_ops = [Append [7], Commit None, Append [8, 9], Commit (Some 3)]"

lemma failing_run:
  "map_option (\<lambda>(cs, log). (cs, w_commit (log_head log))) (run_log (\<lambda>_. 5) id failing_ops sample_log) =
     Some ([\<lparr>min_tx_offset = 0, epoch = 0, n_records = 1, records = [7]\<rparr>], \<lparr>min_tx_offset = 1, epoch = 0, n_records = 1, records = [8, 9]\<rparr>)"
  by code_simp



lemma sample_repo:
  "map_option (\<lambda>(cs, log). Option.is_none (repo_indexes (log_repo log))) (run_log (\<lambda>_. 5) id sample_ops sample_log) = Some True"
  by code_simp



definition committing_ops :: "byte list log_op list" where
  "committing_ops = [Append [7], Commit None, Append [8, 9], Commit None]"

lemma committing_run:
  "map_option (\<lambda>(cs, log). (Option.is_none (repo_indexes (log_repo log)), isl (fst (log_open (\<lambda>_. 5) (log_opts log) (crash 60 log)))))
     (run_log (\<lambda>_. 5) id committing_ops sample_log) = Some (True, False)"
  by code_simp


text \<open>Two crashes the log does not recover from.  A segment whose first commit is torn behind its header blocks opening the
  log.  A segment torn within the header of a commit is resumed behind the torn bytes: the next commit
  succeeds, and the traversal does not find it.\<close>

lemma torn_first_commit_blocks_open:
  "map_option (\<lambda>(cs, log). map_sum id (\<lambda>_. ()) (fst (log_open (\<lambda>_. 5) (log_opts log) (crash 33 log))))
     (run_log (\<lambda>_. 5) id [Append [7], Commit None] sample_log) = Some (Inl AlreadyExists)"
  by code_simp

lemma commit_behind_torn_header_lost:
  "(case run_log (\<lambda>_. 5) id committing_ops sample_log of Some (_, log) \<Rightarrow>
      (case log_open (\<lambda>_. 5) (log_opts log) (crash 43 log) of (Inr log', _) \<Rightarrow>
        (case run_log (\<lambda>_. 5) id [Append [8, 9], Commit None] log' of Some (cs, log'') \<Rightarrow>
           Some (map records cs, map (map_sum (\<lambda>_. ()) records) (commits_all (\<lambda>_. 5) (commits_from log'' 0))))
      | _ \<Rightarrow> None) | None \<Rightarrow> None) = Some ([[8, 9]], [Inr [7], Inl ()])"
  by code_simp

end
