(* ===== verification/Bsatn.thy ===== *)
theory Bsatn
  imports Varint
begin

text \<open>
  \<^verbatim>\<open>crates/sats\<close>: algebraic types and values and their binary format BSATN, from
  \<^verbatim>\<open>algebraic_type.rs\<close>, \<^verbatim>\<open>algebraic_value.rs\<close>, \<^verbatim>\<open>array_value.rs\<close>, \<^verbatim>\<open>bsatn/ser.rs\<close>, \<^verbatim>\<open>bsatn/de.rs\<close>,
  \<^verbatim>\<open>ser/impls.rs\<close> and \<^verbatim>\<open>de/impls.rs\<close>.  Decoding is that of \<^verbatim>\<open>bsatn::decode\<close>, whose typespace is empty, so a
  reference to a type panics.  Signed integers and floating-point numbers are held as their bits, strings as
  their bytes.
\<close>

subsection \<open>Types and values\<close>

datatype algebraic_type =
    TRef u32
  | TSum "(string option \<times> algebraic_type) list"
  | TProduct "(string option \<times> algebraic_type) list"
  | TArray algebraic_type
  | TString
  | TBool
  | TI8
  | TU8
  | TI16
  | TU16
  | TI32
  | TU32
  | TI64
  | TU64
  | TI128
  | TU128
  | TI256
  | TU256
  | TF32
  | TF64

type_synonym type_elements = "(string option \<times> algebraic_type) list"

datatype algebraic_value =
    VMin
  | VSum sum_value
  | VProduct "algebraic_value list"
  | VArray array_value
  | VBool bool
  | VI8 u8
  | VU8 u8
  | VI16 u16
  | VU16 u16
  | VI32 u32
  | VU32 u32
  | VI64 u64
  | VU64 u64
  | VI128 "128 word"
  | VU128 "128 word"
  | VI256 "256 word"
  | VU256 "256 word"
  | VF32 u32
  | VF64 u64
  | VString "byte list"
  | VMax
and sum_value = SumValue u8 algebraic_value
and array_value =
    ASum "sum_value list"
  | AProduct "algebraic_value list list"
  | ABool "bool list"
  | AI8 "u8 list"
  | AU8 "u8 list"
  | AI16 "u16 list"
  | AU16 "u16 list"
  | AI32 "u32 list"
  | AU32 "u32 list"
  | AI64 "u64 list"
  | AU64 "u64 list"
  | AI128 "128 word list"
  | AU128 "128 word list"
  | AI256 "256 word list"
  | AU256 "256 word list"
  | AF32 "u32 list"
  | AF64 "u64 list"
  | AString "byte list list"
  | AArray "array_value list"

subsection \<open>Serialization\<close>

text \<open>\<^verbatim>\<open>BsatnError\<close> has one cause; \<open>SerPanic\<close> is the panic on the extreme values.\<close>

datatype ser_error = LenTooLong | SerPanic

type_synonym ser = "(byte list, ser_error, unit) act"

definition writes :: "(byte list \<Rightarrow> byte list) \<Rightarrow> ser" where
  "writes put out = (Inr (), put out)"

definition put_len :: "nat \<Rightarrow> ser" where
  "put_len n = (if n < 2 ^ 32 then writes (put_u32 (of_nat n)) else fail_with LenTooLong)"

definition serialize_bool :: "bool \<Rightarrow> ser" where
  "serialize_bool b = writes (put_u8 (of_bool b))"

definition serialize_bytes :: "byte list \<Rightarrow> ser" where
  "serialize_bytes v = andThen (put_len (length v)) (\<lambda>_. writes (put_slice v))"

definition serialize_str :: "byte list \<Rightarrow> ser" where
  "serialize_str v = serialize_bytes v"

fun serialize_elements :: "('a \<Rightarrow> ser) \<Rightarrow> 'a list \<Rightarrow> ser" where
  "serialize_elements f [] = ret ()"
| "serialize_elements f (x # xs) = andThen (f x) (\<lambda>_. serialize_elements f xs)"

definition serialize_array :: "('a \<Rightarrow> ser) \<Rightarrow> 'a list \<Rightarrow> ser" where
  "serialize_array f xs = andThen (put_len (length xs)) (\<lambda>_. serialize_elements f xs)"

fun serialize_value :: "algebraic_value \<Rightarrow> ser"
  and serialize_sum :: "sum_value \<Rightarrow> ser"
  and serialize_product :: "algebraic_value list \<Rightarrow> ser"
  and serialize_array_value :: "array_value \<Rightarrow> ser"
  and serialize_sums :: "sum_value list \<Rightarrow> ser"
  and serialize_products :: "algebraic_value list list \<Rightarrow> ser"
  and serialize_arrays :: "array_value list \<Rightarrow> ser" where
  "serialize_value VMin = fail_with SerPanic"
| "serialize_value VMax = fail_with SerPanic"
| "serialize_value (VSum s) = serialize_sum s"
| "serialize_value (VProduct vs) = serialize_product vs"
| "serialize_value (VArray a) = serialize_array_value a"
| "serialize_value (VBool b) = serialize_bool b"
| "serialize_value (VI8 w) = writes (put_u8 w)"
| "serialize_value (VU8 w) = writes (put_u8 w)"
| "serialize_value (VI16 w16) = writes (put_u16 w16)"
| "serialize_value (VU16 w16) = writes (put_u16 w16)"
| "serialize_value (VI32 w32) = writes (put_u32 w32)"
| "serialize_value (VU32 w32) = writes (put_u32 w32)"
| "serialize_value (VI64 w64) = writes (put_u64 w64)"
| "serialize_value (VU64 w64) = writes (put_u64 w64)"
| "serialize_value (VI128 w128) = writes (put_u128 w128)"
| "serialize_value (VU128 w128) = writes (put_u128 w128)"
| "serialize_value (VI256 w256) = writes (put_u256 w256)"
| "serialize_value (VU256 w256) = writes (put_u256 w256)"
| "serialize_value (VF32 w32) = writes (put_u32 w32)"
| "serialize_value (VF64 w64) = writes (put_u64 w64)"
| "serialize_value (VString s) = serialize_str s"
| "serialize_sum (SumValue tag v) = andThen (writes (put_u8 tag)) (\<lambda>_. serialize_value v)"
| "serialize_product [] = ret ()"
| "serialize_product (v # vs) = andThen (serialize_value v) (\<lambda>_. serialize_product vs)"
| "serialize_array_value (ASum ss) = andThen (put_len (length ss)) (\<lambda>_. serialize_sums ss)"
| "serialize_array_value (AProduct vss) = andThen (put_len (length vss)) (\<lambda>_. serialize_products vss)"
| "serialize_array_value (AArray as) = andThen (put_len (length as)) (\<lambda>_. serialize_arrays as)"
| "serialize_array_value (ABool bs) = serialize_array serialize_bool bs"
| "serialize_array_value (AI8 ws) = serialize_array (\<lambda>w. writes (put_u8 w)) ws"
| "serialize_array_value (AU8 ws) = serialize_bytes ws"
| "serialize_array_value (AI16 w16s) = serialize_array (\<lambda>w. writes (put_u16 w)) w16s"
| "serialize_array_value (AU16 w16s) = serialize_array (\<lambda>w. writes (put_u16 w)) w16s"
| "serialize_array_value (AI32 w32s) = serialize_array (\<lambda>w. writes (put_u32 w)) w32s"
| "serialize_array_value (AU32 w32s) = serialize_array (\<lambda>w. writes (put_u32 w)) w32s"
| "serialize_array_value (AI64 w64s) = serialize_array (\<lambda>w. writes (put_u64 w)) w64s"
| "serialize_array_value (AU64 w64s) = serialize_array (\<lambda>w. writes (put_u64 w)) w64s"
| "serialize_array_value (AI128 w128s) = serialize_array (\<lambda>w. writes (put_u128 w)) w128s"
| "serialize_array_value (AU128 w128s) = serialize_array (\<lambda>w. writes (put_u128 w)) w128s"
| "serialize_array_value (AI256 w256s) = serialize_array (\<lambda>w. writes (put_u256 w)) w256s"
| "serialize_array_value (AU256 w256s) = serialize_array (\<lambda>w. writes (put_u256 w)) w256s"
| "serialize_array_value (AF32 w32s) = serialize_array (\<lambda>w. writes (put_u32 w)) w32s"
| "serialize_array_value (AF64 w64s) = serialize_array (\<lambda>w. writes (put_u64 w)) w64s"
| "serialize_array_value (AString strs) = serialize_array serialize_str strs"
| "serialize_sums [] = ret ()"
| "serialize_sums (s # ss) = andThen (serialize_sum s) (\<lambda>_. serialize_sums ss)"
| "serialize_products [] = ret ()"
| "serialize_products (vs # vss) = andThen (serialize_product vs) (\<lambda>_. serialize_products vss)"
| "serialize_arrays [] = ret ()"
| "serialize_arrays (a # as) = andThen (serialize_array_value a) (\<lambda>_. serialize_arrays as)"

definition to_vec :: "algebraic_value \<Rightarrow> ser_error + byte list" where
  "to_vec v = (case serialize_value v [] of (Inl e, _) \<Rightarrow> Inl e | (Inr _, out) \<Rightarrow> Inr out)"

subsection \<open>Deserialization\<close>

datatype de_error = Failed decode_error | DePanic

type_synonym 'a de = "(byte list, de_error, 'a) act"

definition de :: "'a reader \<Rightarrow> 'a de" where
  "de m = map_err Failed m"

definition deserialize_len :: "nat de" where
  "deserialize_len = map_ok unat (de get_u32)"

definition deserialize_bool :: "bool de" where
  "deserialize_bool = andThen (de get_u8) (\<lambda>b.
     if b = 0 then ret False else if b = 1 then ret True else fail_with (Failed (InvalidBool b)))"

definition deserialize_bytes :: "byte list de" where
  "deserialize_bytes = andThen deserialize_len (\<lambda>n. de (get_slice n))"

definition deserialize_str :: "byte list de" where
  "deserialize_str = andThen deserialize_bytes (\<lambda>s. if utf8_valid s then ret s else fail_with (Failed InvalidUtf8))"

definition deserialize_array_seed :: "'a de \<Rightarrow> 'a list de" where
  "deserialize_array_seed seed = andThen deserialize_len (\<lambda>n. collect_n n seed)"

fun deserialize_value :: "algebraic_type \<Rightarrow> algebraic_value de"
  and deserialize_sum :: "type_elements \<Rightarrow> sum_value de"
  and deserialize_variant :: "type_elements \<Rightarrow> nat \<Rightarrow> u8 \<Rightarrow> algebraic_value de"
  and visit_seq_product :: "type_elements \<Rightarrow> algebraic_value list de"
  and deserialize_array :: "algebraic_type \<Rightarrow> array_value de" where
  "deserialize_value (TRef _) = fail_with DePanic"
| "deserialize_value (TSum vs) = map_ok VSum (deserialize_sum vs)"
| "deserialize_value (TProduct es) = map_ok VProduct (visit_seq_product es)"
| "deserialize_value (TArray t) = map_ok VArray (deserialize_array t)"
| "deserialize_value TBool = map_ok VBool deserialize_bool"
| "deserialize_value TI8 = map_ok VI8 (de get_i8)"
| "deserialize_value TU8 = map_ok VU8 (de get_u8)"
| "deserialize_value TI16 = map_ok VI16 (de get_i16)"
| "deserialize_value TU16 = map_ok VU16 (de get_u16)"
| "deserialize_value TI32 = map_ok VI32 (de get_i32)"
| "deserialize_value TU32 = map_ok VU32 (de get_u32)"
| "deserialize_value TI64 = map_ok VI64 (de get_i64)"
| "deserialize_value TU64 = map_ok VU64 (de get_u64)"
| "deserialize_value TI128 = map_ok VI128 (de get_i128)"
| "deserialize_value TU128 = map_ok VU128 (de get_u128)"
| "deserialize_value TI256 = map_ok VI256 (de get_i256)"
| "deserialize_value TU256 = map_ok VU256 (de get_u256)"
| "deserialize_value TF32 = map_ok VF32 (de get_u32)"
| "deserialize_value TF64 = map_ok VF64 (de get_u64)"
| "deserialize_value TString = map_ok VString deserialize_str"
| "deserialize_sum vs = andThen (de get_u8) (\<lambda>tag. map_ok (SumValue tag) (deserialize_variant vs (unat tag) tag))"
| "deserialize_variant [] k tag = fail_with (Failed (InvalidTag tag None))"
| "deserialize_variant ((name, t) # vs) k tag =
     (case k of 0 \<Rightarrow> deserialize_value t | Suc k' \<Rightarrow> deserialize_variant vs k' tag)"
| "visit_seq_product [] = ret []"
| "visit_seq_product ((name, t) # es) =
     andThen (deserialize_value t) (\<lambda>v. andThen (visit_seq_product es) (\<lambda>vs. ret (v # vs)))"
| "deserialize_array (TRef _) = fail_with DePanic"
| "deserialize_array (TSum vs) = map_ok ASum (deserialize_array_seed (deserialize_sum vs))"
| "deserialize_array (TProduct es) = map_ok AProduct (deserialize_array_seed (visit_seq_product es))"
| "deserialize_array (TArray t) = map_ok AArray (deserialize_array_seed (deserialize_array t))"
| "deserialize_array TBool = map_ok ABool (deserialize_array_seed deserialize_bool)"
| "deserialize_array TI8 = map_ok AI8 (deserialize_array_seed (de get_i8))"
| "deserialize_array TU8 = map_ok AU8 deserialize_bytes"
| "deserialize_array TI16 = map_ok AI16 (deserialize_array_seed (de get_i16))"
| "deserialize_array TU16 = map_ok AU16 (deserialize_array_seed (de get_u16))"
| "deserialize_array TI32 = map_ok AI32 (deserialize_array_seed (de get_i32))"
| "deserialize_array TU32 = map_ok AU32 (deserialize_array_seed (de get_u32))"
| "deserialize_array TI64 = map_ok AI64 (deserialize_array_seed (de get_i64))"
| "deserialize_array TU64 = map_ok AU64 (deserialize_array_seed (de get_u64))"
| "deserialize_array TI128 = map_ok AI128 (deserialize_array_seed (de get_i128))"
| "deserialize_array TU128 = map_ok AU128 (deserialize_array_seed (de get_u128))"
| "deserialize_array TI256 = map_ok AI256 (deserialize_array_seed (de get_i256))"
| "deserialize_array TU256 = map_ok AU256 (deserialize_array_seed (de get_u256))"
| "deserialize_array TF32 = map_ok AF32 (deserialize_array_seed (de get_u32))"
| "deserialize_array TF64 = map_ok AF64 (deserialize_array_seed (de get_u64))"
| "deserialize_array TString = map_ok AString (deserialize_array_seed deserialize_str)"

definition decode :: "algebraic_type \<Rightarrow> algebraic_value de" where
  "decode t = deserialize_value t"

subsection \<open>Typing\<close>

text \<open>The values of a type: of its shape, with sequences whose length fits the 32-bit prefix and strings that are
  UTF-8, as every Rust string is.\<close>

definition len32 :: "'a list \<Rightarrow> bool" where
  "len32 xs \<longleftrightarrow> length xs < 2 ^ 32"

definition str_ok :: "byte list \<Rightarrow> bool" where
  "str_ok s \<longleftrightarrow> len32 s \<and> utf8_valid s"

definition on_sum :: "(sum_value \<Rightarrow> bool) \<Rightarrow> algebraic_value \<Rightarrow> bool" where
  "on_sum P v \<longleftrightarrow> (case v of VSum s \<Rightarrow> P s | _ \<Rightarrow> False)"

definition on_product :: "(algebraic_value list \<Rightarrow> bool) \<Rightarrow> algebraic_value \<Rightarrow> bool" where
  "on_product P v \<longleftrightarrow> (case v of VProduct us \<Rightarrow> P us | _ \<Rightarrow> False)"

definition on_array :: "(array_value \<Rightarrow> bool) \<Rightarrow> algebraic_value \<Rightarrow> bool" where
  "on_array P v \<longleftrightarrow> (case v of VArray a \<Rightarrow> P a | _ \<Rightarrow> False)"

definition on_sums :: "(sum_value \<Rightarrow> bool) \<Rightarrow> array_value \<Rightarrow> bool" where
  "on_sums P a \<longleftrightarrow> (case a of ASum ss \<Rightarrow> len32 ss \<and> (\<forall>s\<in>set ss. P s) | _ \<Rightarrow> False)"

definition on_products :: "(algebraic_value list \<Rightarrow> bool) \<Rightarrow> array_value \<Rightarrow> bool" where
  "on_products P a \<longleftrightarrow> (case a of AProduct uss \<Rightarrow> len32 uss \<and> (\<forall>us\<in>set uss. P us) | _ \<Rightarrow> False)"

definition on_arrays :: "(array_value \<Rightarrow> bool) \<Rightarrow> array_value \<Rightarrow> bool" where
  "on_arrays P a \<longleftrightarrow> (case a of AArray as \<Rightarrow> len32 as \<and> (\<forall>b\<in>set as. P b) | _ \<Rightarrow> False)"

fun typed :: "algebraic_type \<Rightarrow> algebraic_value \<Rightarrow> bool"
  and typed_sum :: "type_elements \<Rightarrow> sum_value \<Rightarrow> bool"
  and typed_variant :: "type_elements \<Rightarrow> nat \<Rightarrow> algebraic_value \<Rightarrow> bool"
  and typed_product :: "type_elements \<Rightarrow> algebraic_value list \<Rightarrow> bool"
  and typed_array :: "algebraic_type \<Rightarrow> array_value \<Rightarrow> bool" where
  "typed (TRef _) = (\<lambda>v. False)"
| "typed (TSum vs) = on_sum (typed_sum vs)"
| "typed (TProduct es) = on_product (typed_product es)"
| "typed (TArray t) = on_array (typed_array t)"
| "typed TBool = (\<lambda>v. (case v of VBool _ \<Rightarrow> True | _ \<Rightarrow> False))"
| "typed TI8 = (\<lambda>v. (case v of VI8 _ \<Rightarrow> True | _ \<Rightarrow> False))"
| "typed TU8 = (\<lambda>v. (case v of VU8 _ \<Rightarrow> True | _ \<Rightarrow> False))"
| "typed TI16 = (\<lambda>v. (case v of VI16 _ \<Rightarrow> True | _ \<Rightarrow> False))"
| "typed TU16 = (\<lambda>v. (case v of VU16 _ \<Rightarrow> True | _ \<Rightarrow> False))"
| "typed TI32 = (\<lambda>v. (case v of VI32 _ \<Rightarrow> True | _ \<Rightarrow> False))"
| "typed TU32 = (\<lambda>v. (case v of VU32 _ \<Rightarrow> True | _ \<Rightarrow> False))"
| "typed TI64 = (\<lambda>v. (case v of VI64 _ \<Rightarrow> True | _ \<Rightarrow> False))"
| "typed TU64 = (\<lambda>v. (case v of VU64 _ \<Rightarrow> True | _ \<Rightarrow> False))"
| "typed TI128 = (\<lambda>v. (case v of VI128 _ \<Rightarrow> True | _ \<Rightarrow> False))"
| "typed TU128 = (\<lambda>v. (case v of VU128 _ \<Rightarrow> True | _ \<Rightarrow> False))"
| "typed TI256 = (\<lambda>v. (case v of VI256 _ \<Rightarrow> True | _ \<Rightarrow> False))"
| "typed TU256 = (\<lambda>v. (case v of VU256 _ \<Rightarrow> True | _ \<Rightarrow> False))"
| "typed TF32 = (\<lambda>v. (case v of VF32 _ \<Rightarrow> True | _ \<Rightarrow> False))"
| "typed TF64 = (\<lambda>v. (case v of VF64 _ \<Rightarrow> True | _ \<Rightarrow> False))"
| "typed TString = (\<lambda>v. (case v of VString s \<Rightarrow> str_ok s | _ \<Rightarrow> False))"
| "typed_sum vs s \<longleftrightarrow> (case s of SumValue tag v \<Rightarrow> typed_variant vs (unat tag) v)"
| "typed_variant [] k v \<longleftrightarrow> False"
| "typed_variant ((name, t) # vs) k v \<longleftrightarrow> (case k of 0 \<Rightarrow> typed t v | Suc k' \<Rightarrow> typed_variant vs k' v)"
| "typed_product [] us \<longleftrightarrow> us = []"
| "typed_product ((name, t) # es) us \<longleftrightarrow> (case us of [] \<Rightarrow> False | u # us' \<Rightarrow> typed t u \<and> typed_product es us')"
| "typed_array (TRef _) = (\<lambda>a. False)"
| "typed_array (TSum vs) = on_sums (typed_sum vs)"
| "typed_array (TProduct es) = on_products (typed_product es)"
| "typed_array (TArray t) = on_arrays (typed_array t)"
| "typed_array TBool = (\<lambda>a. (case a of ABool xs \<Rightarrow> len32 xs | _ \<Rightarrow> False))"
| "typed_array TI8 = (\<lambda>a. (case a of AI8 xs \<Rightarrow> len32 xs | _ \<Rightarrow> False))"
| "typed_array TU8 = (\<lambda>a. (case a of AU8 xs \<Rightarrow> len32 xs | _ \<Rightarrow> False))"
| "typed_array TI16 = (\<lambda>a. (case a of AI16 xs \<Rightarrow> len32 xs | _ \<Rightarrow> False))"
| "typed_array TU16 = (\<lambda>a. (case a of AU16 xs \<Rightarrow> len32 xs | _ \<Rightarrow> False))"
| "typed_array TI32 = (\<lambda>a. (case a of AI32 xs \<Rightarrow> len32 xs | _ \<Rightarrow> False))"
| "typed_array TU32 = (\<lambda>a. (case a of AU32 xs \<Rightarrow> len32 xs | _ \<Rightarrow> False))"
| "typed_array TI64 = (\<lambda>a. (case a of AI64 xs \<Rightarrow> len32 xs | _ \<Rightarrow> False))"
| "typed_array TU64 = (\<lambda>a. (case a of AU64 xs \<Rightarrow> len32 xs | _ \<Rightarrow> False))"
| "typed_array TI128 = (\<lambda>a. (case a of AI128 xs \<Rightarrow> len32 xs | _ \<Rightarrow> False))"
| "typed_array TU128 = (\<lambda>a. (case a of AU128 xs \<Rightarrow> len32 xs | _ \<Rightarrow> False))"
| "typed_array TI256 = (\<lambda>a. (case a of AI256 xs \<Rightarrow> len32 xs | _ \<Rightarrow> False))"
| "typed_array TU256 = (\<lambda>a. (case a of AU256 xs \<Rightarrow> len32 xs | _ \<Rightarrow> False))"
| "typed_array TF32 = (\<lambda>a. (case a of AF32 xs \<Rightarrow> len32 xs | _ \<Rightarrow> False))"
| "typed_array TF64 = (\<lambda>a. (case a of AF64 xs \<Rightarrow> len32 xs | _ \<Rightarrow> False))"
| "typed_array TString = (\<lambda>a. (case a of AString ss \<Rightarrow> len32 ss \<and> (\<forall>s\<in>set ss. str_ok s) | _ \<Rightarrow> False))"

subsection \<open>The bytes of a value\<close>

definition len_bytes :: "'a list \<Rightarrow> byte list" where
  "len_bytes xs = to_le_bytes 4 (of_nat (length xs) :: u32)"

definition seq_bytes :: "('a \<Rightarrow> byte list) \<Rightarrow> 'a list \<Rightarrow> byte list" where
  "seq_bytes f xs = len_bytes xs @ concat (map f xs)"

definition str_bytes :: "byte list \<Rightarrow> byte list" where
  "str_bytes s = len_bytes s @ s"

fun value_bytes :: "algebraic_value \<Rightarrow> byte list"
  and sum_bytes :: "sum_value \<Rightarrow> byte list"
  and array_bytes :: "array_value \<Rightarrow> byte list" where
  "value_bytes VMin = []"
| "value_bytes VMax = []"
| "value_bytes (VSum s) = sum_bytes s"
| "value_bytes (VProduct vs) = concat (map value_bytes vs)"
| "value_bytes (VArray a) = array_bytes a"
| "value_bytes (VBool b) = to_le_bytes 1 (of_bool b :: u8)"
| "value_bytes (VI8 w) = to_le_bytes 1 w"
| "value_bytes (VU8 w) = to_le_bytes 1 w"
| "value_bytes (VI16 w16) = to_le_bytes 2 w16"
| "value_bytes (VU16 w16) = to_le_bytes 2 w16"
| "value_bytes (VI32 w32) = to_le_bytes 4 w32"
| "value_bytes (VU32 w32) = to_le_bytes 4 w32"
| "value_bytes (VI64 w64) = to_le_bytes 8 w64"
| "value_bytes (VU64 w64) = to_le_bytes 8 w64"
| "value_bytes (VI128 w128) = to_le_bytes 16 w128"
| "value_bytes (VU128 w128) = to_le_bytes 16 w128"
| "value_bytes (VI256 w256) = to_le_bytes 32 w256"
| "value_bytes (VU256 w256) = to_le_bytes 32 w256"
| "value_bytes (VF32 w32) = to_le_bytes 4 w32"
| "value_bytes (VF64 w64) = to_le_bytes 8 w64"
| "value_bytes (VString s) = str_bytes s"
| "sum_bytes (SumValue tag v) = to_le_bytes 1 tag @ value_bytes v"
| "array_bytes (ASum ss) = len_bytes ss @ concat (map sum_bytes ss)"
| "array_bytes (AProduct vss) = len_bytes vss @ concat (map (\<lambda>vs. concat (map value_bytes vs)) vss)"
| "array_bytes (AArray as) = len_bytes as @ concat (map array_bytes as)"
| "array_bytes (ABool bs) = seq_bytes (\<lambda>b. to_le_bytes 1 (of_bool b :: u8)) bs"
| "array_bytes (AI8 ws) = seq_bytes (to_le_bytes 1) ws"
| "array_bytes (AU8 ws) = str_bytes ws"
| "array_bytes (AI16 w16s) = seq_bytes (to_le_bytes 2) w16s"
| "array_bytes (AU16 w16s) = seq_bytes (to_le_bytes 2) w16s"
| "array_bytes (AI32 w32s) = seq_bytes (to_le_bytes 4) w32s"
| "array_bytes (AU32 w32s) = seq_bytes (to_le_bytes 4) w32s"
| "array_bytes (AI64 w64s) = seq_bytes (to_le_bytes 8) w64s"
| "array_bytes (AU64 w64s) = seq_bytes (to_le_bytes 8) w64s"
| "array_bytes (AI128 w128s) = seq_bytes (to_le_bytes 16) w128s"
| "array_bytes (AU128 w128s) = seq_bytes (to_le_bytes 16) w128s"
| "array_bytes (AI256 w256s) = seq_bytes (to_le_bytes 32) w256s"
| "array_bytes (AU256 w256s) = seq_bytes (to_le_bytes 32) w256s"
| "array_bytes (AF32 w32s) = seq_bytes (to_le_bytes 4) w32s"
| "array_bytes (AF64 w64s) = seq_bytes (to_le_bytes 8) w64s"
| "array_bytes (AString strs) = seq_bytes str_bytes strs"

abbreviation product_bytes :: "algebraic_value list \<Rightarrow> byte list" where
  "product_bytes vs \<equiv> concat (map value_bytes vs)"

subsection \<open>Exact readers\<close>

text \<open>\<open>exact m P f\<close>: \<open>m\<close> returns \<open>x\<close> precisely when the input starts with the bytes \<open>f x\<close> of an admissible \<open>x\<close>.\<close>

definition exact :: "'a de \<Rightarrow> ('a \<Rightarrow> bool) \<Rightarrow> ('a \<Rightarrow> byte list) \<Rightarrow> bool" where
  "exact m P f \<longleftrightarrow> (\<forall>bs x r. m bs = (Inr x, r) \<longleftrightarrow> P x \<and> bs = f x @ r)"

named_theorems exacts

lemma exactD: "exact m P f \<Longrightarrow> m bs = (Inr x, r) \<longleftrightarrow> P x \<and> bs = f x @ r"
  by (simp add: exact_def)

lemma exact_map:
  assumes "exact m P f" and "\<And>y. P' y \<longleftrightarrow> (\<exists>x. y = C x \<and> P x)" and "\<And>x. f' (C x) = f x"
  shows "exact (map_ok C m) P' f'"
  unfolding exact_def map_ok_def andThen_eq_Inr_iff exactD [OF assms(1)] ret_def assms(2) by (auto simp: assms(3))

lemma de_Inr: "de m bs = (Inr x, r) \<longleftrightarrow> m bs = (Inr x, r)"
  by (auto simp: de_def map_err_def split: prod.splits sum.splits)

lemma exact_de: "(\<And>bs x r. m bs = (Inr x, r) \<longleftrightarrow> bs = f x @ r) \<Longrightarrow> exact (de m) (\<lambda>_. True) f"
  by (simp add: exact_def de_Inr)

lemma get_int_exact:
  fixes x :: "'a::len word"
  assumes "LENGTH('a) = 8 * n"
  shows "get_int t n bs = (Inr x, r) \<longleftrightarrow> bs = to_le_bytes n x @ r"
proof
  assume "get_int t n bs = (Inr x, r)"
  then have "n \<le> length bs" "x = from_le_bytes (take n bs)" "r = drop n bs"
    by (auto simp: get_int_def get_chunk_def split: if_splits)
  with assms show "bs = to_le_bytes n x @ r" by (simp add: to_le_bytes_from_le_bytes)
qed (use get_int_append [OF assms, of t x r] in simp)

lemma exact_ints [exacts]:
  "exact (de get_u8) (\<lambda>_. True) (to_le_bytes 1)" "exact (de get_i8) (\<lambda>_. True) (to_le_bytes 1)"
  "exact (de get_u16) (\<lambda>_. True) (to_le_bytes 2)" "exact (de get_i16) (\<lambda>_. True) (to_le_bytes 2)"
  "exact (de get_u32) (\<lambda>_. True) (to_le_bytes 4)" "exact (de get_i32) (\<lambda>_. True) (to_le_bytes 4)"
  "exact (de get_u64) (\<lambda>_. True) (to_le_bytes 8)" "exact (de get_i64) (\<lambda>_. True) (to_le_bytes 8)"
  "exact (de get_u128) (\<lambda>_. True) (to_le_bytes 16)" "exact (de get_i128) (\<lambda>_. True) (to_le_bytes 16)"
  "exact (de get_u256) (\<lambda>_. True) (to_le_bytes 32)" "exact (de get_i256) (\<lambda>_. True) (to_le_bytes 32)"
  unfolding get_u8_def get_u16_def get_u32_def get_u64_def get_u128_def get_u256_def
    get_i8_def get_i16_def get_i32_def get_i64_def get_i128_def get_i256_def
  by (rule exact_de, rule get_int_exact, simp)+

lemma exact_bool [exacts]: "exact deserialize_bool (\<lambda>_. True) (\<lambda>b. to_le_bytes 1 (of_bool b :: u8))"
proof -
  have "(if b = 0 then ret False else if b = 1 then ret True else fail_with (Failed (InvalidBool b))) s = (Inr x, r) \<longleftrightarrow>
      b = of_bool x \<and> s = r" for b :: u8 and s r x
    by (auto simp: ret_def fail_with_def)
  note return = this
  show ?thesis
    unfolding exact_def deserialize_bool_def andThen_eq_Inr_iff exactD [OF exact_ints(1)] return
    by (simp del: to_le_bytes.simps)
qed

lemma exact_len:
  "deserialize_len bs = (Inr n, r) \<longleftrightarrow> n < 2 ^ 32 \<and> bs = to_le_bytes 4 (of_nat n :: u32) @ r"
proof -
  have "deserialize_len bs = (Inr n, r) \<longleftrightarrow> (\<exists>w. n = unat w \<and> bs = to_le_bytes 4 (w :: u32) @ r)"
    unfolding deserialize_len_def map_ok_def andThen_eq_Inr_iff exactD [OF exact_ints(5)] by (auto simp: ret_def)
  moreover have "unat w < 2 ^ 32" for w :: u32 using unsigned_less [of w] by simp
  moreover have "n < 2 ^ 32 \<Longrightarrow> unat (of_nat n :: u32) = n" by (rule unat_of_nat_id) simp
  moreover have "of_nat (unat w) = w" for w :: u32 by simp
  ultimately show ?thesis by metis
qed

lemma exact_slice: "de (get_slice n) s = (Inr x, r) \<longleftrightarrow> length x = n \<and> s = x @ r"
  by (auto simp: de_Inr get_slice_def get_chunk_def)

lemma exact_bytes [exacts]: "exact deserialize_bytes len32 str_bytes"
  unfolding exact_def deserialize_bytes_def andThen_eq_Inr_iff exact_len exact_slice
  by (auto simp: len32_def str_bytes_def len_bytes_def simp del: to_le_bytes.simps)

lemma exact_str [exacts]: "exact deserialize_str str_ok str_bytes"
  unfolding exact_def deserialize_str_def andThen_eq_Inr_iff exactD [OF exact_bytes]
  by (auto simp: ret_def fail_with_def str_ok_def split: if_splits)

lemma exact_collect:
  "exact m P f \<Longrightarrow> collect_n n m bs = (Inr xs, r) \<longleftrightarrow> length xs = n \<and> (\<forall>x\<in>set xs. P x) \<and> bs = concat (map f xs) @ r"
proof (induction n arbitrary: bs xs r)
  case 0
  then show ?case by (auto simp: ret_def)
next
  case (Suc n)
  show ?case
    unfolding collect_n.simps andThen_eq_Inr_iff exactD [OF Suc.prems] Suc.IH [OF Suc.prems]
    by (cases xs) (auto simp: ret_def)
qed

lemma exact_seq [exacts]:
  "exact m P f \<Longrightarrow> exact (deserialize_array_seed m) (\<lambda>xs. len32 xs \<and> (\<forall>x\<in>set xs. P x)) (seq_bytes f)"
proof -
  assume m: "exact m P f"
  show ?thesis
    unfolding exact_def deserialize_array_seed_def andThen_eq_Inr_iff exact_len exact_collect [OF m]
    by (auto simp: seq_bytes_def len_bytes_def len32_def simp del: to_le_bytes.simps)
qed

lemma exact_fail: "exact (fail_with e) (\<lambda>_. False) f"
  by (simp add: exact_def fail_with_def)

lemma exact_sum:
  assumes "\<And>tag. exact (deserialize_variant vs (unat tag) tag) (typed_variant vs (unat tag)) value_bytes"
  shows "exact (deserialize_sum vs) (typed_sum vs) sum_bytes"
  unfolding exact_def deserialize_sum.simps map_ok_def andThen_eq_Inr_iff exactD [OF exact_ints(1)] exactD [OF assms]
proof (intro allI)
  fix bs s r
  obtain tag v where s: "s = SumValue tag v" by (cases s)
  show "(\<exists>x s'. (True \<and> bs = to_le_bytes 1 x @ s') \<and> (\<exists>xa s'a. (typed_variant vs (unat x) xa \<and> s' = value_bytes xa @ s'a) \<and>
      ret (SumValue x xa) s'a = (Inr s, r))) \<longleftrightarrow> typed_sum vs s \<and> bs = sum_bytes s @ r"
    by (auto simp: s ret_def simp del: to_le_bytes.simps)
qed

lemma exact_product:
  assumes "exact m P value_bytes" and "exact ms Q product_bytes"
  shows "exact (andThen m (\<lambda>v. andThen ms (\<lambda>vs. ret (v # vs)))) (\<lambda>us. case us of [] \<Rightarrow> False | u # us' \<Rightarrow> P u \<and> Q us') product_bytes"
  unfolding exact_def andThen_eq_Inr_iff exactD [OF assms(1)] exactD [OF assms(2)]
  by (auto simp: ret_def split: list.splits)

lemma on_iff:
  "on_sum P v \<longleftrightarrow> (\<exists>s. v = VSum s \<and> P s)" "on_product Q v \<longleftrightarrow> (\<exists>us. v = VProduct us \<and> Q us)"
  "on_array R v \<longleftrightarrow> (\<exists>a. v = VArray a \<and> R a)"
  "on_sums P a \<longleftrightarrow> (\<exists>ss. a = ASum ss \<and> len32 ss \<and> (\<forall>s\<in>set ss. P s))"
  "on_products Q a \<longleftrightarrow> (\<exists>uss. a = AProduct uss \<and> len32 uss \<and> (\<forall>us\<in>set uss. Q us))"
  "on_arrays R a \<longleftrightarrow> (\<exists>as. a = AArray as \<and> len32 as \<and> (\<forall>b\<in>set as. R b))"
  by (auto simp: on_sum_def on_product_def on_array_def on_sums_def on_products_def on_arrays_def
      split: algebraic_value.splits array_value.splits)

lemma deserialize_exact:
  "exact (deserialize_value t) (typed t) value_bytes"
  "exact (deserialize_sum vs) (typed_sum vs) sum_bytes"
  "exact (deserialize_variant vs k tag) (typed_variant vs k) value_bytes"
  "exact (visit_seq_product vs) (typed_product vs) product_bytes"
  "exact (deserialize_array t) (typed_array t) array_bytes"
proof (induction t and vs and vs k tag and vs and t rule: deserialize_value_deserialize_sum_deserialize_variant_visit_seq_product_deserialize_array.induct)
  case (2 vs)
  then show ?case unfolding deserialize_value.simps typed.simps by (rule exact_map) (simp_all add: on_iff)
next
  case (3 es)
  then show ?case unfolding deserialize_value.simps typed.simps by (rule exact_map) (simp_all add: on_iff)
next
  case (4 t)
  then show ?case unfolding deserialize_value.simps typed.simps by (rule exact_map) (simp_all add: on_iff)
next
  case (21 vs)
  then show ?case by (rule exact_sum)
next
  case (22 k tag)
  then show ?case by (simp add: exact_def fail_with_def)
next
  case 24
  then show ?case by (auto simp: exact_def ret_def)
next
  case (23 name t vs k tag)
  then show ?case by (cases k) simp_all
next
  case (25 name t es)
  have "typed_product ((name, t) # es) = (\<lambda>us. case us of [] \<Rightarrow> False | u # us' \<Rightarrow> typed t u \<and> typed_product es us')"
    by (rule ext) simp
  with exact_product [OF 25(1) 25(2)] show ?case by simp
next
  case (27 vs)
  have "exact (deserialize_array_seed (deserialize_sum vs)) (\<lambda>xs. len32 xs \<and> (\<forall>x\<in>set xs. typed_sum vs x)) (seq_bytes sum_bytes)"
    using 27 by (rule exact_seq)
  then show ?case unfolding deserialize_array.simps typed_array.simps by (rule exact_map) (simp_all add: on_iff seq_bytes_def)
next
  case (28 es)
  have "exact (deserialize_array_seed (visit_seq_product es)) (\<lambda>xs. len32 xs \<and> (\<forall>x\<in>set xs. typed_product es x)) (seq_bytes product_bytes)"
    using 28 by (rule exact_seq)
  then show ?case unfolding deserialize_array.simps typed_array.simps by (rule exact_map) (simp_all add: on_iff seq_bytes_def)
next
  case (29 t)
  have "exact (deserialize_array_seed (deserialize_array t)) (\<lambda>xs. len32 xs \<and> (\<forall>x\<in>set xs. typed_array t x)) (seq_bytes array_bytes)"
    using 29 by (rule exact_seq)
  then show ?case unfolding deserialize_array.simps typed_array.simps by (rule exact_map) (simp_all add: on_iff seq_bytes_def)
qed (unfold deserialize_value.simps deserialize_array.simps typed.simps typed_array.simps,
    (rule exact_fail | (rule exact_map, (rule exacts)+, (auto split: algebraic_value.splits array_value.splits)[1], simp add: seq_bytes_def))+)

subsection \<open>Writing the bytes of a value\<close>

definition emits :: "ser \<Rightarrow> byte list \<Rightarrow> bool" where
  "emits m b \<longleftrightarrow> (\<forall>out. m out = (Inr (), out @ b))"

lemma emits_ret: "emits (ret ()) []"
  by (simp add: emits_def ret_def)

lemma emits_andThen: "emits m b \<Longrightarrow> emits k c \<Longrightarrow> emits (andThen m (\<lambda>_. k)) (b @ c)"
  by (simp add: emits_def andThen_def)

lemma emits_ints [simp]:
  "emits (writes (put_u8 a)) (to_le_bytes 1 a)" "emits (writes (put_u16 b)) (to_le_bytes 2 b)"
  "emits (writes (put_u32 c)) (to_le_bytes 4 c)" "emits (writes (put_u64 d)) (to_le_bytes 8 d)"
  "emits (writes (put_u128 e)) (to_le_bytes 16 e)" "emits (writes (put_u256 f)) (to_le_bytes 32 f)"
  by (simp_all add: emits_def writes_def del: to_le_bytes.simps One_nat_def)

lemma emits_bool [simp]: "emits (serialize_bool b) (to_le_bytes 1 (of_bool b :: u8))"
  unfolding serialize_bool_def by (rule emits_ints)

lemma emits_len: "len32 xs \<Longrightarrow> emits (put_len (length xs)) (len_bytes xs)"
  by (simp add: put_len_def len32_def len_bytes_def del: to_le_bytes.simps)

lemma emits_bytes [simp]: "len32 s \<Longrightarrow> emits (serialize_bytes s) (str_bytes s)"
  unfolding serialize_bytes_def str_bytes_def
  by (rule emits_andThen, rule emits_len) (simp_all add: emits_def writes_def put_slice_def)

lemma emits_str [simp]: "str_ok s \<Longrightarrow> emits (serialize_str s) (str_bytes s)"
  by (simp add: serialize_str_def str_ok_def)

lemma emits_elements: "\<forall>x\<in>set xs. emits (f x) (g x) \<Longrightarrow> emits (serialize_elements f xs) (concat (map g xs))"
  by (induction xs) (simp_all add: emits_ret emits_andThen)

lemma emits_seq [simp]: "len32 xs \<Longrightarrow> \<forall>x\<in>set xs. emits (f x) (g x) \<Longrightarrow> emits (serialize_array f xs) (seq_bytes g xs)"
  unfolding serialize_array_def seq_bytes_def by (intro emits_andThen emits_len emits_elements)

lemma serialize_elements_of:
  "serialize_sums ss = serialize_elements serialize_sum ss"
  "serialize_products vss = serialize_elements serialize_product vss"
  "serialize_arrays as = serialize_elements serialize_array_value as"
  by (induction ss, simp_all) (induction vss, simp_all, induction as, simp_all)

lemmas serialize_array_value_of = serialize_array_value.simps(1-3) [unfolded serialize_elements_of, folded serialize_array_def]

lemma typed_emits:
  "typed t v \<Longrightarrow> emits (serialize_value v) (value_bytes v)"
  "typed_sum vs s \<Longrightarrow> emits (serialize_sum s) (sum_bytes s)"
  "typed_variant vs k v \<Longrightarrow> emits (serialize_value v) (value_bytes v)"
  "typed_product vs us \<Longrightarrow> emits (serialize_product us) (product_bytes us)"
  "typed_array t a \<Longrightarrow> emits (serialize_array_value a) (array_bytes a)"
proof (induction t and vs s and vs k v and vs us and t arbitrary: v and and and and a
    rule: typed_typed_sum_typed_variant_typed_product_typed_array.induct)
  case (21 vs s)
  then show ?case by (cases s) (auto intro: emits_andThen simp del: to_le_bytes.simps One_nat_def)
next
  case (25 name t es us)
  then show ?case by (cases us) (auto intro: emits_andThen)
next
  case (27 vs)
  then show ?case by (auto simp: on_iff serialize_array_value_of simp flip: seq_bytes_def simp del: serialize_array_value.simps(1-3))
next
  case (28 es)
  then show ?case by (auto simp: on_iff serialize_array_value_of simp flip: seq_bytes_def simp del: serialize_array_value.simps(1-3))
next
  case (29 t)
  then show ?case by (auto simp: on_iff serialize_array_value_of simp flip: seq_bytes_def simp del: serialize_array_value.simps(1-3))
qed (auto simp: on_iff emits_ret simp del: to_le_bytes.simps One_nat_def split: nat.splits algebraic_value.splits array_value.splits)

lemma typed_to_vec: "typed t v \<Longrightarrow> to_vec v = Inr (value_bytes v)"
  using typed_emits(1) [of t v] by (simp add: emits_def to_vec_def)

lemma decode_iff: "decode t bs = (Inr v, r) \<longleftrightarrow> typed t v \<and> bs = value_bytes v @ r"
  unfolding decode_def by (rule exactD [OF deserialize_exact(1)])

subsection \<open>Inferring the type of a value\<close>

fun type_of :: "algebraic_value \<Rightarrow> algebraic_type option"
  and type_of_product :: "algebraic_value list \<Rightarrow> type_elements option"
  and type_of_array :: "array_value \<Rightarrow> algebraic_type option" where
  "type_of (VSum _) = None"
| "type_of (VProduct vs) = map_option TProduct (type_of_product vs)"
| "type_of (VArray a) = map_option TArray (type_of_array a)"
| "type_of (VBool _) = Some TBool"
| "type_of (VI8 _) = Some TI8"
| "type_of (VU8 _) = Some TU8"
| "type_of (VI16 _) = Some TI16"
| "type_of (VU16 _) = Some TU16"
| "type_of (VI32 _) = Some TI32"
| "type_of (VU32 _) = Some TU32"
| "type_of (VI64 _) = Some TI64"
| "type_of (VU64 _) = Some TU64"
| "type_of (VI128 _) = Some TI128"
| "type_of (VU128 _) = Some TU128"
| "type_of (VI256 _) = Some TI256"
| "type_of (VU256 _) = Some TU256"
| "type_of (VF32 _) = Some TF32"
| "type_of (VF64 _) = Some TF64"
| "type_of (VString _) = Some TString"
| "type_of VMin = None"
| "type_of VMax = None"
| "type_of_product [] = Some []"
| "type_of_product (v # vs) =
     (case type_of v of
        None \<Rightarrow> None
      | Some t \<Rightarrow> map_option (\<lambda>es. (None, t) # es) (type_of_product vs))"
| "type_of_array (ASum _) = None"
| "type_of_array (AProduct vss) = (case vss of [] \<Rightarrow> None | vs # _ \<Rightarrow> map_option TProduct (type_of_product vs))"
| "type_of_array (ABool _) = Some TBool"
| "type_of_array (AI8 _) = Some TI8"
| "type_of_array (AU8 _) = Some TU8"
| "type_of_array (AI16 _) = Some TI16"
| "type_of_array (AU16 _) = Some TU16"
| "type_of_array (AI32 _) = Some TI32"
| "type_of_array (AU32 _) = Some TU32"
| "type_of_array (AI64 _) = Some TI64"
| "type_of_array (AU64 _) = Some TU64"
| "type_of_array (AI128 _) = Some TI128"
| "type_of_array (AU128 _) = Some TU128"
| "type_of_array (AI256 _) = Some TI256"
| "type_of_array (AU256 _) = Some TU256"
| "type_of_array (AF32 _) = Some TF32"
| "type_of_array (AF64 _) = Some TF64"
| "type_of_array (AString _) = Some TString"
| "type_of_array (AArray as) = (case as of [] \<Rightarrow> None | a # _ \<Rightarrow> map_option TArray (type_of_array a))"

text \<open>The type without the names of its elements and variants.\<close>

fun anon :: "algebraic_type \<Rightarrow> algebraic_type" where
  "anon (TSum vs) = TSum (map (\<lambda>(_, t). (None, anon t)) vs)"
| "anon (TProduct es) = TProduct (map (\<lambda>(_, t). (None, anon t)) es)"
| "anon (TArray t) = TArray (anon t)"
| "anon t = t"

lemma typed_leaf:
  "typed t (VBool x0) \<longleftrightarrow> t = TBool" "typed t (VI8 x1) \<longleftrightarrow> t = TI8"
  "typed t (VU8 x2) \<longleftrightarrow> t = TU8" "typed t (VI16 x3) \<longleftrightarrow> t = TI16"
  "typed t (VU16 x4) \<longleftrightarrow> t = TU16" "typed t (VI32 x5) \<longleftrightarrow> t = TI32"
  "typed t (VU32 x6) \<longleftrightarrow> t = TU32" "typed t (VI64 x7) \<longleftrightarrow> t = TI64"
  "typed t (VU64 x8) \<longleftrightarrow> t = TU64" "typed t (VI128 x9) \<longleftrightarrow> t = TI128"
  "typed t (VU128 x10) \<longleftrightarrow> t = TU128" "typed t (VI256 x11) \<longleftrightarrow> t = TI256"
  "typed t (VU256 x12) \<longleftrightarrow> t = TU256" "typed t (VF32 x13) \<longleftrightarrow> t = TF32"
  "typed t (VF64 x14) \<longleftrightarrow> t = TF64"
  "typed t (VString s) \<longleftrightarrow> t = TString \<and> str_ok s"
  "typed t (VProduct us) \<longleftrightarrow> (\<exists>es. t = TProduct es \<and> typed_product es us)"
  "typed t (VArray a) \<longleftrightarrow> (\<exists>t'. t = TArray t' \<and> typed_array t' a)"
  by (cases t; simp add: on_iff)+

lemma typed_array_leaf:
  "typed_array t (ABool xs0) \<longleftrightarrow> t = TBool \<and> len32 xs0" "typed_array t (AI8 xs1) \<longleftrightarrow> t = TI8 \<and> len32 xs1"
  "typed_array t (AU8 xs2) \<longleftrightarrow> t = TU8 \<and> len32 xs2" "typed_array t (AI16 xs3) \<longleftrightarrow> t = TI16 \<and> len32 xs3"
  "typed_array t (AU16 xs4) \<longleftrightarrow> t = TU16 \<and> len32 xs4" "typed_array t (AI32 xs5) \<longleftrightarrow> t = TI32 \<and> len32 xs5"
  "typed_array t (AU32 xs6) \<longleftrightarrow> t = TU32 \<and> len32 xs6" "typed_array t (AI64 xs7) \<longleftrightarrow> t = TI64 \<and> len32 xs7"
  "typed_array t (AU64 xs8) \<longleftrightarrow> t = TU64 \<and> len32 xs8" "typed_array t (AI128 xs9) \<longleftrightarrow> t = TI128 \<and> len32 xs9"
  "typed_array t (AU128 xs10) \<longleftrightarrow> t = TU128 \<and> len32 xs10" "typed_array t (AI256 xs11) \<longleftrightarrow> t = TI256 \<and> len32 xs11"
  "typed_array t (AU256 xs12) \<longleftrightarrow> t = TU256 \<and> len32 xs12" "typed_array t (AF32 xs13) \<longleftrightarrow> t = TF32 \<and> len32 xs13"
  "typed_array t (AF64 xs14) \<longleftrightarrow> t = TF64 \<and> len32 xs14"
  "typed_array t (AString ss) \<longleftrightarrow> t = TString \<and> len32 ss \<and> (\<forall>s\<in>set ss. str_ok s)"
  "typed_array t (AProduct uss) \<longleftrightarrow> (\<exists>es. t = TProduct es \<and> len32 uss \<and> (\<forall>us\<in>set uss. typed_product es us))"
  "typed_array t (AArray as) \<longleftrightarrow> (\<exists>t'. t = TArray t' \<and> len32 as \<and> (\<forall>a\<in>set as. typed_array t' a))"
  by (cases t; simp add: on_iff)+

lemma type_of_typed:
  "type_of v = Some t' \<Longrightarrow> typed t v \<Longrightarrow> t' = anon t"
  "type_of_product us = Some es' \<Longrightarrow> typed_product es us \<Longrightarrow> es' = map (\<lambda>(_, t). (None, anon t)) es"
  "type_of_array a = Some t' \<Longrightarrow> typed_array t a \<Longrightarrow> t' = anon t"
proof (induction v and us and a arbitrary: t t' and es es' and t t' rule: type_of_type_of_product_type_of_array.induct)
  case 22
  then show ?case by (cases es) auto
next
  case (23 v vs)
  then show ?case by (cases es) (auto split: option.splits)
next
  case (25 vss)
  then show ?case by (auto simp: typed_array_leaf split: list.splits)
next
  case (42 as)
  then show ?case by (auto simp: typed_array_leaf split: list.splits)
qed (auto simp: typed_leaf typed_array_leaf)

lemma typed_anon:
  "typed (anon t) = typed t"
  "typed_sum (map (\<lambda>(_, t). (None, anon t)) vs) s = typed_sum vs s"
  "typed_variant (map (\<lambda>(_, t). (None, anon t)) vs) k v = typed_variant vs k v"
  "typed_product (map (\<lambda>(_, t). (None, anon t)) vs) us = typed_product vs us"
  "typed_array (anon t) = typed_array t"
proof (induction t and vs s and vs k v and vs us and t rule: typed_typed_sum_typed_variant_typed_product_typed_array.induct)
  case (21 vs s)
  then show ?case by (cases s) simp
next
  case (23 name t vs k v)
  then show ?case by (cases k) simp_all
next
  case (25 name t es us)
  then show ?case by (cases us) simp_all
qed (simp_all add: fun_eq_iff on_iff)

subsection \<open>What the encoding promises\<close>

text \<open>Claim C12. Decoding is type safe, and type inference agrees with it. Whatever the bytes are, a value that
  \<^const>\<open>decode\<close> returns at type \<open>t\<close> is a value of type \<open>t\<close>: sums carry the tag of a declared variant, products
  have every field in order, arrays are homogeneous, strings are UTF-8. If \<^const>\<open>type_of\<close> infers a type of that
  value, it is \<open>t\<close> with the names left out, and decoding the same bytes at the inferred type gives the same value.\<close>

theorem decode_typed:
  assumes "decode t bs = (Inr v, r)"
  shows "typed t v \<and> (\<forall>t'. type_of v = Some t' \<longrightarrow> t' = anon t \<and> decode t' bs = (Inr v, r))"
  using assms type_of_typed(1) [of v _ t] by (auto simp: decode_iff typed_anon(1))

theorem decode_typed_witness:
  "let t = TProduct [(Some ''x'', TU8), (None, TArray TBool)]; v = VProduct [VU8 7, VArray (ABool [True, False])];
       bs = [7, 2, 0, 0, 0, 1, 0, 9]
   in decode t bs = (Inr v, [9]) \<and> typed t v \<and> type_of v = Some (anon t) \<and> decode (anon t) bs = (Inr v, [9])"
proof -
  have "decode (TProduct [(Some ''x'', TU8), (None, TArray TBool)]) [7, 2, 0, 0, 0, 1, 0, 9] =
      (Inr (VProduct [VU8 7, VArray (ABool [True, False])]), [9])"
    by code_simp
  from this decode_typed [OF this] show ?thesis by simp
qed

text \<open>Claim C6. BSATN is a canonical encoding. Decoding \<open>bs\<close> at type \<open>t\<close> returns \<open>v\<close> and leaves \<open>r\<close> exactly when
  \<open>v\<close> is a value of type \<open>t\<close> and \<open>bs\<close> is what \<^const>\<open>to_vec\<close> writes for \<open>v\<close>, followed by \<open>r\<close>. So every value of a
  type serializes and reads back from any input it is a prefix of, no other bytes decode to it, and distinct values of
  a type never share an encoding, nor is one the prefix of the other.\<close>

theorem bsatn_canonical:
  "decode t bs = (Inr v, r) \<longleftrightarrow> typed t v \<and> (\<exists>b. to_vec v = Inr b \<and> bs = b @ r)"
  by (auto simp: decode_iff typed_to_vec)

end
