(* ===== verification/Bsatn_Ops.thy ===== *)
theory Bsatn_Ops
  imports Bsatn
begin

text \<open>
  Comparing and hashing algebraic values without decoding them: \<open>eq_bsatn\<close> compares a value with the BSATN encoding
  of another (\<^verbatim>\<open>crates/sats/src/bsatn/eq.rs\<close>), \<open>hash_bsatn\<close> feeds a hasher from an encoding
  (\<^verbatim>\<open>crates/sats/src/algebraic_value_hash.rs\<close>). Both are shown to agree with the operation on the decoded
  value. Equality and hashing of floats and hashing of 256-bit integers come from third-party crates and are
  parameters. The memory layout of integer slices is that of little-endian hosts, the ones SpacetimeDB targets.
\<close>

subsection \<open>Equality of values\<close>

text \<open>The derived \<^verbatim>\<open>PartialEq\<close>: the same variant and equal contents.\<close>

record float_eq =
  eq_f32 :: "u32 \<Rightarrow> u32 \<Rightarrow> bool"
  eq_f64 :: "u64 \<Rightarrow> u64 \<Rightarrow> bool"

definition on_f32 :: "(u32 \<Rightarrow> bool) \<Rightarrow> algebraic_value \<Rightarrow> bool" where
  "on_f32 P v \<longleftrightarrow> (case v of VF32 w \<Rightarrow> P w | _ \<Rightarrow> False)"

definition on_f64 :: "(u64 \<Rightarrow> bool) \<Rightarrow> algebraic_value \<Rightarrow> bool" where
  "on_f64 P v \<longleftrightarrow> (case v of VF64 w \<Rightarrow> P w | _ \<Rightarrow> False)"

definition on_a_sum :: "(sum_value list \<Rightarrow> bool) \<Rightarrow> array_value \<Rightarrow> bool" where
  "on_a_sum P a \<longleftrightarrow> (case a of ASum ss \<Rightarrow> P ss | _ \<Rightarrow> False)"

definition on_a_product :: "(algebraic_value list list \<Rightarrow> bool) \<Rightarrow> array_value \<Rightarrow> bool" where
  "on_a_product P a \<longleftrightarrow> (case a of AProduct vss \<Rightarrow> P vss | _ \<Rightarrow> False)"

definition on_a_array :: "(array_value list \<Rightarrow> bool) \<Rightarrow> array_value \<Rightarrow> bool" where
  "on_a_array P a \<longleftrightarrow> (case a of AArray as \<Rightarrow> P as | _ \<Rightarrow> False)"

definition on_a_f32 :: "(u32 list \<Rightarrow> bool) \<Rightarrow> array_value \<Rightarrow> bool" where
  "on_a_f32 P a \<longleftrightarrow> (case a of AF32 ws \<Rightarrow> P ws | _ \<Rightarrow> False)"

definition on_a_f64 :: "(u64 list \<Rightarrow> bool) \<Rightarrow> array_value \<Rightarrow> bool" where
  "on_a_f64 P a \<longleftrightarrow> (case a of AF64 ws \<Rightarrow> P ws | _ \<Rightarrow> False)"

definition on_cons :: "('a \<Rightarrow> bool) \<Rightarrow> ('a list \<Rightarrow> bool) \<Rightarrow> 'a list \<Rightarrow> bool" where
  "on_cons P Q xs \<longleftrightarrow> (case xs of [] \<Rightarrow> False | x # xs' \<Rightarrow> P x \<and> Q xs')"

definition on_sum_value :: "u8 \<Rightarrow> (algebraic_value \<Rightarrow> bool) \<Rightarrow> sum_value \<Rightarrow> bool" where
  "on_sum_value tag P s \<longleftrightarrow> (case s of SumValue tag' v \<Rightarrow> tag = tag' \<and> P v)"

fun value_eq :: "float_eq \<Rightarrow> algebraic_value \<Rightarrow> algebraic_value \<Rightarrow> bool"
  and sum_eq :: "float_eq \<Rightarrow> sum_value \<Rightarrow> sum_value \<Rightarrow> bool"
  and product_eq :: "float_eq \<Rightarrow> algebraic_value list \<Rightarrow> algebraic_value list \<Rightarrow> bool"
  and array_eq :: "float_eq \<Rightarrow> array_value \<Rightarrow> array_value \<Rightarrow> bool"
  and sums_eq :: "float_eq \<Rightarrow> sum_value list \<Rightarrow> sum_value list \<Rightarrow> bool"
  and products_eq :: "float_eq \<Rightarrow> algebraic_value list list \<Rightarrow> algebraic_value list list \<Rightarrow> bool"
  and arrays_eq :: "float_eq \<Rightarrow> array_value list \<Rightarrow> array_value list \<Rightarrow> bool" where
  "value_eq fe VMin = (=) VMin"
| "value_eq fe VMax = (=) VMax"
| "value_eq fe (VSum s) = on_sum (sum_eq fe s)"
| "value_eq fe (VProduct vs) = on_product (product_eq fe vs)"
| "value_eq fe (VArray a) = on_array (array_eq fe a)"
| "value_eq fe (VF32 w) = on_f32 (eq_f32 fe w)"
| "value_eq fe (VF64 w) = on_f64 (eq_f64 fe w)"
| "value_eq fe (VString s) = (=) (VString s)"
| "value_eq fe (VBool b) = (=) (VBool b)"
| "value_eq fe (VI8 x0) = (=) (VI8 x0)"
| "value_eq fe (VU8 x1) = (=) (VU8 x1)"
| "value_eq fe (VI16 x2) = (=) (VI16 x2)"
| "value_eq fe (VU16 x3) = (=) (VU16 x3)"
| "value_eq fe (VI32 x4) = (=) (VI32 x4)"
| "value_eq fe (VU32 x5) = (=) (VU32 x5)"
| "value_eq fe (VI64 x6) = (=) (VI64 x6)"
| "value_eq fe (VU64 x7) = (=) (VU64 x7)"
| "value_eq fe (VI128 x8) = (=) (VI128 x8)"
| "value_eq fe (VU128 x9) = (=) (VU128 x9)"
| "value_eq fe (VI256 x10) = (=) (VI256 x10)"
| "value_eq fe (VU256 x11) = (=) (VU256 x11)"
| "sum_eq fe (SumValue tag v) = on_sum_value tag (value_eq fe v)"
| "product_eq fe [] = (=) []"
| "product_eq fe (v # vs) = on_cons (value_eq fe v) (product_eq fe vs)"
| "array_eq fe (ASum ss) = on_a_sum (sums_eq fe ss)"
| "array_eq fe (AProduct vss) = on_a_product (products_eq fe vss)"
| "array_eq fe (AArray as) = on_a_array (arrays_eq fe as)"
| "array_eq fe (AF32 ws) = on_a_f32 (list_all2 (eq_f32 fe) ws)"
| "array_eq fe (AF64 ws) = on_a_f64 (list_all2 (eq_f64 fe) ws)"
| "array_eq fe (AString strs) = (=) (AString strs)"
| "array_eq fe (ABool bs) = (=) (ABool bs)"
| "array_eq fe (AI8 xs0) = (=) (AI8 xs0)"
| "array_eq fe (AU8 xs1) = (=) (AU8 xs1)"
| "array_eq fe (AI16 xs2) = (=) (AI16 xs2)"
| "array_eq fe (AU16 xs3) = (=) (AU16 xs3)"
| "array_eq fe (AI32 xs4) = (=) (AI32 xs4)"
| "array_eq fe (AU32 xs5) = (=) (AU32 xs5)"
| "array_eq fe (AI64 xs6) = (=) (AI64 xs6)"
| "array_eq fe (AU64 xs7) = (=) (AU64 xs7)"
| "array_eq fe (AI128 xs8) = (=) (AI128 xs8)"
| "array_eq fe (AU128 xs9) = (=) (AU128 xs9)"
| "array_eq fe (AI256 xs10) = (=) (AI256 xs10)"
| "array_eq fe (AU256 xs11) = (=) (AU256 xs11)"
| "sums_eq fe [] = (=) []"
| "sums_eq fe (s # ss) = on_cons (sum_eq fe s) (sums_eq fe ss)"
| "products_eq fe [] = (=) []"
| "products_eq fe (vs # vss) = on_cons (product_eq fe vs) (products_eq fe vss)"
| "arrays_eq fe [] = (=) []"
| "arrays_eq fe (a # as) = on_cons (array_eq fe a) (arrays_eq fe as)"

subsection \<open>Comparison with an encoding\<close>

definition eq_bsatn_de :: "'a de \<Rightarrow> ('a \<Rightarrow> bool) \<Rightarrow> bool de" where
  "eq_bsatn_de m equals bs =
     (case m bs of (Inl _, s) \<Rightarrow> (Inr False, s) | (Inr rhs, s) \<Rightarrow> (Inr (equals rhs), s))"

definition eq_bsatn_str :: "byte list \<Rightarrow> bool de" where
  "eq_bsatn_str lhs = eq_bsatn_de deserialize_str ((=) lhs)"

text \<open>Conjunction that stops at the first difference, as \<^verbatim>\<open>&&\<close> and \<^verbatim>\<open>Iterator::all\<close> do.\<close>

definition and_then :: "bool de \<Rightarrow> bool de \<Rightarrow> bool de" where
  "and_then m k = andThen m (\<lambda>b. if b then k else ret False)"

fun all_eq :: "('a \<Rightarrow> bool de) \<Rightarrow> 'a list \<Rightarrow> bool de" where
  "all_eq f [] = ret True"
| "all_eq f (x # xs) = and_then (f x) (all_eq f xs)"

definition eq_bsatn_len :: "nat \<Rightarrow> bool de \<Rightarrow> bool de" where
  "eq_bsatn_len n k bs =
     (case deserialize_len bs of
        (Inr len, s) \<Rightarrow> if n = len then k s else (Inr False, s)
      | (Inl _, s) \<Rightarrow> (Inr False, s))"

definition eq_bsatn_seq :: "('a \<Rightarrow> bool de) \<Rightarrow> 'a list \<Rightarrow> bool de" where
  "eq_bsatn_seq elem_eq lhs = eq_bsatn_len (length lhs) (all_eq elem_eq lhs)"

definition eq_bsatn_int_seq :: "nat \<Rightarrow> 'a::len word list \<Rightarrow> bool de" where
  "eq_bsatn_int_seq width lhs bs =
     (case deserialize_len bs of
        (Inl _, s) \<Rightarrow> (Inr False, s)
      | (Inr len, s) \<Rightarrow>
          (case de (get_slice (len * width)) s of
             (Inl _, s) \<Rightarrow> (Inr False, s)
           | (Inr rhs_bytes, s) \<Rightarrow> (Inr (concat (map (to_le_bytes width) lhs) = rhs_bytes), s)))"

fun eq_bsatn :: "float_eq \<Rightarrow> algebraic_value \<Rightarrow> bool de"
  and eq_bsatn_sum :: "float_eq \<Rightarrow> sum_value \<Rightarrow> bool de"
  and eq_bsatn_prod :: "float_eq \<Rightarrow> algebraic_value list \<Rightarrow> bool de"
  and eq_bsatn_array :: "float_eq \<Rightarrow> array_value \<Rightarrow> bool de"
  and eq_bsatn_sums :: "float_eq \<Rightarrow> sum_value list \<Rightarrow> bool de"
  and eq_bsatn_prods :: "float_eq \<Rightarrow> algebraic_value list list \<Rightarrow> bool de"
  and eq_bsatn_arrays :: "float_eq \<Rightarrow> array_value list \<Rightarrow> bool de" where
  "eq_bsatn fe VMin = fail_with DePanic"
| "eq_bsatn fe VMax = fail_with DePanic"
| "eq_bsatn fe (VSum s) = eq_bsatn_sum fe s"
| "eq_bsatn fe (VProduct vs) = eq_bsatn_prod fe vs"
| "eq_bsatn fe (VArray a) = eq_bsatn_array fe a"
| "eq_bsatn fe (VF32 w) = eq_bsatn_de (de get_u32) (eq_f32 fe w)"
| "eq_bsatn fe (VF64 w) = eq_bsatn_de (de get_u64) (eq_f64 fe w)"
| "eq_bsatn fe (VString s) = eq_bsatn_str s"
| "eq_bsatn fe (VBool b) = eq_bsatn_de deserialize_bool ((=) b)"
| "eq_bsatn fe (VI8 x0) = eq_bsatn_de (de get_i8) ((=) x0)"
| "eq_bsatn fe (VU8 x1) = eq_bsatn_de (de get_u8) ((=) x1)"
| "eq_bsatn fe (VI16 x2) = eq_bsatn_de (de get_i16) ((=) x2)"
| "eq_bsatn fe (VU16 x3) = eq_bsatn_de (de get_u16) ((=) x3)"
| "eq_bsatn fe (VI32 x4) = eq_bsatn_de (de get_i32) ((=) x4)"
| "eq_bsatn fe (VU32 x5) = eq_bsatn_de (de get_u32) ((=) x5)"
| "eq_bsatn fe (VI64 x6) = eq_bsatn_de (de get_i64) ((=) x6)"
| "eq_bsatn fe (VU64 x7) = eq_bsatn_de (de get_u64) ((=) x7)"
| "eq_bsatn fe (VI128 x8) = eq_bsatn_de (de get_i128) ((=) x8)"
| "eq_bsatn fe (VU128 x9) = eq_bsatn_de (de get_u128) ((=) x9)"
| "eq_bsatn fe (VI256 x10) = eq_bsatn_de (de get_i256) ((=) x10)"
| "eq_bsatn fe (VU256 x11) = eq_bsatn_de (de get_u256) ((=) x11)"
| "eq_bsatn_sum fe (SumValue tag v) = and_then (eq_bsatn_de (de get_u8) ((=) tag)) (eq_bsatn fe v)"
| "eq_bsatn_prod fe [] = ret True"
| "eq_bsatn_prod fe (v # vs) = and_then (eq_bsatn fe v) (eq_bsatn_prod fe vs)"
| "eq_bsatn_array fe (ASum ss) = eq_bsatn_len (length ss) (eq_bsatn_sums fe ss)"
| "eq_bsatn_array fe (AProduct vss) = eq_bsatn_len (length vss) (eq_bsatn_prods fe vss)"
| "eq_bsatn_array fe (AArray as) = eq_bsatn_len (length as) (eq_bsatn_arrays fe as)"
| "eq_bsatn_array fe (ABool bs) = eq_bsatn_seq (\<lambda>b. eq_bsatn_de deserialize_bool ((=) b)) bs"
| "eq_bsatn_array fe (AF32 ws) = eq_bsatn_seq (\<lambda>w. eq_bsatn_de (de get_u32) (eq_f32 fe w)) ws"
| "eq_bsatn_array fe (AF64 ws) = eq_bsatn_seq (\<lambda>w. eq_bsatn_de (de get_u64) (eq_f64 fe w)) ws"
| "eq_bsatn_array fe (AString strs) = eq_bsatn_seq eq_bsatn_str strs"
| "eq_bsatn_array fe (AI8 xs0) = eq_bsatn_int_seq 1 xs0"
| "eq_bsatn_array fe (AU8 xs1) = eq_bsatn_int_seq 1 xs1"
| "eq_bsatn_array fe (AI16 xs2) = eq_bsatn_int_seq 2 xs2"
| "eq_bsatn_array fe (AU16 xs3) = eq_bsatn_int_seq 2 xs3"
| "eq_bsatn_array fe (AI32 xs4) = eq_bsatn_int_seq 4 xs4"
| "eq_bsatn_array fe (AU32 xs5) = eq_bsatn_int_seq 4 xs5"
| "eq_bsatn_array fe (AI64 xs6) = eq_bsatn_int_seq 8 xs6"
| "eq_bsatn_array fe (AU64 xs7) = eq_bsatn_int_seq 8 xs7"
| "eq_bsatn_array fe (AI128 xs8) = eq_bsatn_int_seq 16 xs8"
| "eq_bsatn_array fe (AU128 xs9) = eq_bsatn_int_seq 16 xs9"
| "eq_bsatn_array fe (AI256 xs10) = eq_bsatn_int_seq 32 xs10"
| "eq_bsatn_array fe (AU256 xs11) = eq_bsatn_int_seq 32 xs11"
| "eq_bsatn_sums fe [] = ret True"
| "eq_bsatn_sums fe (s # ss) = and_then (eq_bsatn_sum fe s) (eq_bsatn_sums fe ss)"
| "eq_bsatn_prods fe [] = ret True"
| "eq_bsatn_prods fe (vs # vss) = and_then (eq_bsatn_prod fe vs) (eq_bsatn_prods fe vss)"
| "eq_bsatn_arrays fe [] = ret True"
| "eq_bsatn_arrays fe (a # as) = and_then (eq_bsatn_array fe a) (eq_bsatn_arrays fe as)"

subsection \<open>Hashing of values\<close>

text \<open>A hasher is observed through the calls it receives; its methods default to forwarding signed integers to
  unsigned ones, but each is its own call here, so that the results hold for any hasher.\<close>

datatype hash_call =
    CWrite "byte list"
  | CUsize nat
  | CI8 u8
  | CU8 u8
  | CI16 u16
  | CU16 u16
  | CI32 u32
  | CU32 u32
  | CI64 u64
  | CU64 u64
  | CI128 "128 word"
  | CU128 "128 word"

type_synonym hashes = "(hash_call list, unit, unit) act"

record hash_env =
  hash_f32 :: "u32 \<Rightarrow> hash_call list"
  hash_f64 :: "u64 \<Rightarrow> hash_call list"
  hash_i256 :: "256 word \<Rightarrow> hash_call list"
  hash_u256 :: "256 word \<Rightarrow> hash_call list"

definition calls :: "hash_call list \<Rightarrow> hashes" where
  "calls cs h = (Inr (), h @ cs)"

definition hash_bool :: "bool \<Rightarrow> hashes" where
  "hash_bool b = calls [CU8 (of_bool b)]"

definition hash_str :: "byte list \<Rightarrow> hashes" where
  "hash_str s = calls [CWrite s, CU8 0xff]"

definition hash_len_and_bytes :: "nat \<Rightarrow> byte list \<Rightarrow> hashes" where
  "hash_len_and_bytes len bytes = calls [CUsize len, CWrite bytes]"

definition hash_bytes_of :: "nat \<Rightarrow> 'a::len word list \<Rightarrow> hashes" where
  "hash_bytes_of width ws = hash_len_and_bytes (length ws) (concat (map (to_le_bytes width) ws))"

fun hash_each :: "('a \<Rightarrow> hashes) \<Rightarrow> 'a list \<Rightarrow> hashes" where
  "hash_each f [] = ret ()"
| "hash_each f (x # xs) = andThen (f x) (\<lambda>_. hash_each f xs)"

definition hash_slice :: "('a \<Rightarrow> hashes) \<Rightarrow> 'a list \<Rightarrow> hashes" where
  "hash_slice f xs = andThen (calls [CUsize (length xs)]) (\<lambda>_. hash_each f xs)"

fun hash_value :: "hash_env \<Rightarrow> algebraic_value \<Rightarrow> hashes"
  and hash_sum :: "hash_env \<Rightarrow> sum_value \<Rightarrow> hashes"
  and hash_product :: "hash_env \<Rightarrow> algebraic_value list \<Rightarrow> hashes"
  and hash_array :: "hash_env \<Rightarrow> array_value \<Rightarrow> hashes"
  and hash_sums :: "hash_env \<Rightarrow> sum_value list \<Rightarrow> hashes"
  and hash_products :: "hash_env \<Rightarrow> algebraic_value list list \<Rightarrow> hashes"
  and hash_arrays :: "hash_env \<Rightarrow> array_value list \<Rightarrow> hashes" where
  "hash_value he VMin = fail_with ()"
| "hash_value he VMax = fail_with ()"
| "hash_value he (VSum s) = hash_sum he s"
| "hash_value he (VProduct vs) = hash_product he vs"
| "hash_value he (VArray a) = hash_array he a"
| "hash_value he (VBool b) = hash_bool b"
| "hash_value he (VF32 w) = calls (hash_f32 he w)"
| "hash_value he (VF64 w) = calls (hash_f64 he w)"
| "hash_value he (VString s) = hash_str s"
| "hash_value he (VI8 x0) = calls [CI8 x0]"
| "hash_value he (VU8 x1) = calls [CU8 x1]"
| "hash_value he (VI16 x2) = calls [CI16 x2]"
| "hash_value he (VU16 x3) = calls [CU16 x3]"
| "hash_value he (VI32 x4) = calls [CI32 x4]"
| "hash_value he (VU32 x5) = calls [CU32 x5]"
| "hash_value he (VI64 x6) = calls [CI64 x6]"
| "hash_value he (VU64 x7) = calls [CU64 x7]"
| "hash_value he (VI128 x8) = calls [CI128 x8]"
| "hash_value he (VU128 x9) = calls [CU128 x9]"
| "hash_value he (VI256 x10) = calls (hash_i256 he x10)"
| "hash_value he (VU256 x11) = calls (hash_u256 he x11)"
| "hash_sum he (SumValue tag v) = andThen (calls [CU8 tag]) (\<lambda>_. hash_value he v)"
| "hash_product he [] = ret ()"
| "hash_product he (v # vs) = andThen (hash_value he v) (\<lambda>_. hash_product he vs)"
| "hash_array he (ASum ss) = andThen (calls [CUsize (length ss)]) (\<lambda>_. hash_sums he ss)"
| "hash_array he (AProduct vss) = andThen (calls [CUsize (length vss)]) (\<lambda>_. hash_products he vss)"
| "hash_array he (AArray as) = andThen (calls [CUsize (length as)]) (\<lambda>_. hash_arrays he as)"
| "hash_array he (ABool bs) = hash_slice hash_bool bs"
| "hash_array he (AF32 ws) = hash_slice (\<lambda>w. calls (hash_f32 he w)) ws"
| "hash_array he (AF64 ws) = hash_slice (\<lambda>w. calls (hash_f64 he w)) ws"
| "hash_array he (AString strs) = hash_slice hash_str strs"
| "hash_array he (AI8 xs0) = hash_bytes_of 1 xs0"
| "hash_array he (AU8 xs1) = hash_bytes_of 1 xs1"
| "hash_array he (AI16 xs2) = hash_bytes_of 2 xs2"
| "hash_array he (AU16 xs3) = hash_bytes_of 2 xs3"
| "hash_array he (AI32 xs4) = hash_bytes_of 4 xs4"
| "hash_array he (AU32 xs5) = hash_bytes_of 4 xs5"
| "hash_array he (AI64 xs6) = hash_bytes_of 8 xs6"
| "hash_array he (AU64 xs7) = hash_bytes_of 8 xs7"
| "hash_array he (AI128 xs8) = hash_bytes_of 16 xs8"
| "hash_array he (AU128 xs9) = hash_bytes_of 16 xs9"
| "hash_array he (AI256 xs10) = hash_bytes_of 32 xs10"
| "hash_array he (AU256 xs11) = hash_bytes_of 32 xs11"
| "hash_sums he [] = ret ()"
| "hash_sums he (s # ss) = andThen (hash_sum he s) (\<lambda>_. hash_sums he ss)"
| "hash_products he [] = ret ()"
| "hash_products he (vs # vss) = andThen (hash_product he vs) (\<lambda>_. hash_products he vss)"
| "hash_arrays he [] = ret ()"
| "hash_arrays he (a # as) = andThen (hash_array he a) (\<lambda>_. hash_arrays he as)"

subsection \<open>Hashing of encodings\<close>

type_synonym 'a hash_de = "(hash_call list \<times> byte list, de_error, 'a) act"

definition reads :: "'a de \<Rightarrow> 'a hash_de" where
  "reads m = (\<lambda>(h, bs). case m bs of (x, s) \<Rightarrow> (x, (h, s)))"

definition feeds :: "hashes \<Rightarrow> unit hash_de" where
  "feeds m = (\<lambda>(h, bs). case m h of (Inr _, h') \<Rightarrow> (Inr (), (h', bs)) | (Inl _, h') \<Rightarrow> (Inl DePanic, (h', bs)))"

definition hash_bsatn_de :: "'a de \<Rightarrow> ('a \<Rightarrow> hashes) \<Rightarrow> unit hash_de" where
  "hash_bsatn_de m hash = andThen (reads m) (\<lambda>x. feeds (hash x))"

fun try_for_each :: "nat \<Rightarrow> unit hash_de \<Rightarrow> unit hash_de" where
  "try_for_each 0 f = ret ()"
| "try_for_each (Suc n) f = andThen f (\<lambda>_. try_for_each n f)"

definition hash_bsatn_seq :: "unit hash_de \<Rightarrow> unit hash_de" where
  "hash_bsatn_seq elem_hash =
     andThen (reads deserialize_len) (\<lambda>len.
     andThen (feeds (calls [CUsize len])) (\<lambda>_.
     try_for_each len elem_hash))"

definition hash_bsatn_int_seq :: "nat \<Rightarrow> unit hash_de" where
  "hash_bsatn_int_seq width =
     andThen (reads deserialize_len) (\<lambda>len.
     andThen (reads (de (get_slice (len * width)))) (\<lambda>bytes.
     feeds (hash_len_and_bytes len bytes)))"

fun hash_bsatn :: "hash_env \<Rightarrow> algebraic_type \<Rightarrow> unit hash_de"
  and hash_bsatn_sum :: "hash_env \<Rightarrow> type_elements \<Rightarrow> unit hash_de"
  and hash_bsatn_variant :: "hash_env \<Rightarrow> type_elements \<Rightarrow> nat \<Rightarrow> unit hash_de"
  and hash_bsatn_prod :: "hash_env \<Rightarrow> type_elements \<Rightarrow> unit hash_de"
  and hash_bsatn_array :: "hash_env \<Rightarrow> algebraic_type \<Rightarrow> unit hash_de" where
  "hash_bsatn he (TRef _) = fail_with DePanic"
| "hash_bsatn he (TSum vs) = hash_bsatn_sum he vs"
| "hash_bsatn he (TProduct es) = hash_bsatn_prod he es"
| "hash_bsatn he (TArray t) = hash_bsatn_array he t"
| "hash_bsatn he TBool = hash_bsatn_de deserialize_bool hash_bool"
| "hash_bsatn he TI8 = hash_bsatn_de (de get_i8) (\<lambda>w. calls [CI8 w])"
| "hash_bsatn he TU8 = hash_bsatn_de (de get_u8) (\<lambda>w. calls [CU8 w])"
| "hash_bsatn he TI16 = hash_bsatn_de (de get_i16) (\<lambda>w. calls [CI16 w])"
| "hash_bsatn he TU16 = hash_bsatn_de (de get_u16) (\<lambda>w. calls [CU16 w])"
| "hash_bsatn he TI32 = hash_bsatn_de (de get_i32) (\<lambda>w. calls [CI32 w])"
| "hash_bsatn he TU32 = hash_bsatn_de (de get_u32) (\<lambda>w. calls [CU32 w])"
| "hash_bsatn he TI64 = hash_bsatn_de (de get_i64) (\<lambda>w. calls [CI64 w])"
| "hash_bsatn he TU64 = hash_bsatn_de (de get_u64) (\<lambda>w. calls [CU64 w])"
| "hash_bsatn he TI128 = hash_bsatn_de (de get_i128) (\<lambda>w. calls [CI128 w])"
| "hash_bsatn he TU128 = hash_bsatn_de (de get_u128) (\<lambda>w. calls [CU128 w])"
| "hash_bsatn he TI256 = hash_bsatn_de (de get_i256) (\<lambda>w. calls (hash_i256 he w))"
| "hash_bsatn he TU256 = hash_bsatn_de (de get_u256) (\<lambda>w. calls (hash_u256 he w))"
| "hash_bsatn he TF32 = hash_bsatn_de (de get_u32) (\<lambda>w. calls (hash_f32 he w))"
| "hash_bsatn he TF64 = hash_bsatn_de (de get_u64) (\<lambda>w. calls (hash_f64 he w))"
| "hash_bsatn he TString = hash_bsatn_de deserialize_str hash_str"
| "hash_bsatn_sum he vs =
     andThen (reads (de get_u8)) (\<lambda>tag.
     andThen (feeds (calls [CU8 tag])) (\<lambda>_.
     hash_bsatn_variant he vs (unat tag)))"
| "hash_bsatn_variant he [] k = fail_with DePanic"
| "hash_bsatn_variant he ((name, t) # vs) k = (case k of 0 \<Rightarrow> hash_bsatn he t | Suc k' \<Rightarrow> hash_bsatn_variant he vs k')"
| "hash_bsatn_prod he [] = ret ()"
| "hash_bsatn_prod he ((name, t) # es) = andThen (hash_bsatn he t) (\<lambda>_. hash_bsatn_prod he es)"
| "hash_bsatn_array he (TRef _) = fail_with DePanic"
| "hash_bsatn_array he (TSum vs) = hash_bsatn_seq (hash_bsatn_sum he vs)"
| "hash_bsatn_array he (TProduct es) = hash_bsatn_seq (hash_bsatn_prod he es)"
| "hash_bsatn_array he (TArray t) = hash_bsatn_seq (hash_bsatn_array he t)"
| "hash_bsatn_array he TBool = hash_bsatn_seq (hash_bsatn_de deserialize_bool hash_bool)"
| "hash_bsatn_array he TI8 = hash_bsatn_int_seq 1"
| "hash_bsatn_array he TU8 = hash_bsatn_int_seq 1"
| "hash_bsatn_array he TI16 = hash_bsatn_int_seq 2"
| "hash_bsatn_array he TU16 = hash_bsatn_int_seq 2"
| "hash_bsatn_array he TI32 = hash_bsatn_int_seq 4"
| "hash_bsatn_array he TU32 = hash_bsatn_int_seq 4"
| "hash_bsatn_array he TI64 = hash_bsatn_int_seq 8"
| "hash_bsatn_array he TU64 = hash_bsatn_int_seq 8"
| "hash_bsatn_array he TI128 = hash_bsatn_int_seq 16"
| "hash_bsatn_array he TU128 = hash_bsatn_int_seq 16"
| "hash_bsatn_array he TI256 = hash_bsatn_int_seq 32"
| "hash_bsatn_array he TU256 = hash_bsatn_int_seq 32"
| "hash_bsatn_array he TF32 = hash_bsatn_seq (hash_bsatn_de (de get_u32) (\<lambda>w. calls (hash_f32 he w)))"
| "hash_bsatn_array he TF64 = hash_bsatn_seq (hash_bsatn_de (de get_u64) (\<lambda>w. calls (hash_f64 he w)))"
| "hash_bsatn_array he TString = hash_bsatn_seq (hash_bsatn_de deserialize_str hash_str)"

subsection \<open>Comparing with an encoding decides equality\<close>

text \<open>\<open>decides m d E\<close>: the comparison \<open>m\<close> always returns, and answers yes exactly when \<open>d\<close> decodes the same input to
  something that satisfies \<open>E\<close>, with the reader then in the same place.\<close>

definition decides :: "bool de \<Rightarrow> 'a de \<Rightarrow> ('a \<Rightarrow> bool) \<Rightarrow> bool" where
  "decides m d E \<longleftrightarrow> (\<forall>bs. (\<exists>b r. m bs = (Inr b, r)) \<and> (\<forall>r. m bs = (Inr True, r) \<longleftrightarrow> (\<exists>x. d bs = (Inr x, r) \<and> E x)))"

lemma decidesD: "decides m d E \<Longrightarrow> m bs = (Inr True, r) \<longleftrightarrow> (\<exists>x. d bs = (Inr x, r) \<and> E x)"
  and decides_returns: "decides m d E \<Longrightarrow> \<exists>b r. m bs = (Inr b, r)"
  by (simp_all add: decides_def)

lemma decides_map: "decides m d E \<Longrightarrow> (\<And>x. E' (C x) \<longleftrightarrow> E x) \<Longrightarrow> decides m (map_ok C d) E'"
  unfolding decides_def map_ok_def andThen_eq_Inr_iff by (auto simp: ret_def)

lemma decides_de: "decides (eq_bsatn_de d P) d P"
  unfolding decides_def eq_bsatn_de_def by (auto split: prod.splits sum.splits)

lemma decides_ret: "decides (ret True) (ret x) P \<longleftrightarrow> P x"
  by (auto simp: decides_def ret_def)

lemma and_then_True: "and_then m k bs = (Inr True, r) \<longleftrightarrow> (\<exists>s. m bs = (Inr True, s) \<and> k s = (Inr True, r))"
  by (auto simp: and_then_def andThen_eq_Inr_iff ret_def split: if_splits)

lemma and_then_returns:
  assumes "\<exists>b s. m bs = (Inr b, s)" and "\<And>s. \<exists>b r. k s = (Inr b, r)"
  shows "\<exists>b r. and_then m k bs = (Inr b, r)"
proof -
  obtain b s where "m bs = (Inr b, s)" using assms(1) by blast
  then show ?thesis using assms(2) [of s] by (cases b) (auto simp: and_then_def andThen_def ret_def)
qed

lemma decides_and_then:
  assumes "decides m d E" and "\<And>x. E x \<Longrightarrow> decides k (e x) (F x)" and "\<And>s. \<exists>b r. k s = (Inr b, r)"
    and "\<And>x y. G (C x y) \<longleftrightarrow> E x \<and> F x y"
  shows "decides (and_then m k) (andThen d (\<lambda>x. andThen (e x) (\<lambda>y. ret (C x y)))) G"
  unfolding decides_def
proof (intro allI conjI)
  fix bs
  show "\<exists>b r. and_then m k bs = (Inr b, r)"
    using decides_returns [OF assms(1)] assms(3) by (rule and_then_returns)
  fix r
  show "and_then m k bs = (Inr True, r) \<longleftrightarrow> (\<exists>z. andThen d (\<lambda>x. andThen (e x) (\<lambda>y. ret (C x y))) bs = (Inr z, r) \<and> G z)"
    unfolding and_then_True decidesD [OF assms(1)] andThen_eq_Inr_iff
    by (auto simp: ret_def assms(4) decidesD [OF assms(2)] intro: exI)
qed

lemma collect_n_length: "collect_n n d bs = (Inr xs, r) \<Longrightarrow> length xs = n"
  by (induction n arbitrary: bs xs) (auto simp: ret_def andThen_eq_Inr_iff)

lemma decides_all: "\<forall>x\<in>set xs. decides (f x) d (E x) \<Longrightarrow> decides (all_eq f xs) (collect_n (length xs) d) (list_all2 E xs)"
proof (induction xs)
  case Nil
  then show ?case by (simp add: decides_ret)
next
  case (Cons x xs)
  then have "decides (all_eq f xs) (collect_n (length xs) d) (list_all2 E xs)" by simp
  then show ?case using Cons.prems
    by (auto intro!: decides_and_then decides_returns)
qed

lemma decides_len:
  assumes "decides m (collect_n n d) E" and "\<And>xs. E xs \<Longrightarrow> length xs = n"
  shows "decides (eq_bsatn_len n m) (deserialize_array_seed d) E"
  unfolding decides_def
proof (intro allI conjI)
  fix bs
  obtain res s where len: "deserialize_len bs = (res, s)" by fastforce
  show "\<exists>b r. eq_bsatn_len n m bs = (Inr b, r)"
    using decides_returns [OF assms(1), of s] by (auto simp: eq_bsatn_len_def len split: sum.splits)
  fix r
  show "eq_bsatn_len n m bs = (Inr True, r) \<longleftrightarrow> (\<exists>xs. deserialize_array_seed d bs = (Inr xs, r) \<and> E xs)"
  proof (cases res)
    case (Inl e)
    then show ?thesis by (simp add: eq_bsatn_len_def deserialize_array_seed_def len andThen_def)
  next
    case (Inr k)
    then have "deserialize_array_seed d bs = collect_n k d s"
      by (simp add: deserialize_array_seed_def len andThen_def)
    then show ?thesis using assms(2) collect_n_length [of k d s _ r]
      by (auto simp: eq_bsatn_len_def len Inr decidesD [OF assms(1)])
  qed
qed

lemma decides_seq: "\<forall>x\<in>set xs. decides (f x) d (E x) \<Longrightarrow> decides (eq_bsatn_seq f xs) (deserialize_array_seed d) (list_all2 E xs)"
  unfolding eq_bsatn_seq_def by (rule decides_len [OF decides_all]) (auto dest: list_all2_lengthD)
lemma length_concat_le_bytes: "length (concat (map (to_le_bytes n) xs)) = length xs * n"
  by (induction xs) simp_all

lemma eq_bsatn_int_seq_True:
  assumes "0 < n"
  shows "eq_bsatn_int_seq n xs bs = (Inr True, r) \<longleftrightarrow> len32 xs \<and> bs = seq_bytes (to_le_bytes n) xs @ r"
proof -
  have "eq_bsatn_int_seq n xs bs = (Inr True, r) \<longleftrightarrow>
      (\<exists>len s. deserialize_len bs = (Inr len, s) \<and> de (get_slice (len * n)) s = (Inr (concat (map (to_le_bytes n) xs)), r))"
    by (auto simp: eq_bsatn_int_seq_def split: prod.splits sum.splits)
  also have "\<dots> \<longleftrightarrow> len32 xs \<and> bs = seq_bytes (to_le_bytes n) xs @ r"
    using assms by (auto simp: exact_len exact_slice length_concat_le_bytes len32_def seq_bytes_def len_bytes_def simp del: to_le_bytes.simps)
  finally show ?thesis .
qed

lemma decides_int_seq:
  assumes "0 < n" and "exact d (\<lambda>_. True) (to_le_bytes n)"
  shows "decides (eq_bsatn_int_seq n xs) (deserialize_array_seed d) ((=) xs)"
  unfolding decides_def eq_bsatn_int_seq_True [OF assms(1)] exactD [OF exact_seq [OF assms(2)]]
  by (auto simp: eq_bsatn_int_seq_def split: prod.splits sum.splits)

lemma decides_byte_seq: "decides (eq_bsatn_int_seq 1 xs) deserialize_bytes ((=) (xs :: u8 list))"
proof -
  have "concat (map (to_le_bytes 1) xs) = xs" by (induction xs) simp_all
  then have "seq_bytes (to_le_bytes 1) xs = str_bytes xs"
    unfolding seq_bytes_def str_bytes_def by simp
  moreover have "0 < (1 :: nat)" by simp
  ultimately show ?thesis
    unfolding decides_def eq_bsatn_int_seq_True [OF \<open>0 < 1\<close>] exactD [OF exact_bytes]
    by (auto simp: eq_bsatn_int_seq_def simp del: to_le_bytes.simps split: prod.splits sum.splits)
qed

lemma on_eq_iff:
  "on_f32 P v \<longleftrightarrow> (\<exists>w. v = VF32 w \<and> P w)" "on_f64 Q v \<longleftrightarrow> (\<exists>w. v = VF64 w \<and> Q w)"
  "on_a_sum R a \<longleftrightarrow> (\<exists>ss. a = ASum ss \<and> R ss)" "on_a_product S a \<longleftrightarrow> (\<exists>vss. a = AProduct vss \<and> S vss)"
  "on_a_array T a \<longleftrightarrow> (\<exists>as. a = AArray as \<and> T as)"
  "on_a_f32 U a \<longleftrightarrow> (\<exists>ws. a = AF32 ws \<and> U ws)" "on_a_f64 V a \<longleftrightarrow> (\<exists>ws. a = AF64 ws \<and> V ws)"
  by (auto simp: on_f32_def on_f64_def on_a_sum_def on_a_product_def on_a_array_def on_a_f32_def on_a_f64_def
      split: algebraic_value.splits array_value.splits)

lemma all2_as_cons: "list_all2 E [] = (=) []" "on_cons (E x) (list_all2 E xs) = list_all2 E (x # xs)"
  by (auto simp: fun_eq_iff on_cons_def split: list.splits)

lemma list_eq_all2:
  "sums_eq fe ss = list_all2 (sum_eq fe) ss"
  "products_eq fe vss = list_all2 (product_eq fe) vss"
  "arrays_eq fe as = list_all2 (array_eq fe) as"
  "product_eq fe vs = list_all2 (value_eq fe) vs"
proof -
  show "sums_eq fe ss = list_all2 (sum_eq fe) ss" by (induction ss) (simp_all add: all2_as_cons)
  show "products_eq fe vss = list_all2 (product_eq fe) vss" by (induction vss) (simp_all add: all2_as_cons)
  show "arrays_eq fe as = list_all2 (array_eq fe) as" by (induction as) (simp_all add: all2_as_cons)
  show "product_eq fe vs = list_all2 (value_eq fe) vs" by (induction vs) (simp_all add: all2_as_cons)
qed

lemma eq_bsatn_seq_of:
  "eq_bsatn_array fe (ASum ss) = eq_bsatn_seq (eq_bsatn_sum fe) ss"
  "eq_bsatn_array fe (AProduct vss) = eq_bsatn_seq (eq_bsatn_prod fe) vss"
  "eq_bsatn_array fe (AArray as) = eq_bsatn_seq (eq_bsatn_array fe) as"
proof -
  have "eq_bsatn_sums fe ss = all_eq (eq_bsatn_sum fe) ss" by (induction ss) simp_all
  moreover have "eq_bsatn_prods fe vss = all_eq (eq_bsatn_prod fe) vss" by (induction vss) simp_all
  moreover have "eq_bsatn_arrays fe as = all_eq (eq_bsatn_array fe) as" by (induction as) simp_all
  ultimately show "eq_bsatn_array fe (ASum ss) = eq_bsatn_seq (eq_bsatn_sum fe) ss"
    "eq_bsatn_array fe (AProduct vss) = eq_bsatn_seq (eq_bsatn_prod fe) vss"
    "eq_bsatn_array fe (AArray as) = eq_bsatn_seq (eq_bsatn_array fe) as"
    by (simp_all add: eq_bsatn_seq_def)
qed
lemmas decides_leaf = decides_map [OF decides_de]

lemma decides_leaf_seq:
  "(\<And>ys. E' (C ys) \<longleftrightarrow> list_all2 E xs ys) \<Longrightarrow> decides (eq_bsatn_seq (\<lambda>x. eq_bsatn_de d (E x)) xs) (map_ok C (deserialize_array_seed d)) E'"
  by (rule decides_map [OF decides_seq]) (simp_all add: decides_de)

lemmas decides_leaf_int = decides_map [OF decides_int_seq]

lemma decides_sum:
  assumes "\<And>tag. decides (eq_bsatn fe v) (deserialize_variant vs k tag) (value_eq fe v)" and "k = unat tag"
  shows "decides (eq_bsatn_sum fe (SumValue tag v)) (deserialize_sum vs) (sum_eq fe (SumValue tag v))"
  unfolding eq_bsatn_sum.simps deserialize_sum.simps map_ok_def
  by (rule decides_and_then [where E = "(=) tag" and F = "\<lambda>_. value_eq fe v", OF decides_de])
    (use assms decides_returns [OF assms(1)] in \<open>auto simp: on_sum_value_def\<close>)

lemma eq_bsatn_typed:
  "typed t v \<Longrightarrow> decides (eq_bsatn fe v) (deserialize_value t) (value_eq fe v)"
  "typed_sum vs s \<Longrightarrow> decides (eq_bsatn_sum fe s) (deserialize_sum vs) (sum_eq fe s)"
  "typed_variant vs k v \<Longrightarrow> decides (eq_bsatn fe v) (deserialize_variant vs k tag) (value_eq fe v)"
  "typed_product vs us \<Longrightarrow> decides (eq_bsatn_prod fe us) (visit_seq_product vs) (product_eq fe us)"
  "typed_array t a \<Longrightarrow> decides (eq_bsatn_array fe a) (deserialize_array t) (array_eq fe a)"
proof (induction t and vs s and vs k v and vs us and t arbitrary: v and and tag and and a
    rule: typed_typed_sum_typed_variant_typed_product_typed_array.induct)
  case (2 vs)
  then obtain s where v: "v = VSum s" "typed_sum vs s" by (auto simp: on_iff simp del: typed_sum.simps)
  show ?case unfolding v(1) eq_bsatn.simps deserialize_value.simps value_eq.simps
    by (rule decides_map [OF "2.IH" [OF v(2)]]) (simp add: on_iff)
next
  case (3 es)
  then obtain us where v: "v = VProduct us" "typed_product es us" by (auto simp: on_iff simp del: typed_sum.simps)
  show ?case unfolding v(1) eq_bsatn.simps deserialize_value.simps value_eq.simps
    by (rule decides_map [OF "3.IH" [OF v(2)]]) (simp add: on_iff)
next
  case (4 t)
  then obtain a where v: "v = VArray a" "typed_array t a" by (auto simp: on_iff simp del: typed_sum.simps)
  show ?case unfolding v(1) eq_bsatn.simps deserialize_value.simps value_eq.simps
    by (rule decides_map [OF "4.IH" [OF v(2)]]) (simp add: on_iff)
next
  case (21 vs s)
  then show ?case by (cases s) (auto intro: decides_sum simp del: eq_bsatn_sum.simps deserialize_sum.simps sum_eq.simps)
next
  case (22 k v)
  then show ?case by simp
next
  case (23 name t vs k v)
  then show ?case by (cases k) simp_all
next
  case (24 us)
  then show ?case by (simp add: decides_ret)
next
  case (25 name t es us)
  then obtain u us' where us: "us = u # us'" "typed t u" "typed_product es us'" by (cases us) auto
  with 25 have "decides (eq_bsatn fe u) (deserialize_value t) (value_eq fe u)"
    "decides (eq_bsatn_prod fe us') (visit_seq_product es) (product_eq fe us')" by auto
  then show ?case unfolding us(1) eq_bsatn_prod.simps visit_seq_product.simps
    by (rule decides_and_then [where F = "\<lambda>_. product_eq fe us'"])
      (use \<open>decides (eq_bsatn_prod fe us') _ _\<close> in \<open>auto simp: on_cons_def dest: decides_returns\<close>)
next
  case (27 vs)
  then obtain ss where a: "a = ASum ss" "\<forall>x\<in>set ss. typed_sum vs x" by (auto simp: on_iff simp del: typed_sum.simps)
  show ?case unfolding a(1) eq_bsatn_seq_of deserialize_array.simps array_eq.simps
    by (rule decides_map [OF decides_seq]) (use a(2) "27.IH" in \<open>auto simp: on_eq_iff list_eq_all2(1-3) simp del: typed_sum.simps\<close>)
next
  case (28 es)
  then obtain uss where a: "a = AProduct uss" "\<forall>x\<in>set uss. typed_product es x" by (auto simp: on_iff simp del: typed_sum.simps)
  show ?case unfolding a(1) eq_bsatn_seq_of deserialize_array.simps array_eq.simps
    by (rule decides_map [OF decides_seq]) (use a(2) "28.IH" in \<open>auto simp: on_eq_iff list_eq_all2(1-3) simp del: typed_sum.simps\<close>)
next
  case (29 t)
  then obtain as where a: "a = AArray as" "\<forall>x\<in>set as. typed_array t x" by (auto simp: on_iff simp del: typed_sum.simps)
  show ?case unfolding a(1) eq_bsatn_seq_of deserialize_array.simps array_eq.simps
    by (rule decides_map [OF decides_seq]) (use a(2) "29.IH" in \<open>auto simp: on_eq_iff list_eq_all2(1-3) simp del: typed_sum.simps\<close>)
next
  case 32
  then show ?case by (auto simp del: One_nat_def split: array_value.splits intro!: decides_map [OF decides_byte_seq])
qed (auto simp: on_eq_iff eq_bsatn_str_def [abs_def] list.rel_eq simp del: One_nat_def split: algebraic_value.splits array_value.splits
      intro!: decides_leaf decides_leaf_seq decides_leaf_int exact_ints)
subsection \<open>Hashing an encoding hashes the decoded value\<close>

definition hashes_as :: "unit hash_de \<Rightarrow> 'a de \<Rightarrow> ('a \<Rightarrow> hashes) \<Rightarrow> bool" where
  "hashes_as m d f \<longleftrightarrow> (\<forall>h bs h' r. m (h, bs) = (Inr (), (h', r)) \<longleftrightarrow> (\<exists>x. d bs = (Inr x, r) \<and> f x h = (Inr (), h')))"

lemma hashes_asD: "hashes_as m d f \<Longrightarrow> m (h, bs) = (Inr (), (h', r)) \<longleftrightarrow> (\<exists>x. d bs = (Inr x, r) \<and> f x h = (Inr (), h'))"
  by (simp add: hashes_as_def)

lemma reads_Inr: "reads m (h, bs) = (Inr x, (h', r)) \<longleftrightarrow> h' = h \<and> m bs = (Inr x, r)"
  by (auto simp: reads_def split: prod.splits)

lemma feeds_Inr: "feeds m (h, bs) = (Inr u, (h', r)) \<longleftrightarrow> r = bs \<and> m h = (Inr (), h')"
  by (auto simp: feeds_def split: prod.splits sum.splits)

lemma hash_andThen: "andThen m k (h, bs) = (Inr y, (h', r)) \<longleftrightarrow>
    (\<exists>x h1 bs1. m (h, bs) = (Inr x, (h1, bs1)) \<and> k x (h1, bs1) = (Inr y, (h', r)))"
  unfolding andThen_eq_Inr_iff by auto

lemma hashes_as_fail: "hashes_as (fail_with e) (fail_with e') f"
  by (simp add: hashes_as_def fail_with_def)

lemma hashes_as_de: "hashes_as (hash_bsatn_de d f) d f"
  by (auto simp: hashes_as_def hash_bsatn_de_def hash_andThen reads_Inr feeds_Inr)

lemma hashes_as_map: "hashes_as m d f \<Longrightarrow> (\<And>x. f' (C x) = f x) \<Longrightarrow> hashes_as m (map_ok C d) f'"
  unfolding hashes_as_def map_ok_def andThen_eq_Inr_iff by (auto simp: ret_def)

lemma hashes_as_then:
  assumes "hashes_as m d f" and "hashes_as k e g" and "\<And>x y. c (C x y) = andThen (f x) (\<lambda>_. g y)"
  shows "hashes_as (andThen m (\<lambda>_. k)) (andThen d (\<lambda>x. andThen e (\<lambda>y. ret (C x y)))) c"
  unfolding hashes_as_def
proof (intro allI)
  fix h bs h' r
  have "andThen m (\<lambda>_. k) (h, bs) = (Inr (), (h', r)) \<longleftrightarrow>
      (\<exists>x y s h1. d bs = (Inr x, s) \<and> f x h = (Inr (), h1) \<and> e s = (Inr y, r) \<and> g y h1 = (Inr (), h'))"
    unfolding hash_andThen by (auto simp: hashes_asD [OF assms(1)] hashes_asD [OF assms(2)])
  then show "andThen m (\<lambda>_. k) (h, bs) = (Inr (), (h', r)) \<longleftrightarrow>
      (\<exists>z. andThen d (\<lambda>x. andThen e (\<lambda>y. ret (C x y))) bs = (Inr z, r) \<and> c z h = (Inr (), h'))"
    by (auto simp: andThen_eq_Inr_iff ret_def assms(3))
qed

lemma hashes_as_each: "hashes_as m d f \<Longrightarrow> hashes_as (try_for_each n m) (collect_n n d) (hash_each f)"
proof (induction n)
  case 0
  then show ?case by (auto simp: hashes_as_def ret_def)
next
  case (Suc n)
  then show ?case by (auto intro!: hashes_as_then)
qed

lemma hashes_as_seq:
  assumes "hashes_as m d f"
  shows "hashes_as (hash_bsatn_seq m) (deserialize_array_seed d) (hash_slice f)"
  unfolding hashes_as_def
proof (intro allI)
  fix h bs h' r
  have "hash_bsatn_seq m (h, bs) = (Inr (), (h', r)) \<longleftrightarrow>
      (\<exists>len s. deserialize_len bs = (Inr len, s) \<and> try_for_each len m (h @ [CUsize len], s) = (Inr (), (h', r)))"
    unfolding hash_bsatn_seq_def hash_andThen reads_Inr feeds_Inr calls_def by auto
  also have "\<dots> \<longleftrightarrow> (\<exists>len s xs. deserialize_len bs = (Inr len, s) \<and> collect_n len d s = (Inr xs, r) \<and>
      hash_each f xs (h @ [CUsize len]) = (Inr (), h'))"
    unfolding hashes_asD [OF hashes_as_each [OF assms]] by blast
  also have "\<dots> \<longleftrightarrow> (\<exists>len s xs. deserialize_len bs = (Inr len, s) \<and> collect_n len d s = (Inr xs, r) \<and>
      hash_slice f xs h = (Inr (), h'))"
    using collect_n_length [of _ d _ _ r] unfolding hash_slice_def andThen_def calls_def by (auto split: prod.splits)
  finally show "hash_bsatn_seq m (h, bs) = (Inr (), (h', r)) \<longleftrightarrow>
      (\<exists>xs. deserialize_array_seed d bs = (Inr xs, r) \<and> hash_slice f xs h = (Inr (), h'))"
    unfolding deserialize_array_seed_def andThen_eq_Inr_iff by blast
qed

lemma le_bytes_of:
  assumes "LENGTH('a) = 8 * n" and "length b = k * n"
  shows "\<exists>ws :: 'a::len word list. length ws = k \<and> b = concat (map (to_le_bytes n) ws)"
  using assms(2)
proof (induction k arbitrary: b)
  case 0
  then show ?case by simp
next
  case (Suc k)
  then have "length (drop n b) = k * n" "length (take n b) = n" by simp_all
  with Suc.IH obtain ws :: "'a word list" where ws: "length ws = k" "drop n b = concat (map (to_le_bytes n) ws)" by blast
  have "take n b = to_le_bytes n (from_le_bytes (take n b) :: 'a word)"
    using \<open>length (take n b) = n\<close> assms(1) to_le_bytes_from_le_bytes by metis
  then have "b = concat (map (to_le_bytes n) ((from_le_bytes (take n b) :: 'a word) # ws))"
    using ws(2) append_take_drop_id [of n b] by (simp del: append_take_drop_id)
  then show ?case using ws(1) by (metis length_Cons)
qed

lemma hash_bsatn_int_seq_Inr:
  "hash_bsatn_int_seq n (h, bs) = (Inr (), (h', r)) \<longleftrightarrow>
     (\<exists>len b. len < 2 ^ 32 \<and> length b = len * n \<and> bs = to_le_bytes 4 (of_nat len :: u32) @ b @ r \<and> h' = h @ [CUsize len, CWrite b])"
  unfolding hash_bsatn_int_seq_def hash_andThen reads_Inr feeds_Inr exact_len exact_slice hash_len_and_bytes_def calls_def
  by (auto simp del: to_le_bytes.simps)

lemma hashes_as_int_seq:
  fixes d :: "'a::len word de"
  assumes "exact d (\<lambda>_. True) (to_le_bytes n)" and "LENGTH('a) = 8 * n"
  shows "hashes_as (hash_bsatn_int_seq n) (deserialize_array_seed d) (hash_bytes_of n)"
  unfolding hashes_as_def hash_bsatn_int_seq_Inr exactD [OF exact_seq [OF assms(1)]]
proof (intro allI iffI; elim exE conjE)
  fix h bs h' r len b
  assume b: "len < 2 ^ 32" "length b = len * n" "bs = to_le_bytes 4 (of_nat len :: u32) @ b @ r" "h' = h @ [CUsize len, CWrite b]"
  obtain xs :: "'a word list" where "length xs = len" "b = concat (map (to_le_bytes n) xs)"
    using le_bytes_of [OF assms(2) b(2)] by blast
  with b show "\<exists>xs. ((len32 xs \<and> (\<forall>x\<in>set xs. True)) \<and> bs = seq_bytes (to_le_bytes n) xs @ r) \<and> hash_bytes_of n (xs :: 'a word list) h = (Inr (), h')"
    by (auto simp: len32_def seq_bytes_def len_bytes_def hash_bytes_of_def hash_len_and_bytes_def calls_def simp del: to_le_bytes.simps)
next
  fix h bs h' r and xs :: "'a word list"
  assume "len32 xs" "bs = seq_bytes (to_le_bytes n) xs @ r" "hash_bytes_of n xs h = (Inr (), h')"
  then show "\<exists>len b. len < 2 ^ 32 \<and> length b = len * n \<and> bs = to_le_bytes 4 (of_nat len :: u32) @ b @ r \<and> h' = h @ [CUsize len, CWrite b]"
    by (intro exI [of _ "length xs"] exI [of _ "concat (map (to_le_bytes n) xs)"])
      (auto simp: len32_def seq_bytes_def len_bytes_def hash_bytes_of_def hash_len_and_bytes_def calls_def length_concat_le_bytes simp del: to_le_bytes.simps)
qed

lemma hashes_as_byte_seq: "hashes_as (hash_bsatn_int_seq 1) deserialize_bytes (hash_bytes_of 1 :: u8 list \<Rightarrow> hashes)"
proof -
  have "concat (map (to_le_bytes 1) xs) = xs" for xs :: "u8 list" by (induction xs) simp_all
  then show ?thesis
    unfolding hashes_as_def hash_bsatn_int_seq_Inr exactD [OF exact_bytes] hash_bytes_of_def hash_len_and_bytes_def calls_def
    by (auto simp: str_bytes_def len_bytes_def len32_def simp del: to_le_bytes.simps)
qed

lemma hash_slice_of:
  "hash_array he (ASum ss) = hash_slice (hash_sum he) ss"
  "hash_array he (AProduct vss) = hash_slice (hash_product he) vss"
  "hash_array he (AArray as) = hash_slice (hash_array he) as"
proof -
  have "hash_sums he ss = hash_each (hash_sum he) ss" by (induction ss) simp_all
  moreover have "hash_products he vss = hash_each (hash_product he) vss" by (induction vss) simp_all
  moreover have "hash_arrays he as = hash_each (hash_array he) as" by (induction as) simp_all
  ultimately show "hash_array he (ASum ss) = hash_slice (hash_sum he) ss"
    "hash_array he (AProduct vss) = hash_slice (hash_product he) vss"
    "hash_array he (AArray as) = hash_slice (hash_array he) as"
    by (simp_all add: hash_slice_def)
qed

lemma hashes_as_sum:
  assumes "\<And>tag. hashes_as (hash_bsatn_variant he vs (unat tag)) (deserialize_variant vs (unat tag) tag) (hash_value he)"
  shows "hashes_as (hash_bsatn_sum he vs) (deserialize_sum vs) (hash_sum he)"
  unfolding hashes_as_def
proof (intro allI)
  fix h bs h' r
  have "hash_bsatn_sum he vs (h, bs) = (Inr (), (h', r)) \<longleftrightarrow> (\<exists>tag s v. de get_u8 bs = (Inr tag, s) \<and>
      deserialize_variant vs (unat tag) tag s = (Inr v, r) \<and> hash_value he v (h @ [CU8 tag]) = (Inr (), h'))"
    unfolding hash_bsatn_sum.simps hash_andThen reads_Inr feeds_Inr calls_def by (auto simp: hashes_asD [OF assms])
  then show "hash_bsatn_sum he vs (h, bs) = (Inr (), (h', r)) \<longleftrightarrow> (\<exists>s. deserialize_sum vs bs = (Inr s, r) \<and> hash_sum he s h = (Inr (), h'))"
    unfolding deserialize_sum.simps map_ok_def andThen_eq_Inr_iff by (auto simp: ret_def calls_def andThen_def)
qed

lemma hash_bsatn_hashes:
  "hashes_as (hash_bsatn he t) (deserialize_value t) (hash_value he)"
  "hashes_as (hash_bsatn_sum he vs) (deserialize_sum vs) (hash_sum he)"
  "hashes_as (hash_bsatn_variant he vs k) (deserialize_variant vs k tag) (hash_value he)"
  "hashes_as (hash_bsatn_prod he vs) (visit_seq_product vs) (hash_product he)"
  "hashes_as (hash_bsatn_array he t) (deserialize_array t) (hash_array he)"
proof (induction t and vs and vs k tag and vs and t rule: deserialize_value_deserialize_sum_deserialize_variant_visit_seq_product_deserialize_array.induct)
  case (21 vs)
  then show ?case by (rule hashes_as_sum)
next
  case (23 name t vs k tag)
  then show ?case by (cases k) simp_all
next
  case 24
  then show ?case by (auto simp: hashes_as_def ret_def)
next
  case (25 name t es)
  then show ?case by (auto intro!: hashes_as_then)
next
  case (27 vs)
  then show ?case by (auto simp: hash_slice_of simp del: hash_array.simps deserialize_sum.simps hash_bsatn_sum.simps intro!: hashes_as_map [OF hashes_as_seq])
next
  case (28 es)
  then show ?case by (auto simp: hash_slice_of simp del: hash_array.simps intro!: hashes_as_map [OF hashes_as_seq])
next
  case (29 t)
  then show ?case by (auto simp: hash_slice_of simp del: hash_array.simps intro!: hashes_as_map [OF hashes_as_seq])
next
  case 32
  then show ?case by (auto simp del: One_nat_def intro!: hashes_as_map [OF hashes_as_byte_seq])
qed (auto simp del: One_nat_def deserialize_sum.simps hash_bsatn_sum.simps
      intro!: hashes_as_fail hashes_as_map [OF hashes_as_de] hashes_as_map [OF hashes_as_seq [OF hashes_as_de]]
      hashes_as_int_seq exact_ints hashes_as_map)

text \<open>Hashing a value that has a type only appends calls; it never panics.\<close>

definition appends :: "hashes \<Rightarrow> bool" where
  "appends m \<longleftrightarrow> (\<exists>c. \<forall>h. m h = (Inr (), h @ c))"

lemma appends_calls [simp]: "appends (calls cs)"
  by (auto simp: appends_def calls_def)

lemma appends_ret [simp]: "appends (ret ())"
  by (auto simp: appends_def ret_def)

lemma appends_andThen [simp]: "appends m \<Longrightarrow> appends k \<Longrightarrow> appends (andThen m (\<lambda>_. k))"
  by (auto simp: appends_def andThen_def)

lemma appends_slice [simp]: "\<forall>x\<in>set xs. appends (f x) \<Longrightarrow> appends (hash_slice f xs)"
proof -
  assume "\<forall>x\<in>set xs. appends (f x)"
  then have "appends (hash_each f xs)" by (induction xs) simp_all
  then show ?thesis by (simp add: hash_slice_def)
qed

lemma appends_prims [simp]: "appends (hash_bool b)" "appends (hash_str s)" "appends (hash_bytes_of n xs)"
  by (simp_all add: hash_bool_def hash_str_def hash_bytes_of_def hash_len_and_bytes_def)

lemma typed_appends:
  "typed t v \<Longrightarrow> appends (hash_value he v)"
  "typed_sum vs s \<Longrightarrow> appends (hash_sum he s)"
  "typed_variant vs k v \<Longrightarrow> appends (hash_value he v)"
  "typed_product vs us \<Longrightarrow> appends (hash_product he us)"
  "typed_array t a \<Longrightarrow> appends (hash_array he a)"
proof (induction t and vs s and vs k v and vs us and t arbitrary: v and and and and a
    rule: typed_typed_sum_typed_variant_typed_product_typed_array.induct)
  case (21 vs s)
  then show ?case by (cases s) auto
next
  case (25 name t es us)
  then show ?case by (cases us) auto
next
  case (27 vs)
  then show ?case by (auto simp: on_iff hash_slice_of simp del: hash_array.simps(1-3))
next
  case (28 es)
  then show ?case by (auto simp: on_iff hash_slice_of simp del: hash_array.simps(1-3))
next
  case (29 t)
  then show ?case by (auto simp: on_iff hash_slice_of simp del: hash_array.simps(1-3))
qed (auto simp: on_iff split: nat.splits algebraic_value.splits array_value.splits)

text \<open>Equal floats hash alike: what hashing relies on from the float crate.\<close>

definition float_hash_ok :: "float_eq \<Rightarrow> hash_env \<Rightarrow> bool" where
  "float_hash_ok fe he \<longleftrightarrow> (\<forall>a b. eq_f32 fe a b \<longrightarrow> hash_f32 he a = hash_f32 he b) \<and> (\<forall>a b. eq_f64 fe a b \<longrightarrow> hash_f64 he a = hash_f64 he b)"

lemma hash_slice_cong: "list_all2 (\<lambda>x y. f x = f y) xs ys \<Longrightarrow> hash_slice f xs = hash_slice f ys"
proof -
  assume "list_all2 (\<lambda>x y. f x = f y) xs ys"
  then have "length xs = length ys \<and> hash_each f xs = hash_each f ys" by (induction rule: list_all2_induct) auto
  then show ?thesis by (simp add: hash_slice_def)
qed

lemma value_eq_hash:
  assumes "float_hash_ok fe he"
  shows "value_eq fe v v' \<Longrightarrow> hash_value he v = hash_value he v'"
    "sum_eq fe s s' \<Longrightarrow> hash_sum he s = hash_sum he s'"
    "product_eq fe vs vs' \<Longrightarrow> hash_product he vs = hash_product he vs'"
    "array_eq fe a a' \<Longrightarrow> hash_array he a = hash_array he a'"
    "sums_eq fe ss ss' \<Longrightarrow> length ss = length ss' \<and> hash_sums he ss = hash_sums he ss'"
    "products_eq fe vss vss' \<Longrightarrow> length vss = length vss' \<and> hash_products he vss = hash_products he vss'"
    "arrays_eq fe as as' \<Longrightarrow> length as = length as' \<and> hash_arrays he as = hash_arrays he as'"
  using assms
proof (induction fe v and fe s and fe vs and fe a and fe ss and fe vss and fe as arbitrary: v' and s' and vs' and a' and ss' and vss' and as'
    rule: value_eq_sum_eq_product_eq_array_eq_sums_eq_products_eq_arrays_eq.induct)
  case (28 fe ws)
  then obtain ws' where a': "a' = AF32 ws'" "list_all2 (eq_f32 fe) ws ws'" by (auto simp: on_eq_iff)
  with 28 have "list_all2 (\<lambda>x y. calls (hash_f32 he x) = calls (hash_f32 he y)) ws ws'"
    by (auto simp: float_hash_ok_def elim!: list_all2_mono)
  with a' show ?case by (auto intro: hash_slice_cong)
next
  case (29 fe ws)
  then obtain ws' where a': "a' = AF64 ws'" "list_all2 (eq_f64 fe) ws ws'" by (auto simp: on_eq_iff)
  with 29 have "list_all2 (\<lambda>x y. calls (hash_f64 he x) = calls (hash_f64 he y)) ws ws'"
    by (auto simp: float_hash_ok_def elim!: list_all2_mono)
  with a' show ?case by (auto intro: hash_slice_cong)
qed (auto simp: on_iff on_eq_iff on_cons_def on_sum_value_def float_hash_ok_def split: list.splits sum_value.splits)
subsection \<open>What comparison and hashing promise\<close>

text \<open>Claim C18. Comparing a value with an encoding decides equality with the encoded value. For a value \<open>v\<close> of type
  \<open>t\<close>, whatever the bytes are, \<^const>\<open>eq_bsatn\<close> returns without panicking; it answers yes exactly when the bytes
  decode at \<open>t\<close> to a value equal to \<open>v\<close>, and then it has read exactly that value. The byte-wise shortcut for integer
  arrays, the early exits on tags, lengths and fields, and malformed input are all included.\<close>

theorem eq_bsatn_decides_equality:
  assumes "typed t v"
  shows "(\<exists>b s. eq_bsatn fe v bs = (Inr b, s)) \<and>
    (eq_bsatn fe v bs = (Inr True, r) \<longleftrightarrow> (\<exists>v'. decode t bs = (Inr v', r) \<and> value_eq fe v v'))"
  using eq_bsatn_typed(1) [OF assms, of fe] by (simp add: decides_def decode_def)

theorem eq_bsatn_decides_equality_witness:
  "let t = TProduct [(None, TSum [(None, TBool), (None, TU8)]), (None, TArray TU16)];
       v = VProduct [VSum (SumValue 1 (VU8 5)), VArray (AU16 [3])]; fe = \<lparr>eq_f32 = (=), eq_f64 = (=)\<rparr>;
       bs = [1, 5, 1, 0, 0, 0, 3, 0, 8]
   in typed t v \<and> eq_bsatn fe v bs = (Inr True, [8]) \<and> (\<exists>v'. decode t bs = (Inr v', [8]) \<and> value_eq fe v v')"
proof -
  have "typed (TProduct [(None, TSum [(None, TBool), (None, TU8)]), (None, TArray TU16)])
      (VProduct [VSum (SumValue 1 (VU8 5)), VArray (AU16 [3])])"
    by (simp add: on_iff len32_def)
  moreover have "eq_bsatn \<lparr>eq_f32 = (=), eq_f64 = (=)\<rparr> (VProduct [VSum (SumValue 1 (VU8 5)), VArray (AU16 [3])]) [1, 5, 1, 0, 0, 0, 3, 0, 8] =
      (Inr True, [8])"
    by code_simp
  ultimately show ?thesis using eq_bsatn_decides_equality unfolding Let_def by blast
qed

text \<open>Claim C19. Hashing an encoding feeds the hasher the calls that hashing the decoded value makes, in the same order,
  and reads exactly that value. It succeeds precisely on the inputs that decode. The calls do not depend on what the
  hasher was fed before. The shortcut that hashes integer arrays from their bytes is included.\<close>

theorem hash_bsatn_is_hash_of_decoded:
  "(hash_bsatn he t (h, bs) = (Inr (), (h', r)) \<longleftrightarrow> (\<exists>v. decode t bs = (Inr v, r) \<and> hash_value he v h = (Inr (), h'))) \<and>
   (decode t bs = (Inr v, r) \<longrightarrow>
      (\<exists>c. \<forall>g. hash_value he v g = (Inr (), g @ c) \<and> hash_bsatn he t (g, bs) = (Inr (), (g @ c, r))))"
proof -
  have iff: "hash_bsatn he t (g, bs) = (Inr (), (g', r)) \<longleftrightarrow> (\<exists>v. decode t bs = (Inr v, r) \<and> hash_value he v g = (Inr (), g'))" for g g'
    unfolding decode_def by (rule hashes_asD [OF hash_bsatn_hashes(1)])
  moreover have "\<exists>c. \<forall>g. hash_value he v g = (Inr (), g @ c)" if "decode t bs = (Inr v, r)"
    using typed_appends(1) [of t v he] that by (simp add: decode_iff appends_def)
  ultimately show ?thesis by blast
qed

theorem hash_bsatn_is_hash_of_decoded_witness:
  "let t = TArray TU16; bs = [2, 0, 0, 0, 3, 0, 4, 0, 9]; v = VArray (AU16 [3, 4]);
       he = \<lparr>hash_f32 = \<lambda>_. [], hash_f64 = \<lambda>_. [], hash_i256 = \<lambda>_. [], hash_u256 = \<lambda>_. []\<rparr>
   in decode t bs = (Inr v, [9]) \<and>
      (\<exists>c. \<forall>g. hash_value he v g = (Inr (), g @ c) \<and> hash_bsatn he t (g, bs) = (Inr (), (g @ c, [9])))"
proof -
  have "decode (TArray TU16) [2, 0, 0, 0, 3, 0, 4, 0, 9] = (Inr (VArray (AU16 [3, 4])), [9])"
    by code_simp
  then show ?thesis
    using hash_bsatn_is_hash_of_decoded [of _ "TArray TU16" _ "[2, 0, 0, 0, 3, 0, 4, 0, 9]" _ "[9]" "VArray (AU16 [3, 4])"]
    unfolding Let_def by blast
qed

text \<open>Claim C20. Lookup by hash and by comparison agree. If equal floats hash alike, then a value that compares equal to
  an encoding hashes to the same calls as the encoding does; and equal values hash to the same calls. So a row found
  by hashing stored bytes is the row found by hashing the value.\<close>

theorem equal_values_hash_alike:
  assumes "float_hash_ok fe he"
  shows "(typed t v \<and> eq_bsatn fe v bs = (Inr True, r) \<longrightarrow>
      (\<exists>c. hash_value he v h = (Inr (), h @ c) \<and> hash_bsatn he t (h, bs) = (Inr (), (h @ c, r)))) \<and>
    (value_eq fe v w \<longrightarrow> hash_value he v = hash_value he w)"
proof (intro conjI impI; (elim conjE)?)
  assume typed: "typed t v" and "eq_bsatn fe v bs = (Inr True, r)"
  then obtain v' where v': "decode t bs = (Inr v', r)" "value_eq fe v v'"
    using decidesD [OF eq_bsatn_typed(1) [OF typed, of fe], of bs r] by (auto simp: decode_def)
  moreover have "hash_value he v = hash_value he v'" using value_eq_hash(1) [OF assms v'(2)] .
  moreover obtain c where "hash_value he v h = (Inr (), h @ c)" using typed_appends(1) [OF typed, of he] by (auto simp: appends_def)
  ultimately show "\<exists>c. hash_value he v h = (Inr (), h @ c) \<and> hash_bsatn he t (h, bs) = (Inr (), (h @ c, r))"
    using hashes_asD [OF hash_bsatn_hashes(1), of he t h bs _ r] by (auto simp: decode_def)
qed (rule value_eq_hash(1) [OF assms])

theorem equal_values_hash_alike_witness:
  "let fe = \<lparr>eq_f32 = (=), eq_f64 = (=)\<rparr>; t = TProduct [(None, TU8), (None, TString)]; v = VProduct [VU8 7, VString [104, 105]];
       bs = [7, 2, 0, 0, 0, 104, 105, 1];
       he = \<lparr>hash_f32 = \<lambda>w. [CU32 w], hash_f64 = \<lambda>w. [CU64 w], hash_i256 = \<lambda>_. [], hash_u256 = \<lambda>_. []\<rparr>
   in float_hash_ok fe he \<and> typed t v \<and> eq_bsatn fe v bs = (Inr True, [1]) \<and>
      (\<exists>c. hash_value he v [] = (Inr (), [] @ c) \<and> hash_bsatn he t ([], bs) = (Inr (), ([] @ c, [1])))"
proof -
  have ok: "float_hash_ok \<lparr>eq_f32 = (=), eq_f64 = (=)\<rparr>
      \<lparr>hash_f32 = \<lambda>w. [CU32 w], hash_f64 = \<lambda>w. [CU64 w], hash_i256 = \<lambda>_. [], hash_u256 = \<lambda>_. []\<rparr>"
    by (simp add: float_hash_ok_def)
  moreover have "decode (TProduct [(None, TU8), (None, TString)]) [7, 2, 0, 0, 0, 104, 105, 1] = (Inr (VProduct [VU8 7, VString [104, 105]]), [1])"
    by code_simp
  then have "typed (TProduct [(None, TU8), (None, TString)]) (VProduct [VU8 7, VString [104, 105]])"
    by (simp only: decode_iff)
  moreover have "eq_bsatn \<lparr>eq_f32 = (=), eq_f64 = (=)\<rparr> (VProduct [VU8 7, VString [104, 105]]) [7, 2, 0, 0, 0, 104, 105, 1] = (Inr True, [1])"
    by code_simp
  ultimately show ?thesis using equal_values_hash_alike [OF ok] unfolding Let_def by blast
qed

text \<open>On a tag that the sum type does not have, decoding reports an error while hashing panics.\<close>

lemma hash_bsatn_panics_on_unknown_tag:
  "fst (decode (TSum [(None, TBool)]) [1, 0]) = Inl (Failed (InvalidTag 1 None))"
  "fst (hash_bsatn he (TSum [(None, TBool)]) (h, [1, 0])) = Inl DePanic"
proof -
  show "fst (decode (TSum [(None, TBool)]) [1, 0]) = Inl (Failed (InvalidTag 1 None))" by code_simp
  have "de get_u8 [1, 0] = (Inr 1, [0])" by code_simp
  then show "fst (hash_bsatn he (TSum [(None, TBool)]) (h, [1, 0])) = Inl DePanic"
    by (simp add: andThen_def reads_def feeds_def calls_def fail_with_def)
qed

end
