(* ===== verification/Var_Len.thy ===== *)
theory Var_Len
  imports Row_Pointer Blob_Store "HOL-Library.Monad_Syntax"
begin

text \<open>
  \<^verbatim>\<open>crates/table/src/var_len.rs\<close>: references to variable-length objects, the 64-byte granules
  they are stored in, the packed header of a granule, and the visitors that find the references in a row.
  Page memory is a list of bytes; an access outside of it is \<^const>\<open>None\<close>. A visitor yields the positions of the
  references of a row, in the order it visits them.
\<close>

unbundle bit_operations_syntax

subsection \<open>Memory accesses\<close>

text \<open>\<^verbatim>\<open>get_ref\<close> and \<^verbatim>\<open>get_mut\<close> of \<^verbatim>\<open>page.rs\<close> at the types used: a 16-bit word, a run of bytes.\<close>

definition load_bytes :: "byte list \<Rightarrow> nat \<Rightarrow> nat \<Rightarrow> byte list option" where
  "load_bytes mem off n = (if off + n \<le> length mem then Some (take n (drop off mem)) else None)"

definition load_u16 :: "byte list \<Rightarrow> nat \<Rightarrow> u16 option" where
  "load_u16 mem off = map_option from_le_bytes (load_bytes mem off 2)"

definition store_bytes :: "byte list \<Rightarrow> nat \<Rightarrow> byte list \<Rightarrow> byte list option" where
  "store_bytes mem off bs =
     (if off + length bs \<le> length mem then Some (take off mem @ bs @ drop (off + length bs) mem) else None)"

definition store_u16 :: "byte list \<Rightarrow> nat \<Rightarrow> u16 \<Rightarrow> byte list option" where
  "store_u16 mem off w = store_bytes mem off (to_le_bytes 2 w)"

subsection \<open>References\<close>

record var_len_ref =
  length_in_bytes :: u16
  first_granule :: page_offset

definition LARGE_BLOB_SENTINEL :: u16 where
  "LARGE_BLOB_SENTINEL = 65535"

definition is_large_blob :: "var_len_ref \<Rightarrow> bool" where
  "is_large_blob vlr \<longleftrightarrow> length_in_bytes vlr = LARGE_BLOB_SENTINEL"

definition large_blob :: "page_offset \<Rightarrow> var_len_ref" where
  "large_blob granule = \<lparr>length_in_bytes = LARGE_BLOB_SENTINEL, first_granule = granule\<rparr>"

definition vlr_is_null :: "var_len_ref \<Rightarrow> bool" where
  "vlr_is_null vlr \<longleftrightarrow> is_var_len_null (first_granule vlr)"

definition VLR_NULL :: var_len_ref where
  "VLR_NULL = \<lparr>length_in_bytes = 0, first_granule = VAR_LEN_NULL\<rparr>"

text \<open>The reference stored at a position of a row, two little-endian words.\<close>

definition load_ref :: "byte list \<Rightarrow> nat \<Rightarrow> var_len_ref option" where
  "load_ref row pos = do {
     len \<leftarrow> load_u16 row pos;
     first \<leftarrow> load_u16 row (pos + 2);
     Some \<lparr>length_in_bytes = len, first_granule = first\<rparr>
   }"

definition ref_bytes :: "var_len_ref \<Rightarrow> byte list" where
  "ref_bytes vlr = to_le_bytes 2 (length_in_bytes vlr) @ to_le_bytes 2 (first_granule vlr)"

definition store_ref :: "byte list \<Rightarrow> nat \<Rightarrow> var_len_ref \<Rightarrow> byte list option" where
  "store_ref row pos vlr = store_bytes row pos (ref_bytes vlr)"

subsection \<open>Granule headers\<close>

definition LEN_BITS :: nat where
  "LEN_BITS = 6"

definition LEN_BITMASK :: u16 where
  "LEN_BITMASK = push_bit LEN_BITS 1 - 1"

definition NEXT_BITMASK :: u16 where
  "NEXT_BITMASK = NOT LEN_BITMASK"

type_synonym granule_header = u16

definition with_len :: "granule_header \<Rightarrow> u8 \<Rightarrow> granule_header" where
  "with_len h len = (h AND NOT LEN_BITMASK) OR (ucast len AND LEN_BITMASK)"

definition with_next :: "granule_header \<Rightarrow> page_offset \<Rightarrow> granule_header" where
  "with_next h nxt = (h AND NOT NEXT_BITMASK) OR (nxt AND NEXT_BITMASK)"

definition header_new :: "u8 \<Rightarrow> page_offset \<Rightarrow> granule_header" where
  "header_new len nxt = with_next (with_len 0 len) nxt"

definition header_len :: "granule_header \<Rightarrow> u8" where
  "header_len h = ucast (h AND LEN_BITMASK)"

definition header_next :: "granule_header \<Rightarrow> page_offset" where
  "header_next h = h AND NEXT_BITMASK"

definition is_granule_offset_aligned :: "page_offset \<Rightarrow> bool" where
  "is_granule_offset_aligned off \<longleftrightarrow> off = off AND NEXT_BITMASK"

subsection \<open>Granules\<close>

definition GRANULE_SIZE :: size_u16 where
  "GRANULE_SIZE = 64"

definition DATA_SIZE :: nat where
  "DATA_SIZE = unat GRANULE_SIZE - 2"

definition OBJECT_MAX_GRANULES_BEFORE_BLOB :: nat where
  "OBJECT_MAX_GRANULES_BEFORE_BLOB = 16"

definition OBJECT_SIZE_BLOB_THRESHOLD :: nat where
  "OBJECT_SIZE_BLOB_THRESHOLD = DATA_SIZE * OBJECT_MAX_GRANULES_BEFORE_BLOB"

record var_len_granule =
  g_header :: granule_header
  g_data :: "byte list"

definition space_to_granules :: "size_u16 \<Rightarrow> nat" where
  "space_to_granules available_len = unat available_len div unat GRANULE_SIZE"

definition bytes_to_granules :: "nat \<Rightarrow> nat \<times> bool" where
  "bytes_to_granules len_in_bytes =
     (if len_in_bytes > OBJECT_SIZE_BLOB_THRESHOLD then (1, True)
      else (div_ceil len_in_bytes DATA_SIZE, False))"

definition granules_used :: "var_len_ref \<Rightarrow> nat" where
  "granules_used vlr = fst (bytes_to_granules (unat (length_in_bytes vlr)))"

function granule_chunks :: "byte list \<Rightarrow> byte list list" where
  "granule_chunks bytes =
     (if bytes = [] then [] else take DATA_SIZE bytes # granule_chunks (drop DATA_SIZE bytes))"
  by pat_completeness auto
termination
  by (relation "measure length") (auto simp: DATA_SIZE_def GRANULE_SIZE_def)

declare granule_chunks.simps [simp del]

text \<open>Panics when the length of the header is beyond the data of a granule.\<close>

definition granule_data :: "var_len_granule \<Rightarrow> byte list option" where
  "granule_data g =
     (let len = unat (header_len (g_header g)) in if len \<le> length (g_data g) then Some (take len (g_data g)) else None)"

text \<open>Panics when the data is not as long as a hash.\<close>

definition granule_blob_hash :: "var_len_granule \<Rightarrow> blob_hash option" where
  "granule_blob_hash g = do {
     d \<leftarrow> granule_data g;
     case blob_hash_try_from d of Inr h \<Rightarrow> Some h | Inl _ \<Rightarrow> None
   }"

definition load_granule :: "byte list \<Rightarrow> nat \<Rightarrow> var_len_granule option" where
  "load_granule mem off = do {
     h \<leftarrow> load_u16 mem off;
     d \<leftarrow> load_bytes mem (off + 2) DATA_SIZE;
     Some \<lparr>g_header = h, g_data = d\<rparr>
   }"

subsection \<open>Visitors\<close>

type_synonym var_len_visitor = "byte list \<Rightarrow> nat list option"

definition null_visitor :: var_len_visitor where
  "null_visitor row = Some []"

text \<open>\<^verbatim>\<open>AlignedVarLenOffsets\<close>: the iterator advances an index into the offsets and uses that index as the position.\<close>

definition aligned_visitor :: "u16 list \<Rightarrow> var_len_visitor" where
  "aligned_visitor offsets row = Some (map (\<lambda>curr_offset_idx. curr_offset_idx * 2) [0..<length offsets])"

subsection \<open>Headers pack a length and an offset\<close>

lemma LEN_BITMASK_mask: "LEN_BITMASK = mask 6"
  by (simp add: LEN_BITMASK_def LEN_BITS_def mask_eq_exp_minus_1)

lemma header_next_new:
  assumes "is_granule_offset_aligned nxt"
  shows "header_next (header_new len nxt) = nxt"
proof -
  have "nxt = nxt AND NOT (mask 6)" using assms by (simp add: is_granule_offset_aligned_def NEXT_BITMASK_def LEN_BITMASK_mask)
  then have "bit nxt i \<Longrightarrow> 6 \<le> i" for i by (metis bit_and_iff bit_mask_iff bit_not_iff not_less possible_bit_word bit_imp_le_length)
  then show ?thesis
    by (intro bit_word_eqI)
      (auto simp: header_next_def header_new_def with_next_def with_len_def NEXT_BITMASK_def LEN_BITMASK_mask bit_simps not_less [symmetric])
qed

lemma header_len_new:
  assumes "unat len < 64"
  shows "header_len (header_new len nxt) = len"
proof -
  have "unat (take_bit 6 len) = unat len"
    using assms by (simp only: unsigned_take_bit_eq) (simp add: take_bit_nat_eq_self)
  then have "take_bit 6 len = len" by (simp only: unat_eq_iff)
  then have "bit len i \<Longrightarrow> i < 6" for i by (metis bit_take_bit_iff)
  then show ?thesis
    by (intro bit_word_eqI) (auto simp: header_len_def header_new_def with_next_def with_len_def NEXT_BITMASK_def LEN_BITMASK_mask bit_simps)
qed

lemma aligned_iff: "is_granule_offset_aligned off \<longleftrightarrow> 64 dvd unat off"
proof -
  have "off = off AND NOT (mask 6) \<longleftrightarrow> take_bit 6 off = 0"
    by (auto simp: bit_eq_iff bit_simps)
  also have "\<dots> \<longleftrightarrow> unat (take_bit 6 off) = 0" by (simp add: unsigned_eq_0_iff)
  also have "\<dots> \<longleftrightarrow> 64 dvd unat off"
    by (simp only: unsigned_take_bit_eq) (simp add: take_bit_eq_mod mod_eq_0_iff_dvd)
  finally show ?thesis by (simp add: is_granule_offset_aligned_def NEXT_BITMASK_def LEN_BITMASK_mask)
qed

text \<open>Offsets other than the positions \<open>0, 2, 4, \<dots>\<close> are not visited, whatever the slice of offsets says.\<close>

lemma aligned_visitor_ignores_offsets: "aligned_visitor [0, 4] row = Some [0, 2]"
  by (simp add: aligned_visitor_def upt_rec)

end
