(* ===== verification/Layout.thy ===== *)
theory Layout
  imports Bsatn Var_Len
begin

text \<open>
  \<^verbatim>\<open>crates/table/src/layout.rs\<close>: the layout of rows and columns in a page. A type is annotated with the size
  and alignment of its values and with the offsets of its fields; strings and arrays take the four bytes of a reference.
  Sizes and offsets are kept in 16 bits by the code; \<open>nat_layout\<close> is the layout in unbounded numbers, and the two agree
  for every type whose values fit.
\<close>

subsection \<open>Layouts\<close>

definition align_to :: "nat \<Rightarrow> nat \<Rightarrow> nat" where
  "align_to base required_alignment =
     (if required_alignment = 0 then base
      else let misalignment = base mod required_alignment
           in if misalignment = 0 then base
              else let padding = required_alignment - misalignment in base + padding)"

record layout =
  lay_size :: u16
  lay_align :: u16
  lay_fixed :: bool

datatype primitive_type = PBool | PI8 | PU8 | PI16 | PU16 | PI32 | PU32 | PI64 | PU64 | PI128 | PU128 | PI256 | PU256 | PF32 | PF64

datatype var_len_type = VLString | VLArray algebraic_type

datatype type_layout =
    LSum layout "(type_layout \<times> string option) list" u16
  | LProduct layout "(u16 \<times> type_layout \<times> string option) list"
  | LPrimitive primitive_type
  | LVarLen var_len_type

type_synonym layout_elements = "(u16 \<times> type_layout \<times> string option) list"
type_synonym layout_variants = "(type_layout \<times> string option) list"

fun primitive_layout :: "primitive_type \<Rightarrow> layout" where
  "primitive_layout PBool = \<lparr>lay_size = 1, lay_align = 1, lay_fixed = True\<rparr>"
| "primitive_layout PI8 = \<lparr>lay_size = 1, lay_align = 1, lay_fixed = True\<rparr>"
| "primitive_layout PU8 = \<lparr>lay_size = 1, lay_align = 1, lay_fixed = True\<rparr>"
| "primitive_layout PI16 = \<lparr>lay_size = 2, lay_align = 2, lay_fixed = True\<rparr>"
| "primitive_layout PU16 = \<lparr>lay_size = 2, lay_align = 2, lay_fixed = True\<rparr>"
| "primitive_layout PI32 = \<lparr>lay_size = 4, lay_align = 4, lay_fixed = True\<rparr>"
| "primitive_layout PU32 = \<lparr>lay_size = 4, lay_align = 4, lay_fixed = True\<rparr>"
| "primitive_layout PI64 = \<lparr>lay_size = 8, lay_align = 8, lay_fixed = True\<rparr>"
| "primitive_layout PU64 = \<lparr>lay_size = 8, lay_align = 8, lay_fixed = True\<rparr>"
| "primitive_layout PI128 = \<lparr>lay_size = 16, lay_align = 16, lay_fixed = True\<rparr>"
| "primitive_layout PU128 = \<lparr>lay_size = 16, lay_align = 16, lay_fixed = True\<rparr>"
| "primitive_layout PI256 = \<lparr>lay_size = 32, lay_align = 32, lay_fixed = True\<rparr>"
| "primitive_layout PU256 = \<lparr>lay_size = 32, lay_align = 32, lay_fixed = True\<rparr>"
| "primitive_layout PF32 = \<lparr>lay_size = 4, lay_align = 4, lay_fixed = True\<rparr>"
| "primitive_layout PF64 = \<lparr>lay_size = 8, lay_align = 8, lay_fixed = True\<rparr>"

definition VAR_LEN_REF_LAYOUT :: layout where
  "VAR_LEN_REF_LAYOUT = \<lparr>lay_size = 4, lay_align = 2, lay_fixed = False\<rparr>"

fun layout_of :: "type_layout \<Rightarrow> layout" where
  "layout_of (LSum l _ _) = l"
| "layout_of (LProduct l _) = l"
| "layout_of (LPrimitive p) = primitive_layout p"
| "layout_of (LVarLen _) = VAR_LEN_REF_LAYOUT"

definition ty_size :: "type_layout \<Rightarrow> nat" where
  "ty_size ty = unat (lay_size (layout_of ty))"

definition ty_align :: "type_layout \<Rightarrow> nat" where
  "ty_align ty = unat (lay_align (layout_of ty))"

abbreviation ty_fixed :: "type_layout \<Rightarrow> bool" where
  "ty_fixed ty \<equiv> lay_fixed (layout_of ty)"

definition MIN_ROW_SIZE :: size_u16 where
  "MIN_ROW_SIZE = 2"

definition MIN_ROW_ALIGN :: size_u16 where
  "MIN_ROW_ALIGN = 2"

definition row_size_for_bytes :: "nat \<Rightarrow> size_u16" where
  "row_size_for_bytes required_bytes =
     (if required_bytes > unat MIN_ROW_SIZE then of_nat (align_to required_bytes (unat MIN_ROW_ALIGN)) else MIN_ROW_SIZE)"

record row_type_layout =
  row_layout :: layout
  row_elements :: layout_elements

subsection \<open>From types\<close>

text \<open>A reference to a typespace entry has no layout: the conversion panics. The types of the fields and variants are
  converted first; the loops then carry the variables that the closures of the source update.\<close>

primrec layout_fields ::
  "(string option \<times> type_layout) list \<Rightarrow> nat \<Rightarrow> nat \<Rightarrow> bool \<Rightarrow> layout_elements \<times> nat \<times> nat \<times> bool" where
  "layout_fields [] current_offset max_child_align fixed = ([], current_offset, max_child_align, fixed)"
| "layout_fields (f # fs) current_offset max_child_align fixed =
     (let (name, ty) = f;
          this_offset = align_to current_offset (ty_align ty);
          (elements, rest) =
            layout_fields fs (this_offset + ty_size ty) (max max_child_align (ty_align ty)) (fixed \<and> ty_fixed ty)
      in ((of_nat this_offset, ty, name) # elements, rest))"

definition product_type_layout :: "(string option \<times> type_layout) list \<Rightarrow> layout_elements \<times> layout" where
  "product_type_layout fs =
     (let (elements, current_offset, max_child_align, fixed) = layout_fields fs 0 1 True
      in (elements, \<lparr>lay_size = of_nat (align_to current_offset max_child_align),
                     lay_align = of_nat max_child_align, lay_fixed = fixed\<rparr>))"

primrec variant_extent :: "(string option \<times> type_layout) list \<Rightarrow> nat \<Rightarrow> nat \<Rightarrow> bool \<Rightarrow> nat \<times> nat \<times> bool" where
  "variant_extent [] max_child_size max_child_align fixed = (max_child_size, max_child_align, fixed)"
| "variant_extent (v # vs) max_child_size max_child_align fixed =
     variant_extent vs (max max_child_size (ty_size (snd v))) (max max_child_align (ty_align (snd v)))
       (fixed \<and> ty_fixed (snd v))"

definition sum_type_layout :: "(string option \<times> type_layout) list \<Rightarrow> type_layout" where
  "sum_type_layout vs =
     (let (max_child_size, max_child_align, fixed) = variant_extent vs 0 0 True;
          align = max (of_nat max_child_align) 1;
          payload_size = align_to max_child_size max_child_align;
          size = align + of_nat payload_size
      in LSum \<lparr>lay_size = size, lay_align = align, lay_fixed = fixed\<rparr> (map (\<lambda>(name, ty). (ty, name)) vs) align)"

fun type_layout_of :: "algebraic_type \<Rightarrow> type_layout option" where
  "type_layout_of (TRef _) = None"
| "type_layout_of (TSum vs) =
     map_option sum_type_layout (those (map (\<lambda>(name, t). map_option (Pair name) (type_layout_of t)) vs))"
| "type_layout_of (TProduct es) =
     map_option (\<lambda>fs. case product_type_layout fs of (elements, l) \<Rightarrow> LProduct l elements)
       (those (map (\<lambda>(name, t). map_option (Pair name) (type_layout_of t)) es))"
| "type_layout_of TString = Some (LVarLen VLString)"
| "type_layout_of (TArray t) = Some (LVarLen (VLArray (TArray t)))"
| "type_layout_of TBool = Some (LPrimitive PBool)"
| "type_layout_of TI8 = Some (LPrimitive PI8)"
| "type_layout_of TU8 = Some (LPrimitive PU8)"
| "type_layout_of TI16 = Some (LPrimitive PI16)"
| "type_layout_of TU16 = Some (LPrimitive PU16)"
| "type_layout_of TI32 = Some (LPrimitive PI32)"
| "type_layout_of TU32 = Some (LPrimitive PU32)"
| "type_layout_of TI64 = Some (LPrimitive PI64)"
| "type_layout_of TU64 = Some (LPrimitive PU64)"
| "type_layout_of TI128 = Some (LPrimitive PI128)"
| "type_layout_of TU128 = Some (LPrimitive PU128)"
| "type_layout_of TI256 = Some (LPrimitive PI256)"
| "type_layout_of TU256 = Some (LPrimitive PU256)"
| "type_layout_of TF32 = Some (LPrimitive PF32)"
| "type_layout_of TF64 = Some (LPrimitive PF64)"

definition row_type_layout_of :: "type_elements \<Rightarrow> row_type_layout option" where
  "row_type_layout_of es =
     map_option (\<lambda>(elements, l). \<lparr>row_layout = l\<lparr>lay_size := row_size_for_bytes (unat (lay_size l))\<rparr>, row_elements = elements\<rparr>)
       (map_option product_type_layout (those (map (\<lambda>(name, t). map_option (Pair name) (type_layout_of t)) es)))"

definition row_size :: "row_type_layout \<Rightarrow> size_u16" where
  "row_size r = of_nat (unat (lay_size (row_layout r)))"

subsection \<open>Back to types\<close>

fun primitive_algebraic_type :: "primitive_type \<Rightarrow> algebraic_type" where
  "primitive_algebraic_type PBool = TBool"
| "primitive_algebraic_type PI8 = TI8"
| "primitive_algebraic_type PU8 = TU8"
| "primitive_algebraic_type PI16 = TI16"
| "primitive_algebraic_type PU16 = TU16"
| "primitive_algebraic_type PI32 = TI32"
| "primitive_algebraic_type PU32 = TU32"
| "primitive_algebraic_type PI64 = TI64"
| "primitive_algebraic_type PU64 = TU64"
| "primitive_algebraic_type PI128 = TI128"
| "primitive_algebraic_type PU128 = TU128"
| "primitive_algebraic_type PI256 = TI256"
| "primitive_algebraic_type PU256 = TU256"
| "primitive_algebraic_type PF32 = TF32"
| "primitive_algebraic_type PF64 = TF64"

fun var_len_algebraic_type :: "var_len_type \<Rightarrow> algebraic_type" where
  "var_len_algebraic_type VLString = TString"
| "var_len_algebraic_type (VLArray t) = t"

fun layout_algebraic_type :: "type_layout \<Rightarrow> algebraic_type" where
  "layout_algebraic_type (LPrimitive p) = primitive_algebraic_type p"
| "layout_algebraic_type (LVarLen v) = var_len_algebraic_type v"
| "layout_algebraic_type (LProduct l elements) = TProduct (map (\<lambda>(_, ty, name). (name, layout_algebraic_type ty)) elements)"
| "layout_algebraic_type (LSum l variants _) = TSum (map (\<lambda>(ty, name). (name, layout_algebraic_type ty)) variants)"

subsection \<open>Decoding at a layout\<close>

fun deserialize_layout :: "type_layout \<Rightarrow> algebraic_value de"
  and deserialize_layout_variant :: "layout_variants \<Rightarrow> nat \<Rightarrow> u8 \<Rightarrow> algebraic_value de"
  and deserialize_layout_product :: "layout_elements \<Rightarrow> algebraic_value list de" where
  "deserialize_layout (LSum l vs _) =
     map_ok VSum (andThen (de get_u8) (\<lambda>tag. map_ok (SumValue tag) (deserialize_layout_variant vs (unat tag) tag)))"
| "deserialize_layout (LProduct l es) = map_ok VProduct (deserialize_layout_product es)"
| "deserialize_layout (LPrimitive PBool) = map_ok VBool deserialize_bool"
| "deserialize_layout (LPrimitive PI8) = map_ok VI8 (de get_i8)"
| "deserialize_layout (LPrimitive PU8) = map_ok VU8 (de get_u8)"
| "deserialize_layout (LPrimitive PI16) = map_ok VI16 (de get_i16)"
| "deserialize_layout (LPrimitive PU16) = map_ok VU16 (de get_u16)"
| "deserialize_layout (LPrimitive PI32) = map_ok VI32 (de get_i32)"
| "deserialize_layout (LPrimitive PU32) = map_ok VU32 (de get_u32)"
| "deserialize_layout (LPrimitive PI64) = map_ok VI64 (de get_i64)"
| "deserialize_layout (LPrimitive PU64) = map_ok VU64 (de get_u64)"
| "deserialize_layout (LPrimitive PI128) = map_ok VI128 (de get_i128)"
| "deserialize_layout (LPrimitive PU128) = map_ok VU128 (de get_u128)"
| "deserialize_layout (LPrimitive PI256) = map_ok VI256 (de get_i256)"
| "deserialize_layout (LPrimitive PU256) = map_ok VU256 (de get_u256)"
| "deserialize_layout (LPrimitive PF32) = map_ok VF32 (de get_u32)"
| "deserialize_layout (LPrimitive PF64) = map_ok VF64 (de get_u64)"
| "deserialize_layout (LVarLen (VLArray t)) = deserialize_value t"
| "deserialize_layout (LVarLen VLString) = map_ok VString deserialize_str"
| "deserialize_layout_variant [] k tag = fail_with (Failed (InvalidTag tag None))"
| "deserialize_layout_variant ((ty, name) # vs) k tag =
     (case k of 0 \<Rightarrow> deserialize_layout ty | Suc k' \<Rightarrow> deserialize_layout_variant vs k' tag)"
| "deserialize_layout_product [] = ret []"
| "deserialize_layout_product ((off, ty, name) # es) =
     andThen (deserialize_layout ty) (\<lambda>v. andThen (deserialize_layout_product es) (\<lambda>vs. ret (v # vs)))"

subsection \<open>The conversion keeps the type\<close>

lemma those_map_iff: "those (map f xs) = Some ys \<longleftrightarrow> list_all2 (\<lambda>x y. f x = Some y) xs ys"
proof (induction xs arbitrary: ys)
  case (Cons x xs)
  then show ?case by (cases ys) (auto split: option.splits)
qed auto

text \<open>Related field by field: the names agree and the types are converted.\<close>

abbreviation converted :: "type_elements \<Rightarrow> (string option \<times> type_layout) list \<Rightarrow> bool" where
  "converted \<equiv> list_all2 (\<lambda>(name, t) (name', ty). name = name' \<and> type_layout_of t = Some ty)"

lemma those_converted:
  "those (map (\<lambda>(name, t). map_option (Pair name) (type_layout_of t)) es) = Some fs \<longleftrightarrow> converted es fs"
  unfolding those_map_iff by (rule arg_cong [where f = "\<lambda>R. list_all2 R es fs"]) (auto simp: fun_eq_iff)

lemma fields_of_layout_fields: "map (\<lambda>(_, ty, name). (name, ty)) (fst (layout_fields fs off al fx)) = fs"
  by (induction fs arbitrary: off al fx) (auto simp: Let_def case_prod_beta)

lemma converted_imp:
  assumes "converted es fs" and "\<And>name t ty. (name, t) \<in> set es \<Longrightarrow> type_layout_of t = Some ty \<Longrightarrow> Q t ty"
  shows "list_all2 (\<lambda>(name, t) (name', ty). name = name' \<and> Q t ty) es fs"
  using assms by (induction es fs rule: list_all2_induct) auto

lemma layout_keeps_type: "type_layout_of t = Some ty \<Longrightarrow> layout_algebraic_type ty = t"
proof (induction t arbitrary: ty rule: type_layout_of.induct)
  case (2 vs)
  then obtain fs where fs: "converted vs fs" "ty = sum_type_layout fs" by (auto simp: those_converted)
  have "list_all2 (\<lambda>(name, t) (name', ty). name = name' \<and> layout_algebraic_type ty = t) vs fs"
    using fs(1) by (rule converted_imp) (use "2.IH" in blast)
  then have "map (\<lambda>(name, ty). (name, layout_algebraic_type ty)) fs = vs"
    by (induction vs fs rule: list_all2_induct) auto
  with fs(2) show ?case by (simp add: sum_type_layout_def Let_def case_prod_beta' comp_def)
next
  case (3 es)
  then obtain fs where fs: "converted es fs" "ty = (case product_type_layout fs of (elements, l) \<Rightarrow> LProduct l elements)"
    by (auto simp: those_converted)
  have "list_all2 (\<lambda>(name, t) (name', ty). name = name' \<and> layout_algebraic_type ty = t) es fs"
    using fs(1) by (rule converted_imp) (use "3.IH" in blast)
  then have "map (\<lambda>(name, ty). (name, layout_algebraic_type ty)) fs = es"
    by (induction es fs rule: list_all2_induct) auto
  then have "map (\<lambda>(name, ty). (name, layout_algebraic_type ty)) (map (\<lambda>(_, ty, name). (name, ty)) (fst (layout_fields fs 0 1 True))) = es"
    by (simp only: fields_of_layout_fields)
  with fs(2) show ?case by (simp add: product_type_layout_def Let_def case_prod_beta' comp_def)
qed auto

lemma deserialize_layout_parts:
  assumes "list_all2 (\<lambda>(name, t) (name', ty). name = name' \<and> deserialize_layout ty = deserialize_value t) es fs"
  shows "deserialize_layout_variant (map (\<lambda>(name, ty). (ty, name)) fs) k tag = deserialize_variant es k tag"
    and "map (\<lambda>(_, ty, name). (name, ty)) els = fs \<Longrightarrow> deserialize_layout_product els = visit_seq_product es"
  using assms
  by (induction es fs arbitrary: k els rule: list_all2_induct) (auto split: nat.splits)

lemma deserialize_layout_is_deserialize: "type_layout_of t = Some ty \<Longrightarrow> deserialize_layout ty = deserialize_value t"
proof (induction t arbitrary: ty rule: type_layout_of.induct)
  case (2 vs)
  then obtain fs where fs: "converted vs fs" "ty = sum_type_layout fs" by (auto simp: those_converted)
  have "list_all2 (\<lambda>(name, t) (name', ty). name = name' \<and> deserialize_layout ty = deserialize_value t) vs fs"
    using fs(1) by (rule converted_imp) (use "2.IH" in blast)
  from deserialize_layout_parts(1) [OF this] show ?case
    using fs(2) by (simp add: sum_type_layout_def Let_def case_prod_beta)
next
  case (3 es)
  then obtain fs where fs: "converted es fs" "ty = (case product_type_layout fs of (elements, l) \<Rightarrow> LProduct l elements)"
    by (auto simp: those_converted)
  have "list_all2 (\<lambda>(name, t) (name', ty). name = name' \<and> deserialize_layout ty = deserialize_value t) es fs"
    using fs(1) by (rule converted_imp) (use "3.IH" in blast)
  from deserialize_layout_parts(2) [OF this fields_of_layout_fields] show ?case
    using fs(2) by (simp add: product_type_layout_def case_prod_beta)
qed auto
subsection \<open>Fields are aligned and do not overlap\<close>

text \<open>Layouts without the 16-bit bound: the size and the alignment of the values of a type.\<close>

primrec nat_fields :: "(nat \<times> nat) list \<Rightarrow> nat \<Rightarrow> nat \<Rightarrow> nat \<times> nat" where
  "nat_fields [] off al = (align_to off al, al)"
| "nat_fields (f # fs) off al = nat_fields fs (align_to off (snd f) + fst f) (max al (snd f))"

definition nat_sum :: "(nat \<times> nat) list \<Rightarrow> nat \<times> nat" where
  "nat_sum vs =
     (let ms = foldr max (map fst vs) 0; ma = foldr max (map snd vs) 0; al = max ma 1
      in (al + align_to ms ma, al))"

fun nat_layout :: "algebraic_type \<Rightarrow> nat \<times> nat" where
  "nat_layout (TSum vs) = nat_sum (map (\<lambda>(_, t). nat_layout t) vs)"
| "nat_layout (TProduct es) = nat_fields (map (\<lambda>(_, t). nat_layout t) es) 0 1"
| "nat_layout t = (case type_layout_of t of Some ty \<Rightarrow> (ty_size ty, ty_align ty) | None \<Rightarrow> (0, 1))"

fun fields_ok :: "nat \<Rightarrow> nat \<Rightarrow> layout_elements \<Rightarrow> nat \<Rightarrow> bool" where
  "fields_ok lo al [] hi \<longleftrightarrow> lo \<le> hi"
| "fields_ok lo al ((off, ty, _) # els) hi \<longleftrightarrow>
     lo \<le> unat off \<and> ty_align ty dvd unat off \<and> ty_align ty dvd al \<and> fields_ok (unat off + ty_size ty) al els hi"

fun well_laid :: "type_layout \<Rightarrow> bool" where
  "well_laid (LPrimitive p) \<longleftrightarrow> True"
| "well_laid (LVarLen v) \<longleftrightarrow> True"
| "well_laid (LProduct l els) \<longleftrightarrow>
     unat (lay_align l) dvd unat (lay_size l) \<and> fields_ok 0 (unat (lay_align l)) els (unat (lay_size l)) \<and>
     (\<forall>(_, ty, _) \<in> set els. well_laid ty)"
| "well_laid (LSum l vs payload) \<longleftrightarrow>
     unat (lay_align l) dvd unat (lay_size l) \<and> 0 < unat payload \<and> unat (lay_align l) dvd unat payload \<and>
     (\<forall>(ty, _) \<in> set vs. well_laid ty \<and> ty_align ty dvd unat (lay_align l) \<and> unat payload + ty_size ty \<le> unat (lay_size l))"

definition aligns :: "nat set" where
  "aligns = {1, 2, 4, 8, 16, 32}"

lemma aligns_dvd: "a \<in> aligns \<Longrightarrow> b \<in> aligns \<Longrightarrow> a dvd max a b \<and> b dvd max a b \<and> max a b \<in> aligns"
  by (auto simp: aligns_def max_def)

lemma aligns_pos: "a \<in> aligns \<Longrightarrow> 0 < a \<and> a \<le> 32"
  by (auto simp: aligns_def)

lemma align_to_ge: "n \<le> align_to n a"
  unfolding align_to_def Let_def by (simp del: Nat.add_diff_assoc Nat.diff_add_assoc)

lemma align_to_dvd: "0 < a \<Longrightarrow> a dvd align_to n a"
proof -
  assume "0 < a"
  then have "(n + (a - n mod a)) mod a = 0"
    by (metis add.commute le_add_diff_inverse2 less_imp_le mod_add_right_eq mod_less_divisor mod_self)
  then show ?thesis by (auto simp: align_to_def Let_def mod_eq_0_iff_dvd)
qed

lemma nat_fields_mono: "off \<le> fst (nat_fields fs off al) \<and> al \<le> snd (nat_fields fs off al)"
proof (induction fs arbitrary: off al)
  case (Cons f fs)
  have "off \<le> align_to off (snd f) + fst f" using align_to_ge [of off "snd f"] by simp
  with Cons.IH [of "align_to off (snd f) + fst f" "max al (snd f)"] show ?case by simp
qed (simp add: align_to_ge)

lemma nat_fields_align:
  "al \<in> aligns \<Longrightarrow> \<forall>f\<in>set fs. snd f \<in> aligns \<Longrightarrow>
     snd (nat_fields fs off al) \<in> aligns \<and> al dvd snd (nat_fields fs off al) \<and>
     (\<forall>f\<in>set fs. snd f dvd snd (nat_fields fs off al)) \<and> snd (nat_fields fs off al) dvd fst (nat_fields fs off al)"
proof (induction fs arbitrary: off al)
  case (Cons f fs)
  have "snd f \<in> aligns" using Cons.prems by simp
  note m = aligns_dvd [OF Cons.prems(1) this]
  with Cons.IH [of "max al (snd f)" "align_to off (snd f) + fst f"] Cons.prems show ?case
    by (auto intro: dvd_trans)
qed (simp add: align_to_dvd aligns_pos)

abbreviation extents :: "(string option \<times> type_layout) list \<Rightarrow> (nat \<times> nat) list" where
  "extents \<equiv> map (\<lambda>(_, ty). (ty_size ty, ty_align ty))"

lemma fields_ok_mono: "fields_ok lo al els hi \<Longrightarrow> al dvd al' \<Longrightarrow> hi \<le> hi' \<Longrightarrow> fields_ok lo al' els hi'"
  by (induction lo al els hi rule: fields_ok.induct) (auto intro: dvd_trans)

lemma layout_fields_ok:
  assumes "layout_fields fs off al fx = (els, off', al', fx')" and "\<forall>(_, ty) \<in> set fs. ty_align ty \<in> aligns" and "al \<in> aligns"
    and "fst (nat_fields (extents fs) off al) < 65536"
  shows "nat_fields (extents fs) off al = (align_to off' al', al') \<and> off \<le> off' \<and> fields_ok off al' els off'"
  using assms
proof (induction fs arbitrary: off al fx els)
  case (Cons f fs)
  obtain name ty where f: "f = (name, ty)" by (cases f)
  let ?o = "align_to off (ty_align ty)"
  obtain els' where els: "els = (of_nat ?o, ty, name) # els'"
      "layout_fields fs (?o + ty_size ty) (max al (ty_align ty)) (fx \<and> ty_fixed ty) = (els', off', al', fx')"
    using Cons.prems(1) by (auto simp: f Let_def split: prod.splits)
  have a: "ty_align ty \<in> aligns" using Cons.prems(2) by (auto simp: f)
  note m = aligns_dvd [OF Cons.prems(3) a]
  have IH: "nat_fields (extents fs) (?o + ty_size ty) (max al (ty_align ty)) = (align_to off' al', al')"
      "?o + ty_size ty \<le> off'" "fields_ok (?o + ty_size ty) al' els' off'"
    using Cons.IH [OF els(2)] Cons.prems m by (auto simp: f)
  have "?o \<le> align_to off' al'" using IH(2) align_to_ge [of off' al'] by simp
  then have o: "unat (of_nat ?o :: u16) = ?o" using Cons.prems(4) IH(1) by (simp add: f unat_of_nat)
  have "ty_align ty dvd al'"
    using nat_fields_align [of "max al (ty_align ty)" "extents fs" "?o + ty_size ty"] m Cons.prems(2) IH(1)
    by (auto simp: f case_prod_beta intro: dvd_trans)
  then show ?case
    using IH align_to_ge [of off "ty_align ty"] align_to_dvd [of "ty_align ty" off] aligns_pos [OF a] by (simp add: f els(1) o)
qed auto

lemma variant_extent_max:
  "variant_extent vs ms ma fx = (ms', ma', fx') \<Longrightarrow>
     ms' = max ms (foldr max (map fst (extents vs)) 0) \<and> ma' = max ma (foldr max (map snd (extents vs)) 0)"
proof (induction vs arbitrary: ms ma fx)
  case (Cons v vs)
  from Cons.prems have "variant_extent vs (max ms (ty_size (snd v))) (max ma (ty_align (snd v))) (fx \<and> ty_fixed (snd v)) = (ms', ma', fx')"
    by simp
  from Cons.IH [OF this] show ?case by (simp add: case_prod_beta max.assoc)
qed auto

lemma foldr_max_ge: "x \<in> set xs \<Longrightarrow> x \<le> foldr max xs (0 :: nat)"
  by (induction xs) auto

lemma foldr_max_aligns:
  "\<forall>x\<in>set xs. x \<in> aligns \<Longrightarrow> xs \<noteq> [] \<Longrightarrow> foldr max xs 0 \<in> aligns \<and> (\<forall>x\<in>set xs. x dvd foldr max xs 0)"
proof (induction xs)
  case (Cons x xs)
  show ?case
  proof (cases "xs = []")
    case False
    with Cons aligns_dvd [of x "foldr max xs 0"] show ?thesis by (auto intro: dvd_trans)
  qed (use Cons.prems in auto)
qed simp

lemma sum_layout_ok:
  assumes "sum_type_layout vs = LSum l variants payload" and "\<forall>(_, ty) \<in> set vs. ty_align ty \<in> aligns \<and> well_laid ty"
    and "fst (nat_sum (extents vs)) < 65536"
  shows "well_laid (LSum l variants payload) \<and> (unat (lay_size l), unat (lay_align l)) = nat_sum (extents vs) \<and> unat (lay_align l) \<in> aligns"
proof -
  obtain ms ma fx where ext: "variant_extent vs 0 0 True = (ms, ma, fx)" by (cases "variant_extent vs 0 0 True")
  have m: "ms = foldr max (map fst (extents vs)) 0" "ma = foldr max (map snd (extents vs)) 0"
    using variant_extent_max [OF ext] by simp_all
  have ma: "ma = 0 \<and> vs = [] \<or> ma \<in> aligns"
    using foldr_max_aligns [of "map snd (extents vs)"] assms(2) m by (cases "vs = []") (auto simp: case_prod_beta)
  then have al: "max ma 1 \<in> aligns" "ma \<le> 32" using aligns_pos [of ma] by (auto simp: aligns_def)
  have total: "max ma 1 + align_to ms ma < 65536" using assms(3) by (simp add: nat_sum_def m Let_def)
  have ua: "unat (max (of_nat ma) 1 :: u16) = max ma 1"
    using al(2) by (cases "ma = 0") (simp_all add: max_def word_le_nat_alt unat_of_nat)
  have us: "unat (max (of_nat ma) 1 + of_nat (align_to ms ma) :: u16) = max ma 1 + align_to ms ma"
    using total by (simp only: unat_word_ariths(1) ua) (simp add: unat_of_nat)
  have l: "l = \<lparr>lay_size = max (of_nat ma) 1 + of_nat (align_to ms ma), lay_align = max (of_nat ma) 1, lay_fixed = fx\<rparr>"
      "variants = map (\<lambda>(name, ty). (ty, name)) vs" "payload = max (of_nat ma) 1"
    using assms(1) by (auto simp: sum_type_layout_def ext Let_def)
  have parts: "ty_align ty dvd max ma 1 \<and> ty_size ty \<le> align_to ms ma" if "(name, ty) \<in> set vs" for name ty
  proof -
    have "ma \<in> aligns" using ma that by auto
    then have "max ma 1 = ma" using aligns_pos [of ma] by simp
    moreover have "ty_align ty dvd ma"
      using foldr_max_aligns [of "map snd (extents vs)"] assms(2) that by (force simp: m(2) case_prod_beta)
    moreover have "ty_size ty \<le> ms" using that unfolding m(1) by (intro foldr_max_ge) force
    ultimately show ?thesis using align_to_ge [of ms ma] by simp
  qed
  have "max ma 1 dvd align_to ms ma"
    using ma align_to_dvd [of ma ms] m aligns_pos [of ma] by (auto simp: align_to_def)
  then have "well_laid (LSum l variants payload)" using parts assms(2) by (auto simp: l ua us)
  moreover have "nat_sum (extents vs) = (max ma 1 + align_to ms ma, max ma 1)" by (simp only: nat_sum_def Let_def m)
  ultimately show ?thesis using al by (simp add: l ua us)
qed

lemma product_layout_ok:
  assumes "product_type_layout fs = (els, l)" and "\<forall>(_, ty) \<in> set fs. ty_align ty \<in> aligns \<and> well_laid ty"
    and "fst (nat_fields (extents fs) 0 1) < 65536"
  shows "well_laid (LProduct l els) \<and> (unat (lay_size l), unat (lay_align l)) = nat_fields (extents fs) 0 1 \<and> unat (lay_align l) \<in> aligns"
proof -
  obtain off' al' fx' where fields: "layout_fields fs 0 1 True = (els, off', al', fx')"
      and l: "l = \<lparr>lay_size = of_nat (align_to off' al'), lay_align = of_nat al', lay_fixed = fx'\<rparr>"
    using assms(1) by (auto simp: product_type_layout_def split: prod.splits)
  have one: "1 \<in> aligns" by (simp add: aligns_def)
  have ok: "nat_fields (extents fs) 0 1 = (align_to off' al', al')" "fields_ok 0 al' els off'"
    using layout_fields_ok [OF fields] assms one by auto
  have al: "al' \<in> aligns \<and> al' dvd align_to off' al'"
    using nat_fields_align [of 1 "extents fs" 0] assms(2) one ok(1) by (simp add: case_prod_beta)
  then have u: "unat (of_nat al' :: u16) = al'" "unat (of_nat (align_to off' al') :: u16) = align_to off' al'"
    using aligns_pos [of al'] assms(3) ok(1) by (simp_all add: unat_of_nat)
  have "set (map (\<lambda>(_, ty, name). (name, ty)) els) = set fs"
    using fields_of_layout_fields [of fs 0 1 True] fields by simp
  then have "\<forall>(_, ty, _) \<in> set els. well_laid ty" using assms(2) by force
  then show ?thesis using al ok fields_ok_mono [OF ok(2), of al' "align_to off' al'"] align_to_ge [of off' al'] by (simp add: l u)
qed

lemma nat_sum_part: "v \<in> set vs \<Longrightarrow> fst v \<le> fst (nat_sum vs)"
  using foldr_max_ge [of "fst v" "map fst vs"] align_to_ge [of "foldr max (map fst vs) 0"]
  by (force simp: nat_sum_def Let_def intro: order_trans trans_le_add2)

lemma nat_fields_part: "f \<in> set fs \<Longrightarrow> fst f \<le> fst (nat_fields fs off al)"
proof (induction fs arbitrary: off al)
  case (Cons g fs)
  then show ?case using nat_fields_mono [of "align_to off (snd g) + fst g" fs "max al (snd g)"] by (auto intro: order_trans)
qed simp

lemma converted_extents:
  assumes "converted es fs"
    and "\<And>name t ty. (name, t) \<in> set es \<Longrightarrow> type_layout_of t = Some ty \<Longrightarrow> (ty_size ty, ty_align ty) = nat_layout t"
  shows "extents fs = map (\<lambda>(_, t). nat_layout t) es"
proof -
  have "list_all2 (\<lambda>(name, t) (name', ty). name = name' \<and> (ty_size ty, ty_align ty) = nat_layout t) es fs"
    using assms by (rule converted_imp)
  then show ?thesis by (induction es fs rule: list_all2_induct) auto
qed

lemma converted_member: "converted es fs \<Longrightarrow> (name, ty) \<in> set fs \<Longrightarrow> \<exists>t. (name, t) \<in> set es \<and> type_layout_of t = Some ty"
  by (induction es fs rule: list_all2_induct) auto

lemma ty_extent:
  "ty_size (LSum l vs p) = unat (lay_size l)" "ty_align (LSum l vs p) = unat (lay_align l)"
  "ty_size (LProduct l els) = unat (lay_size l)" "ty_align (LProduct l els) = unat (lay_align l)"
  by (simp_all add: ty_size_def ty_align_def)

lemma layout_within:
  "type_layout_of t = Some ty \<Longrightarrow> fst (nat_layout t) < 65536 \<Longrightarrow>
     well_laid ty \<and> (ty_size ty, ty_align ty) = nat_layout t \<and> ty_align ty \<in> aligns"
proof (induction t arbitrary: ty rule: type_layout_of.induct)
  case (2 vs)
  then obtain fs where fs: "converted vs fs" "ty = sum_type_layout fs" by (auto simp: those_converted)
  have IH: "well_laid ty \<and> (ty_size ty, ty_align ty) = nat_layout t \<and> ty_align ty \<in> aligns"
    if "(name, t) \<in> set vs" "type_layout_of t = Some ty" for name t ty
    using "2.IH" [OF that(1) refl that(2)] "2.prems"(2) nat_sum_part [of "nat_layout t" "map (\<lambda>(_, t). nat_layout t) vs"] that(1)
    by force
  have e: "extents fs = map (\<lambda>(_, t). nat_layout t) vs" using fs(1) by (rule converted_extents) (use IH in blast)
  have "\<forall>(_, ty) \<in> set fs. ty_align ty \<in> aligns \<and> well_laid ty"
    using converted_member [OF fs(1)] IH by fastforce
  moreover obtain l variants payload where "sum_type_layout fs = LSum l variants payload" by (auto simp: sum_type_layout_def Let_def case_prod_beta)
  ultimately show ?case
    using sum_layout_ok [of fs l variants payload] "2.prems"(2) fs(2) by (simp add: e ty_extent del: well_laid.simps)
next
  case (3 es)
  then obtain fs where fs: "converted es fs" "ty = (case product_type_layout fs of (elements, l) \<Rightarrow> LProduct l elements)"
    by (auto simp: those_converted)
  have IH: "well_laid ty \<and> (ty_size ty, ty_align ty) = nat_layout t \<and> ty_align ty \<in> aligns"
    if "(name, t) \<in> set es" "type_layout_of t = Some ty" for name t ty
    using "3.IH" [OF that(1) refl that(2)] "3.prems"(2) nat_fields_part [of "nat_layout t" "map (\<lambda>(_, t). nat_layout t) es" 0 1] that(1)
    by force
  have e: "extents fs = map (\<lambda>(_, t). nat_layout t) es" using fs(1) by (rule converted_extents) (use IH in blast)
  have "\<forall>(_, ty) \<in> set fs. ty_align ty \<in> aligns \<and> well_laid ty"
    using converted_member [OF fs(1)] IH by fastforce
  moreover obtain els l where "product_type_layout fs = (els, l)" by fastforce
  ultimately show ?case
    using product_layout_ok [of fs els l] "3.prems"(2) fs(2) by (simp add: e ty_extent del: well_laid.simps)
qed (auto simp: ty_size_def ty_align_def VAR_LEN_REF_LAYOUT_def aligns_def)
subsection \<open>What a layout promises\<close>

text \<open>Claim C21. Rows are laid out soundly. If the values of a type take less than 64 KiB, its layout has the size and the
  alignment that the unbounded computation gives, so nothing is cut to 16 bits; at every level the fields of a product
  lie at aligned offsets, one behind the other and within the size, the payload of a sum lies behind the tag, is
  aligned for every variant and has room for each, and the size is a multiple of the alignment. The type can be read
  back from the layout.\<close>

theorem layout_is_sound:
  assumes "type_layout_of t = Some ty" and "fst (nat_layout t) < 65536"
  shows "well_laid ty \<and> (ty_size ty, ty_align ty) = nat_layout t \<and> layout_algebraic_type ty = t"
  using layout_within [OF assms] layout_keeps_type [OF assms(1)] by simp

theorem layout_is_sound_witness:
  "let t = TProduct [(Some ''a'', TU8), (None, TSum [(None, TU64), (None, TString)]), (None, TU16)]
   in \<exists>ty. type_layout_of t = Some ty \<and> nat_layout t = (32, 8) \<and> well_laid ty \<and> (ty_size ty, ty_align ty) = (32, 8)"
proof -
  define t where "t = TProduct [(Some ''a'', TU8), (None, TSum [(None, TU64), (None, TString)]), (None, TU16)]"
  obtain ty where ty: "type_layout_of t = Some ty" by (simp add: t_def)
  have nl: "nat_layout t = (32, 8)"
    by (simp add: t_def nat_sum_def ty_size_def ty_align_def VAR_LEN_REF_LAYOUT_def align_to_def Let_def)
  then have "fst (nat_layout t) < 65536" by simp
  from layout_is_sound [OF ty this] ty nl show ?thesis unfolding t_def [symmetric] Let_def by auto
qed

text \<open>Claim C22. Decoding with the layout of a type as the guide is decoding at the type: on every input the two return the
  same value or the same error and leave the reader at the same place.\<close>

theorem decode_at_layout:
  assumes "type_layout_of t = Some ty"
  shows "deserialize_layout ty bs = decode t bs"
  using deserialize_layout_is_deserialize [OF assms] by (simp add: decode_def)

theorem decode_at_layout_witness:
  "let t = TProduct [(None, TU8), (None, TSum [(None, TBool)])]; bs = [7, 0, 1]
   in \<exists>ty. type_layout_of t = Some ty \<and> deserialize_layout ty bs = decode t bs"
proof -
  have "\<exists>ty. type_layout_of (TProduct [(None, TU8), (None, TSum [(None, TBool)])]) = Some ty" by simp
  then show ?thesis using decode_at_layout unfolding Let_def by blast
qed

end
