(* ===== verification/Spec2Isabelle.thy ===== *)
theory Spec2Isabelle
  imports Fixed_Bit_Set Row_Pointer Pointer_Map Index_Maps Direct_Index Sequence_State Delete_Table Blob_Store Txdata Log_Traversal Bsatn_Ops Layout
begin

text \<open>
  A verification library for the storage core of SpacetimeDB.
\<close>

end
